(* ===== verification/Prelude.thy ===== *)
theory Prelude
  imports Main "HOL-Library.Word"
begin

text \<open>
  Shared vocabulary of the development: machine integers and byte strings, the result type that
  separates an \<open>Err\<close> return from a Rust panic, little-endian integer encodings, and the generic
  lemmas the component theories rest on.

  Rust integers of a fixed width are \<open>word\<close>s.  A \<open>usize\<close> that only counts elements of an
  in-memory slice is a \<open>nat\<close>; wherever the source adds a program-controlled value to such a
  count the 64-bit overflow is written out.  The bytes of a \<open>Pubkey\<close> are the little-endian digits
  of a \<open>256 word\<close>, the same reading \<open>SVM.Ffi.pubkeyToNat\<close> uses.
\<close>

type_synonym u8 = "8 word"
type_synonym u16 = "16 word"
type_synonym u32 = "32 word"
type_synonym u64 = "64 word"
type_synonym bytes = "u8 list"
type_synonym pubkey = "256 word"

named_theorems wire_simps "evaluation of cursor reads on known bytes"
named_theorems res_simps "the result type and its combinators"
named_theorems len_simps "lengths of encoded byte strings"

subsection \<open>Results: a value, an error return, or a panic\<close>

datatype (errs: 'e, vals: 'a) res = Ok 'a | Err 'e | Panic

primrec bind_res :: "('e, 'a) res \<Rightarrow> ('a \<Rightarrow> ('e, 'b) res) \<Rightarrow> ('e, 'b) res" where
  "bind_res (Ok x) f = f x"
| "bind_res (Err e) f = Err e"
| "bind_res Panic f = Panic"

primrec map_err :: "('e \<Rightarrow> 'f) \<Rightarrow> ('e, 'a) res \<Rightarrow> ('f, 'a) res" where
  "map_err g (Ok x) = Ok x"
| "map_err g (Err e) = Err (g e)"
| "map_err g Panic = Panic"

definition ok_or :: "'e \<Rightarrow> 'a option \<Rightarrow> ('e, 'a) res" where
  "ok_or e o1 = (case o1 of None \<Rightarrow> Err e | Some x \<Rightarrow> Ok x)"

lemma ok_or_simps [simp, res_simps]: "ok_or e None = Err e" "ok_or e (Some x) = Ok x"
  by (simp_all add: ok_or_def)

lemma bind_res_eq_Ok [res_simps]:
  "bind_res m f = Ok y \<longleftrightarrow> (\<exists>x. m = Ok x \<and> f x = Ok y)"
  by (cases m) auto

lemma bind_res_eq_Panic:
  "bind_res m f = Panic \<longleftrightarrow> m = Panic \<or> (\<exists>x. m = Ok x \<and> f x = Panic)"
  by (cases m) auto

lemma map_err_eq_Panic [simp]: "map_err g m = Panic \<longleftrightarrow> m = Panic"
  by (cases m) auto

lemma bind_res_assoc [res_simps]:
  "bind_res (bind_res m f) g = bind_res m (\<lambda>x. bind_res (f x) g)"
  by (cases m) auto

lemma map_err_eq_Ok [simp]: "map_err g m = Ok y \<longleftrightarrow> m = Ok y"
  by (cases m) auto

lemma ok_or_eq_Ok [simp]: "ok_or e o1 = Ok x \<longleftrightarrow> o1 = Some x"
  by (cases o1) auto

lemma bind_res_cong [fundef_cong]:
  "m = m' \<Longrightarrow> (\<And>x. m' = Ok x \<Longrightarrow> f x = f' x) \<Longrightarrow> bind_res m f = bind_res m' f'"
  by (cases m') auto

text \<open>A \<open>for\<close> loop whose body may return early: a fold that stops at the first non-\<open>Ok\<close>.\<close>

primrec foldM :: "('s \<Rightarrow> 'a \<Rightarrow> ('e, 's) res) \<Rightarrow> 's \<Rightarrow> 'a list \<Rightarrow> ('e, 's) res" where
  "foldM f s [] = Ok s"
| "foldM f s (x # xs) = bind_res (f s x) (\<lambda>s'. foldM f s' xs)"

lemma foldM_append: "foldM f s (xs @ ys) = bind_res (foldM f s xs) (\<lambda>s'. foldM f s' ys)"
  by (induction xs arbitrary: s) (simp_all add: bind_res_assoc)

lemma foldM_invariant:
  assumes "foldM f s xs = Ok s'" "P s"
    and "\<And>s x t. x \<in> set xs \<Longrightarrow> P s \<Longrightarrow> f s x = Ok t \<Longrightarrow> P t"
  shows "P s'"
  using assms by (induction xs arbitrary: s) (auto simp: bind_res_eq_Ok)

subsection \<open>Lists by index\<close>

lemma bex_set_nth: "(\<exists>x \<in> set xs. P x) \<longleftrightarrow> (\<exists>i < length xs. P (xs ! i))"
  by (metis in_set_conv_nth)

lemma image_set_nth: "f ` set xs = (\<lambda>i. f (xs ! i)) ` {..<length xs}"
  by (auto simp: set_conv_nth)

lemma find_SomeD: "find P xs = Some x \<Longrightarrow> P x \<and> x \<in> set xs"
  by (auto simp: find_Some_iff)

lemma image_bex: "k \<in> f ` S \<longleftrightarrow> (\<exists>x \<in> S. f x = k)"
  by auto

subsection \<open>Little-endian integers\<close>

primrec le_bytes :: "nat \<Rightarrow> nat \<Rightarrow> bytes" where
  "le_bytes 0 n = []"
| "le_bytes (Suc k) n = word_of_nat n # le_bytes k (n div 256)"

primrec from_le :: "bytes \<Rightarrow> nat" where
  "from_le [] = 0"
| "from_le (b # bs) = unat b + 256 * from_le bs"

lemma length_le_bytes [simp, len_simps]: "length (le_bytes k n) = k"
  by (induction k arbitrary: n) auto

lemma unat_lts [simp]:
  "unat (a :: u8) < 256" "unat (b :: u32) < 4294967296" "unat (c :: u64) < 18446744073709551616"
  "unat (k :: pubkey) < 256 ^ 32"
  using unsigned_less [of a] unsigned_less [of b] unsigned_less [of c] unsigned_less [of k]
  by (simp_all add: power_mult [symmetric])

lemma unat_word_of_nat_8 [simp]: "unat (word_of_nat n :: u8) = n mod 256"
  by (simp add: unat_of_nat)

lemma from_le_le_bytes: "from_le (le_bytes k n) = n mod 256 ^ k"
proof (induction k arbitrary: n)
  case 0
  then show ?case by simp
next
  case (Suc k)
  then show ?case by (simp add: mod_mult2_eq)
qed

lemma from_le_bound: "from_le bs < 256 ^ length bs"
proof (induction bs)
  case Nil
  then show ?case by simp
next
  case (Cons b bs)
  have "unat b + 256 * from_le bs < 256 * Suc (from_le bs)" by simp
  also have "\<dots> \<le> 256 * 256 ^ length bs" using Cons by (intro mult_le_mono2) simp
  finally show ?case by simp
qed

lemma le_bytes_from_le: "length bs = k \<Longrightarrow> le_bytes k (from_le bs) = bs"
proof (induction k arbitrary: bs)
  case 0
  then show ?case by simp
next
  case (Suc k)
  then obtain b bs' where bs: "bs = b # bs'" "length bs' = k" by (cases bs) auto
  have "unat b < 256" by simp
  then have "(unat b + 256 * from_le bs') div 256 = from_le bs'" by simp
  moreover have "(word_of_nat (unat b + 256 * from_le bs') :: u8) = b"
  proof -
    have "unat (word_of_nat (unat b + 256 * from_le bs') :: u8) = unat b"
      by (simp only: unat_word_of_nat_8) simp
    then show ?thesis by (simp only: word_unat_eq_iff)
  qed
  ultimately show ?case using Suc.IH [OF bs(2)] bs(1) by simp
qed

definition le32 :: "u32 \<Rightarrow> bytes" where "le32 w = le_bytes 4 (unat w)"
definition le64 :: "u64 \<Rightarrow> bytes" where "le64 w = le_bytes 8 (unat w)"
definition key_bytes :: "pubkey \<Rightarrow> bytes" where "key_bytes k = le_bytes 32 (unat k)"

definition u32_of_le :: "bytes \<Rightarrow> u32" where "u32_of_le bs = word_of_nat (from_le bs)"
definition u64_of_le :: "bytes \<Rightarrow> u64" where "u64_of_le bs = word_of_nat (from_le bs)"
definition key_of_bytes :: "bytes \<Rightarrow> pubkey" where "key_of_bytes bs = word_of_nat (from_le bs)"

lemma length_le [simp, len_simps]:
  "length (le32 w) = 4" "length (le64 v) = 8" "length (key_bytes k) = 32"
  by (simp_all add: le32_def le64_def key_bytes_def)

lemma u32_of_le_le32 [simp, wire_simps]: "u32_of_le (le32 w) = w"
  by (simp add: u32_of_le_def le32_def from_le_le_bytes)

lemma u64_of_le_le64 [simp, wire_simps]: "u64_of_le (le64 w) = w"
  by (simp add: u64_of_le_def le64_def from_le_le_bytes)

lemma key_of_bytes_key_bytes [simp, wire_simps]: "key_of_bytes (key_bytes k) = k"
  unfolding key_of_bytes_def key_bytes_def from_le_le_bytes mod_less [OF unat_lts(4)] by simp

lemma key_bytes_inj [simp]: "key_bytes a = key_bytes b \<longleftrightarrow> a = b"
  by (metis key_of_bytes_key_bytes)

end
