(* ===== verification/Accounts.thy ===== *)
theory Accounts
  imports Prelude
begin

text \<open>
  Accounts, instructions and the duplicate-account structure of an instruction:
  \<open>solana_account::AccountSharedData\<close> and \<open>solana_instruction\<close>'s types as the sources use them,
  \<open>dup_map\<close> and \<open>find_account\<close> of \<open>qedsvm-rs/src/serialize.rs\<close>, and
  \<open>accounts_for_instruction\<close> of \<open>qedsvm-rs/src/svm.rs\<close>.  The interface \<open>first_occurrence\<close> says
  what the serializer, the deserializer and the host rely on about the duplicate map;
  \<open>reference_loop\<close> is the loop over account references they share.
\<close>

record account =
  lamports :: u64
  data :: bytes
  owner :: pubkey
  executable :: bool
  rent_epoch :: u64

record account_meta =
  meta_key :: pubkey
  is_signer :: bool
  is_writable :: bool

record instruction =
  program_id :: pubkey
  ix_accounts :: "account_meta list"
  ix_data :: bytes

type_synonym accounts = "(pubkey \<times> account) list"

datatype serialize_error = MissingAccount pubkey | TooManyAccounts nat

text \<open>\<open>AccountSharedData::new\<close> followed by the three setters of the deserializer.\<close>

definition account_of :: "u64 \<Rightarrow> bytes \<Rightarrow> pubkey \<Rightarrow> bool \<Rightarrow> u64 \<Rightarrow> account" where
  "account_of l d ow ex re =
     \<lparr>lamports = l, data = d, owner = ow, executable = ex, rent_epoch = re\<rparr>"

definition find_account :: "pubkey \<Rightarrow> accounts \<Rightarrow> account option" where
  "find_account key accs = map_option snd (find (\<lambda>(k, _). k = key) accs)"

lemma find_account_map_of: "find_account key accs = map_of accs key"
  by (induction accs) (auto simp: find_account_def)

subsection \<open>The duplicate map\<close>

text \<open>The \<open>HashMap\<close> of first occurrences is threaded through the enumeration of the metas.\<close>

fun dup_map_from :: "nat \<Rightarrow> (pubkey \<rightharpoonup> nat) \<Rightarrow> account_meta list \<Rightarrow> nat option list" where
  "dup_map_from i first_seen [] = []"
| "dup_map_from i first_seen (m # ms) =
     (case first_seen (meta_key m) of
        Some j \<Rightarrow> Some j # dup_map_from (Suc i) first_seen ms
      | None \<Rightarrow> None # dup_map_from (Suc i) (first_seen(meta_key m \<mapsto> i)) ms)"

definition dup_map :: "account_meta list \<Rightarrow> nat option list" where
  "dup_map metas = dup_map_from 0 Map.empty metas"

text \<open>The index of the first reference to \<open>k\<close> before position \<open>i\<close>.\<close>

definition first_ref :: "account_meta list \<Rightarrow> nat \<Rightarrow> pubkey \<Rightarrow> nat option" where
  "first_ref ms i k = find (\<lambda>j. meta_key (ms ! j) = k) [0..<i]"

lemma find_upt_Suc:
  "find P [0..<Suc i] = (case find P [0..<i] of Some j \<Rightarrow> Some j | None \<Rightarrow> if P i then Some i else None)"
proof -
  have app: "find P (xs @ ys) = (case find P xs of Some j \<Rightarrow> Some j | None \<Rightarrow> find P ys)" for xs ys
    by (induction xs) auto
  have upt: "[0..<Suc i] = [0..<i] @ [i]" by simp
  show ?thesis unfolding upt app by (simp only: find.simps)
qed

lemma first_ref_Suc:
  "first_ref ms (Suc i) k =
     (case first_ref ms i k of Some j \<Rightarrow> Some j | None \<Rightarrow> if meta_key (ms ! i) = k then Some i else None)"
  unfolding first_ref_def find_upt_Suc ..

lemma first_ref_SomeD:
  assumes "first_ref ms i k = Some j"
  shows "j < i" "meta_key (ms ! j) = k" "\<forall>j' < j. meta_key (ms ! j') \<noteq> k"
  using assms by (auto simp: first_ref_def find_Some_iff)

lemma first_ref_None_iff: "first_ref ms i k = None \<longleftrightarrow> (\<forall>j < i. meta_key (ms ! j) \<noteq> k)"
  by (auto simp: first_ref_def find_None_iff)

lemma dup_map_from_eq:
  assumes "ms = pre @ suf" "i = length pre" "\<forall>k. seen k = first_ref ms i k"
  shows "dup_map_from i seen suf = map (\<lambda>j. first_ref ms j (meta_key (ms ! j))) [i..<length ms]"
  using assms
proof (induction suf arbitrary: pre i seen)
  case Nil
  then show ?case by simp
next
  case (Cons m suf)
  have mi: "ms ! i = m" and lt: "i < length ms" using Cons.prems by auto
  have upt: "[i..<length ms] = i # [Suc i..<length ms]" using lt by (rule upt_conv_Cons)
  have next_seen: "(case seen (meta_key m) of None \<Rightarrow> seen(meta_key m \<mapsto> i) | Some _ \<Rightarrow> seen) k
      = first_ref ms (Suc i) k" for k
    using Cons.prems(3) mi by (auto simp: first_ref_Suc split: option.splits)
  have IH: "dup_map_from (Suc i) seen' suf
      = map (\<lambda>j. first_ref ms j (meta_key (ms ! j))) [Suc i..<length ms]"
    if "\<forall>k. seen' k = first_ref ms (Suc i) k" for seen'
    using Cons.prems(1,2) that by (intro Cons.IH [of "pre @ [m]"]) simp_all
  show ?case
  proof (cases "seen (meta_key m)")
    case None
    with next_seen have "\<forall>k. (seen(meta_key m \<mapsto> i)) k = first_ref ms (Suc i) k" by simp
    note IH [OF this]
    moreover have "first_ref ms i (meta_key (ms ! i)) = None" using None Cons.prems(3) mi by metis
    ultimately show ?thesis using None by (simp add: upt del: fun_upd_apply)
  next
    case (Some j)
    with next_seen have "\<forall>k. seen k = first_ref ms (Suc i) k" by simp
    note IH [OF this]
    moreover have "first_ref ms i (meta_key (ms ! i)) = Some j" using Some Cons.prems(3) mi by metis
    ultimately show ?thesis using Some by (simp add: upt)
  qed
qed

lemma dup_map_eq: "dup_map ms = map (\<lambda>i. first_ref ms i (meta_key (ms ! i))) [0..<length ms]"
  unfolding dup_map_def by (rule dup_map_from_eq [of ms "[]"]) (auto simp: first_ref_def)

lemma length_dup_map [simp]: "length (dup_map ms) = length ms"
  by (simp add: dup_map_eq)

lemma dup_map_nth: "i < length ms \<Longrightarrow> dup_map ms ! i = first_ref ms i (meta_key (ms ! i))"
  by (simp add: dup_map_eq)

subsection \<open>The first-occurrence interface\<close>

locale first_occurrence =
  fixes dups :: "account_meta list \<Rightarrow> nat option list"
  assumes length_dups: "length (dups ms) = length ms"
    and dup_before: "i < length ms \<Longrightarrow> dups ms ! i = Some j \<Longrightarrow> j < i"
    and dup_same: "i < length ms \<Longrightarrow> dups ms ! i = Some j \<Longrightarrow> meta_key (ms ! j) = meta_key (ms ! i)"
    and dup_first: "i < length ms \<Longrightarrow> dups ms ! i = Some j \<Longrightarrow> dups ms ! j = None"
    and nondup: "i < length ms \<Longrightarrow> dups ms ! i = None \<Longrightarrow> j < i \<Longrightarrow> meta_key (ms ! j) \<noteq> meta_key (ms ! i)"
begin

definition origin :: "account_meta list \<Rightarrow> nat \<Rightarrow> nat" where
  "origin ms i = (case dups ms ! i of Some j \<Rightarrow> j | None \<Rightarrow> i)"

lemma origin_props:
  assumes "i < length ms"
  shows "origin ms i \<le> i" "origin ms i < length ms" "dups ms ! origin ms i = None"
    "meta_key (ms ! origin ms i) = meta_key (ms ! i)"
  using assms dup_before [OF assms] dup_same [OF assms] dup_first [OF assms]
  by (auto simp: origin_def split: option.splits)

lemma origin_unique:
  assumes "i < length ms" "j < length ms" "dups ms ! i = None" "dups ms ! j = None"
    and "meta_key (ms ! i) = meta_key (ms ! j)"
  shows "i = j"
  using assms nondup by (metis linorder_neqE_nat)

lemma origin_eq_iff:
  assumes "i < length ms" "j < length ms"
  shows "origin ms i = origin ms j \<longleftrightarrow> meta_key (ms ! i) = meta_key (ms ! j)"
  using origin_props [OF assms(1)] origin_props [OF assms(2)] origin_unique by metis

end

interpretation dm: first_occurrence dup_map
proof
  fix ms i j
  assume i: "i < length ms" and d: "dup_map ms ! i = Some j"
  then have fr: "first_ref ms i (meta_key (ms ! i)) = Some j" by (simp add: dup_map_nth)
  note fr' = first_ref_SomeD [OF fr]
  show "j < i" "meta_key (ms ! j) = meta_key (ms ! i)" using fr' by auto
  have "first_ref ms j (meta_key (ms ! j)) = None" using fr' by (auto simp: first_ref_None_iff)
  then show "dup_map ms ! j = None" using fr'(1) i by (simp add: dup_map_nth)
next
  fix ms i j
  assume "i < length ms" "dup_map ms ! i = None" "j < i"
  then show "meta_key (ms ! j) \<noteq> meta_key (ms ! i)"
    by (simp add: dup_map_nth first_ref_None_iff)
qed simp

subsection \<open>Instruction-ordered accounts\<close>

text \<open>\<open>out[j].1.clone()\<close> indexes the list built so far; \<open>j < i\<close> keeps it in range.\<close>

definition afi_step :: "nat option list \<Rightarrow> accounts \<Rightarrow> accounts \<Rightarrow> nat \<times> account_meta
    \<Rightarrow> (serialize_error, accounts) res" where
  "afi_step dups accs out im = (case im of (i, m) \<Rightarrow>
     (case dups ! i of
        Some j \<Rightarrow> (if j < length out then Ok (out @ [(meta_key m, snd (out ! j))]) else Panic)
      | None \<Rightarrow> bind_res (ok_or (MissingAccount (meta_key m)) (find_account (meta_key m) accs))
                  (\<lambda>a. Ok (out @ [(meta_key m, a)]))))"

definition accounts_for_instruction :: "instruction \<Rightarrow> accounts \<Rightarrow> (serialize_error, accounts) res" where
  "accounts_for_instruction ix accs =
     foldM (afi_step (dup_map (ix_accounts ix)) accs) [] (List.enumerate 0 (ix_accounts ix))"

text \<open>What the loop computes: each reference with the supplied account of its key.\<close>

definition canonical :: "accounts \<Rightarrow> account_meta list \<Rightarrow> accounts" where
  "canonical accs ms = map (\<lambda>m. (meta_key m, the (find_account (meta_key m) accs))) ms"

lemma canonical_nth: "i < length ms \<Longrightarrow>
    canonical accs ms ! i = (meta_key (ms ! i), the (find_account (meta_key (ms ! i)) accs))"
  by (simp add: canonical_def)

lemma afi_step_eq:
  assumes "i < length ms" "find_account (meta_key (ms ! i)) accs \<noteq> None"
  shows "afi_step (dup_map ms) accs (canonical accs (take i ms)) (i, ms ! i)
           = Ok (canonical accs (take (Suc i) ms))"
proof -
  have take: "canonical accs (take (Suc i) ms)
      = canonical accs (take i ms) @ [(meta_key (ms ! i), the (find_account (meta_key (ms ! i)) accs))]"
    using assms(1) by (simp add: canonical_def take_Suc_conv_app_nth)
  show ?thesis
  proof (cases "dup_map ms ! i")
    case None
    then show ?thesis using assms(2) by (auto simp: afi_step_def take)
  next
    case (Some j)
    have "j < i" "meta_key (ms ! j) = meta_key (ms ! i)"
      using dm.dup_before dm.dup_same assms(1) Some by auto
    moreover have "length (canonical accs (take i ms)) = i"
      using assms(1) by (simp add: canonical_def)
    ultimately show ?thesis
      using Some assms(1) canonical_nth [of j "take i ms" accs]
      by (simp add: afi_step_def take)
  qed
qed

text \<open>A loop over the enumerated references that needs each reference's account: on every
  complete account list it runs through its states, on an incomplete one it stops at the first
  missing key.  \<open>accounts_for_instruction\<close> and the serializer are both of this shape.\<close>

locale reference_loop =
  fixes step :: "accounts \<Rightarrow> account_meta list \<Rightarrow> 's \<Rightarrow> nat \<times> account_meta \<Rightarrow> (serialize_error, 's) res"
    and state :: "accounts \<Rightarrow> account_meta list \<Rightarrow> nat \<Rightarrow> 's"
  assumes step_found: "i < length ms \<Longrightarrow> find_account (meta_key (ms ! i)) accs \<noteq> None \<Longrightarrow>
      step accs ms (state accs ms i) (i, ms ! i) = Ok (state accs ms (Suc i))"
    and step_missing: "i < length ms \<Longrightarrow> find_account (meta_key (ms ! i)) accs = None \<Longrightarrow>
      dup_map ms ! i = None \<Longrightarrow>
      step accs ms (state accs ms i) (i, ms ! i) = Err (MissingAccount (meta_key (ms ! i)))"
begin

lemma loop_prefix:
  assumes "i \<le> length ms" "\<forall>m \<in> set (take i ms). find_account (meta_key m) accs \<noteq> None"
  shows "foldM (step accs ms) (state accs ms 0) (take i (List.enumerate 0 ms)) = Ok (state accs ms i)"
  using assms
proof (induction i)
  case 0
  then show ?case by simp
next
  case (Suc i)
  then have "take (Suc i) (List.enumerate 0 ms) = take i (List.enumerate 0 ms) @ [(i, ms ! i)]"
    by (simp add: take_Suc_conv_app_nth nth_enumerate_eq)
  with Suc step_found [of i ms accs] show ?case
    by (simp add: foldM_append take_Suc_conv_app_nth)
qed

lemma loop_complete:
  assumes "\<forall>m \<in> set ms. find_account (meta_key m) accs \<noteq> None"
  shows "foldM (step accs ms) (state accs ms 0) (List.enumerate 0 ms) = Ok (state accs ms (length ms))"
  using loop_prefix [of "length ms" ms accs] assms by simp

lemma loop_missing:
  assumes "\<exists>m \<in> set ms. find_account (meta_key m) accs = None"
  shows "foldM (step accs ms) (state accs ms 0) (List.enumerate 0 ms)
      = Err (MissingAccount (meta_key (hd (filter (\<lambda>m. find_account (meta_key m) accs = None) ms))))"
proof -
  let ?P = "\<lambda>m. find_account (meta_key m) accs = None"
  obtain pre m post where ms: "ms = pre @ m # post" and m: "?P m" and pre: "\<forall>x \<in> set pre. \<not> ?P x"
    using split_list_first_prop [OF assms] by auto
  let ?i = "length pre"
  have i: "?i < length ms" "ms ! ?i = m" "take ?i ms = pre" using ms by auto
  have "dup_map ms ! ?i = None"
  proof (rule ccontr)
    assume "dup_map ms ! ?i \<noteq> None"
    then obtain j where "j < ?i" "meta_key (ms ! j) = meta_key m"
      using dm.dup_before [OF i(1)] dm.dup_same [OF i(1)] i(2) by auto
    then show False using pre m ms by (metis nth_append nth_mem)
  qed
  then have "step accs ms (state accs ms ?i) (?i, m) = Err (MissingAccount (meta_key m))"
    using step_missing [OF i(1)] i(2) m by simp
  moreover have "List.enumerate 0 ms = take ?i (List.enumerate 0 ms) @ (?i, m) # drop (Suc ?i) (List.enumerate 0 ms)"
    using i id_take_nth_drop [of ?i "List.enumerate 0 ms"] by (simp add: nth_enumerate_eq)
  moreover have "filter ?P ms = m # filter ?P post" using pre m ms by (simp add: filter_empty_conv)
  ultimately show ?thesis
    using loop_prefix [of ?i ms accs] i pre
    by (metis (no_types, lifting) bind_res.simps(1,2) foldM.simps(2) foldM_append less_imp_le list.sel(1))
qed

end

interpretation afi_loop: reference_loop "\<lambda>accs ms. afi_step (dup_map ms) accs" "\<lambda>accs ms i. canonical accs (take i ms)"
  by unfold_locales (simp_all add: afi_step_eq, simp add: afi_step_def)

lemma accounts_for_instruction_eq:
  "accounts_for_instruction ix accs =
     (if \<forall>m \<in> set (ix_accounts ix). find_account (meta_key m) accs \<noteq> None
      then Ok (canonical accs (ix_accounts ix))
      else Err (MissingAccount (meta_key
             (hd (filter (\<lambda>m. find_account (meta_key m) accs = None) (ix_accounts ix))))))"
proof -
  have "canonical accs (take 0 (ix_accounts ix)) = []" by (simp add: canonical_def)
  then show ?thesis
    using afi_loop.loop_complete [of "ix_accounts ix" accs] afi_loop.loop_missing [of "ix_accounts ix" accs]
    by (auto simp: accounts_for_instruction_def)
qed

end
