(* ===== verification/Byte_Cursor.thy ===== *)
theory Byte_Cursor
  imports Prelude
begin

text \<open>
  The little-endian byte cursor of \<open>qedsvm-rs/src/cursor.rs\<close>.  \<open>None\<close> on truncation is
  \<open>Err ()\<close>; the unchecked \<open>self.pos + n\<close> of \<open>take\<close> is the one place where the cursor can panic,
  and the model keeps that outcome apart.  The interface \<open>prefix_codec\<close> states what a wire reader
  promises about its encoder; the readers of this theory are its instances.
\<close>

record cursor =
  buf :: bytes
  pos :: nat

definition new_cursor :: "bytes \<Rightarrow> cursor" where
  "new_cursor b = \<lparr>buf = b, pos = 0\<rparr>"

text \<open>
  \<open>self.pos + n\<close> is a 64-bit addition: in a debug build it panics on overflow, in a release build
  it wraps and the slice \<open>pos..pos+n\<close> with its end before its start panics instead.
\<close>

definition take_bytes :: "nat \<Rightarrow> cursor \<Rightarrow> (unit, bytes \<times> cursor) res" where
  "take_bytes n c =
     (if pos c + n \<ge> 2 ^ 64 then Panic
      else if pos c + n > length (buf c) then Err ()
      else Ok (take n (drop (pos c) (buf c)), c\<lparr>pos := pos c + n\<rparr>))"

definition skip :: "nat \<Rightarrow> cursor \<Rightarrow> (unit, cursor) res" where
  "skip n c = bind_res (take_bytes n c) (\<lambda>(_, c'). Ok c')"

definition read_u8 :: "cursor \<Rightarrow> (unit, u8 \<times> cursor) res" where
  "read_u8 c = bind_res (take_bytes 1 c) (\<lambda>(b, c'). Ok (b ! 0, c'))"

definition read_u32 :: "cursor \<Rightarrow> (unit, u32 \<times> cursor) res" where
  "read_u32 c = bind_res (take_bytes 4 c) (\<lambda>(b, c'). Ok (u32_of_le b, c'))"

definition read_u64 :: "cursor \<Rightarrow> (unit, u64 \<times> cursor) res" where
  "read_u64 c = bind_res (take_bytes 8 c) (\<lambda>(b, c'). Ok (u64_of_le b, c'))"

text \<open>\<open>read_into\<close> with a destination of length \<open>n\<close> returns the bytes it copies.\<close>

definition read_into :: "nat \<Rightarrow> cursor \<Rightarrow> (unit, bytes \<times> cursor) res" where
  "read_into n c = take_bytes n c"

primrec read_n :: "('c \<Rightarrow> ('e, 'a \<times> 'c) res) \<Rightarrow> nat \<Rightarrow> 'c \<Rightarrow> ('e, 'a list \<times> 'c) res" where
  "read_n rd 0 c = Ok ([], c)"
| "read_n rd (Suc n) c =
     bind_res (rd c) (\<lambda>(x, c'). bind_res (read_n rd n c') (\<lambda>(xs, c''). Ok (x # xs, c'')))"

subsection \<open>Cursors by what they have consumed and what is left\<close>

text \<open>A slice is never longer than \<open>isize::MAX\<close> bytes.\<close>

definition is_slice :: "bytes \<Rightarrow> bool" where
  "is_slice b \<longleftrightarrow> length b < 2 ^ 63"

definition at :: "bytes \<Rightarrow> bytes \<Rightarrow> cursor" where
  "at pre rest = \<lparr>buf = pre @ rest, pos = length pre\<rparr>"

lemma new_cursor_at: "new_cursor b = at [] b"
  by (simp add: new_cursor_def at_def)

lemma take_bytes_at [wire_simps]:
  assumes "length xs = n" "is_slice (pre @ xs @ ys)"
  shows "take_bytes n (at pre (xs @ ys)) = Ok (xs, at (pre @ xs) ys)"
  using assms by (auto simp: take_bytes_def at_def is_slice_def)

lemma take_bytes_short:
  assumes "length ys < n" "n < 2 ^ 63" "is_slice (pre @ ys)"
  shows "take_bytes n (at pre ys) = Err ()"
  using assms by (auto simp: take_bytes_def at_def is_slice_def)

lemma skip_at [wire_simps]:
  assumes "length xs = n" "is_slice (pre @ xs @ ys)"
  shows "skip n (at pre (xs @ ys)) = Ok (at (pre @ xs) ys)"
  by (simp add: skip_def take_bytes_at [OF assms])

lemma skip_1_at [wire_simps]:
  "is_slice (pre @ b # ys) \<Longrightarrow> skip (Suc 0) (at pre (b # ys)) = Ok (at (pre @ [b]) ys)"
  using skip_at [of "[b]" "Suc 0" pre ys] by simp

text \<open>Every cursor a reader can reach is some \<open>at\<close>, so facts about \<open>at\<close> are facts about reads.\<close>

definition cursor_ok :: "cursor \<Rightarrow> bool" where
  "cursor_ok c \<longleftrightarrow> pos c \<le> length (buf c) \<and> is_slice (buf c)"

lemma new_cursor_ok [simp]: "is_slice b \<Longrightarrow> cursor_ok (new_cursor b)"
  by (simp add: cursor_ok_def new_cursor_def)

lemma take_bytes_no_panic: "cursor_ok c \<Longrightarrow> n < 2 ^ 63 \<Longrightarrow> take_bytes n c \<noteq> Panic"
  by (auto simp: take_bytes_def cursor_ok_def is_slice_def)

lemma take_bytes_Ok:
  assumes "take_bytes n c = Ok (b, c')"
  shows "length b = n" "cursor_ok c \<Longrightarrow> cursor_ok c'" "buf c' = buf c" "pos c' = pos c + n"
  using assms by (auto simp: take_bytes_def cursor_ok_def split: if_splits)

subsection \<open>The contract between an encoder and its reader\<close>

locale prefix_codec =
  fixes enc :: "'a \<Rightarrow> bytes"
    and rd :: "cursor \<Rightarrow> ('e, 'a \<times> cursor) res"
    and dom :: "'a \<Rightarrow> bool"
  assumes rd_enc: "dom x \<Longrightarrow> is_slice (pre @ enc x @ ys) \<Longrightarrow>
      rd (at pre (enc x @ ys)) = Ok (x, at (pre @ enc x) ys)"
begin

lemma read_n_enc:
  assumes "\<forall>x \<in> set xs. dom x" "is_slice (pre @ concat (map enc xs) @ ys)"
  shows "read_n rd (length xs) (at pre (concat (map enc xs) @ ys))
           = Ok (xs, at (pre @ concat (map enc xs)) ys)"
  using assms
proof (induction xs arbitrary: pre)
  case Nil
  then show ?case by simp
next
  case (Cons x xs)
  have "rd (at pre (enc x @ concat (map enc xs) @ ys))
          = Ok (x, at (pre @ enc x) (concat (map enc xs) @ ys))"
    using Cons.prems by (intro rd_enc) (auto simp: is_slice_def)
  moreover have "read_n rd (length xs) (at (pre @ enc x) (concat (map enc xs) @ ys))
      = Ok (xs, at ((pre @ enc x) @ concat (map enc xs)) ys)"
    using Cons.prems by (intro Cons.IH) (auto simp: is_slice_def)
  ultimately show ?case by simp
qed

lemma enc_prefix_free:
  assumes "dom x" "dom y" "enc x @ s = enc y @ t" "is_slice (enc x @ s)"
  shows "x = y" "s = t"
proof -
  have "Ok (x, at (enc x) s) = Ok (y, at (enc y) t)"
    using rd_enc [of x "[]" s] rd_enc [of y "[]" t] assms by simp
  then show "x = y" "s = t" using assms(3) by auto
qed

end

lemma read_u8_at [wire_simps]:
  "is_slice (pre @ b # ys) \<Longrightarrow> read_u8 (at pre (b # ys)) = Ok (b, at (pre @ [b]) ys)"
  using take_bytes_at [of "[b]" 1 pre ys] by (simp add: read_u8_def)

interpretation u8_codec: prefix_codec "\<lambda>b. [b]" read_u8 "\<lambda>_. True"
  by unfold_locales (simp add: read_u8_at)

interpretation u32_codec: prefix_codec le32 read_u32 "\<lambda>_. True"
  by unfold_locales (simp add: read_u32_def take_bytes_at)

interpretation u64_codec: prefix_codec le64 read_u64 "\<lambda>_. True"
  by unfold_locales (simp add: read_u64_def take_bytes_at)

lemmas int_reads [wire_simps] =
  u32_codec.rd_enc [OF TrueI] u64_codec.rd_enc [OF TrueI]

end
