(* ===== verification/Serialize.thy ===== *)
theory Serialize
  imports Accounts Byte_Cursor
begin

text \<open>
  The input-buffer serializer of \<open>qedsvm-rs/src/serialize.rs\<close>: one record or duplicate marker per
  account reference, the instruction trailer, and the SIMD-0449 array of record addresses.  A
  \<open>Vec\<close> is an unbounded list here; statements that read the buffer back assume it is a slice.
  Shown: when the serializer succeeds and which error it returns otherwise, the exact bytes, that
  every record starts on an 8-byte boundary, and where the address array points.
\<close>

definition MM_INPUT_START :: u64 where "MM_INPUT_START = 0x400000000"
definition NON_DUP_MARKER :: u8 where "NON_DUP_MARKER = 0xFF"
definition MAX_PERMITTED_DATA_INCREASE :: nat where "MAX_PERMITTED_DATA_INCREASE = 10240"
definition BPF_ALIGN_OF_U128 :: nat where "BPF_ALIGN_OF_U128 = 8"

definition align_offset_to_bpf_u128 :: "nat \<Rightarrow> nat" where
  "align_offset_to_bpf_u128 data_len =
     (let rem = data_len mod BPF_ALIGN_OF_U128 in if rem = 0 then 0 else BPF_ALIGN_OF_U128 - rem)"

definition flag_byte :: "bool \<Rightarrow> u8" where
  "flag_byte b = (if b then 1 else 0)"

text \<open>The pushes of a first occurrence; the flags are the OR over all references to the key.\<close>

definition write_record :: "account_meta list \<Rightarrow> account_meta \<Rightarrow> account \<Rightarrow> bytes" where
  "write_record metas meta acc =
     (let refs = filter (\<lambda>m. meta_key m = meta_key meta) metas in
      [NON_DUP_MARKER, flag_byte (list_ex is_signer refs), flag_byte (list_ex is_writable refs),
       flag_byte (executable acc)] @ replicate 4 0
      @ key_bytes (meta_key meta) @ key_bytes (owner acc) @ le64 (lamports acc)
      @ le64 (word_of_nat (length (data acc))) @ data acc
      @ replicate (align_offset_to_bpf_u128 (length (data acc)) + MAX_PERMITTED_DATA_INCREASE) 0
      @ le64 (- 1))"

definition ser_step :: "account_meta list \<Rightarrow> nat option list \<Rightarrow> accounts \<Rightarrow> bytes \<times> u64 list
    \<Rightarrow> nat \<times> account_meta \<Rightarrow> (serialize_error, bytes \<times> u64 list) res" where
  "ser_step metas seen accs st im = (case (st, im) of ((b, records), (i, meta)) \<Rightarrow>
     (case seen ! i of
        Some j \<Rightarrow>
          (if j < length records
           then Ok (b @ word_of_nat j # replicate 7 0, records @ [records ! j])
           else Panic)
      | None \<Rightarrow>
          bind_res (ok_or (MissingAccount (meta_key meta)) (find_account (meta_key meta) accs))
            (\<lambda>acc. Ok (b @ write_record metas meta acc, records @ [word_of_nat (length b)]))))"

definition serialize_parameters :: "instruction \<Rightarrow> accounts \<Rightarrow> pubkey \<Rightarrow> (serialize_error, bytes) res" where
  "serialize_parameters ix accs pid =
     (let n = length (ix_accounts ix) in
      if n > 255 then Err (TooManyAccounts n)
      else bind_res
        (foldM (ser_step (ix_accounts ix) (dup_map (ix_accounts ix)) accs) (le64 (word_of_nat n), [])
          (List.enumerate 0 (ix_accounts ix)))
        (\<lambda>(b, records).
          let b = b @ le64 (word_of_nat (length (ix_data ix))) @ ix_data ix @ key_bytes pid;
              b = b @ replicate (align_offset_to_bpf_u128 (length b)) 0
          in Ok (b @ concat (map (\<lambda>r. le64 (MM_INPUT_START + r)) records))))"

subsection \<open>Alignment padding\<close>

text \<open>The serializer and the deserializer compute the padding differently; both are instances.\<close>

locale align_pad =
  fixes pad :: "nat \<Rightarrow> nat"
  assumes pad_less: "pad n < 8" and pad_mod: "(n + pad n) mod 8 = 0"
begin

lemma pad_eq: "pad n = (8 - n mod 8) mod 8"
proof -
  have "(n mod 8 + pad n) mod 8 = 0" using pad_mod [of n] by (simp add: mod_add_left_eq)
  then obtain k where k: "n mod 8 + pad n = 8 * k" by (auto simp: mod_eq_0_iff_dvd)
  have "n mod 8 < 8" by simp
  with k pad_less [of n] have "k < 2" by linarith
  then consider "k = 0" | "k = 1" by linarith
  then show ?thesis
  proof cases
    case 1
    then show ?thesis using k by simp
  next
    case 2
    then have "n mod 8 \<noteq> 0" "pad n = 8 - n mod 8" using k pad_less [of n] by linarith+
    then show ?thesis by simp
  qed
qed

lemma pad_dvd: "8 dvd n + pad n"
  using pad_mod by (simp add: mod_eq_0_iff_dvd)

end

interpretation ser_pad: align_pad align_offset_to_bpf_u128
proof
  fix n
  have e: "align_offset_to_bpf_u128 n = (if n mod 8 = 0 then 0 else 8 - n mod 8)"
    by (simp add: align_offset_to_bpf_u128_def BPF_ALIGN_OF_U128_def)
  then show "align_offset_to_bpf_u128 n < 8" by simp
  have "n + (8 - n mod 8) = n div 8 * 8 + 8" using div_mult_mod_eq [of n 8] mod_less_divisor [of 8 n] by linarith
  then show "(n + align_offset_to_bpf_u128 n) mod 8 = 0" by (simp add: e)
qed

subsection \<open>What the loop writes\<close>

definition slot_bytes :: "accounts \<Rightarrow> account_meta list \<Rightarrow> nat \<Rightarrow> bytes" where
  "slot_bytes accs ms i = (case dup_map ms ! i of
      Some j \<Rightarrow> word_of_nat j # replicate 7 0
    | None \<Rightarrow> write_record ms (ms ! i) (the (find_account (meta_key (ms ! i)) accs)))"

definition slots :: "accounts \<Rightarrow> account_meta list \<Rightarrow> nat \<Rightarrow> bytes" where
  "slots accs ms i = concat (map (slot_bytes accs ms) [0..<i])"

definition record_offset :: "accounts \<Rightarrow> account_meta list \<Rightarrow> nat \<Rightarrow> nat" where
  "record_offset accs ms i = 8 + length (slots accs ms (dm.origin ms i))"

lemma length_write_record [len_simps]:
  "length (write_record ms m a) =
     96 + (length (data a) + align_offset_to_bpf_u128 (length (data a))) + MAX_PERMITTED_DATA_INCREASE"
  by (simp add: write_record_def Let_def)

lemma slot_aligned: "8 dvd length (slot_bytes accs ms i)"
proof (cases "dup_map ms ! i")
  case None
  then have "length (slot_bytes accs ms i) = (let d = data (the (find_account (meta_key (ms ! i)) accs))
      in (length d + align_offset_to_bpf_u128 (length d)) + 8 * 1292)"
    by (simp add: slot_bytes_def len_simps Let_def MAX_PERMITTED_DATA_INCREASE_def)
  then show ?thesis using ser_pad.pad_dvd by (simp add: Let_def)
next
  case (Some j)
  then show ?thesis by (simp add: slot_bytes_def)
qed

lemma slots_Suc [simp]: "slots accs ms (Suc i) = slots accs ms i @ slot_bytes accs ms i"
  by (simp add: slots_def)

lemma slots_0 [simp]: "slots accs ms 0 = []"
  by (simp add: slots_def)

lemma slots_aligned: "8 dvd length (slots accs ms i)"
  by (induction i) (simp_all add: slot_aligned)

lemma record_offset_aligned: "8 dvd record_offset accs ms i"
  by (simp add: record_offset_def slots_aligned)

definition ser_state :: "accounts \<Rightarrow> account_meta list \<Rightarrow> nat \<Rightarrow> bytes \<times> u64 list" where
  "ser_state accs ms i = (le64 (word_of_nat (length ms)) @ slots accs ms i,
     map (\<lambda>k. word_of_nat (record_offset accs ms k)) [0..<i])"

lemma ser_step_eq:
  assumes "i < length ms" "find_account (meta_key (ms ! i)) accs \<noteq> None"
  shows "ser_step ms (dup_map ms) accs (ser_state accs ms i) (i, ms ! i) = Ok (ser_state accs ms (Suc i))"
proof (cases "dup_map ms ! i")
  case None
  then have "dm.origin ms i = i" by (simp add: dm.origin_def)
  with None assms(2) show ?thesis
    by (auto simp: ser_step_def ser_state_def slot_bytes_def record_offset_def)
next
  case (Some j)
  then have "j < i" "dm.origin ms i = j" "dm.origin ms j = j"
    using dm.dup_before dm.dup_first assms(1) by (auto simp: dm.origin_def)
  with Some show ?thesis
    by (simp add: ser_step_def ser_state_def slot_bytes_def record_offset_def)
qed

interpretation ser_loop: reference_loop "\<lambda>accs ms. ser_step ms (dup_map ms) accs" ser_state
  by unfold_locales (simp_all add: ser_step_eq, simp add: ser_step_def ser_state_def)

subsection \<open>The serialized buffer\<close>

definition pointer_array :: "accounts \<Rightarrow> account_meta list \<Rightarrow> bytes" where
  "pointer_array accs ms =
     concat (map (\<lambda>i. le64 (MM_INPUT_START + word_of_nat (record_offset accs ms i))) [0..<length ms])"

definition input_body :: "accounts \<Rightarrow> instruction \<Rightarrow> pubkey \<Rightarrow> bytes" where
  "input_body accs ix pid =
     le64 (word_of_nat (length (ix_accounts ix))) @ slots accs (ix_accounts ix) (length (ix_accounts ix))
     @ le64 (word_of_nat (length (ix_data ix))) @ ix_data ix @ key_bytes pid"

definition input_image :: "accounts \<Rightarrow> instruction \<Rightarrow> pubkey \<Rightarrow> bytes" where
  "input_image accs ix pid = input_body accs ix pid
     @ replicate (align_offset_to_bpf_u128 (length (input_body accs ix pid))) 0
     @ pointer_array accs (ix_accounts ix)"

lemma serialize_parameters_eq:
  "serialize_parameters ix accs pid =
     (if length (ix_accounts ix) > 255 then Err (TooManyAccounts (length (ix_accounts ix)))
      else if list_all (\<lambda>m. find_account (meta_key m) accs \<noteq> None) (ix_accounts ix)
      then Ok (input_image accs ix pid)
      else Err (MissingAccount (meta_key
             (hd (filter (\<lambda>m. find_account (meta_key m) accs = None) (ix_accounts ix))))))"
proof -
  let ?ms = "ix_accounts ix"
  have init: "(le64 (word_of_nat (length ?ms)), []) = ser_state accs ?ms 0" by (simp add: ser_state_def)
  show ?thesis
  proof (cases "list_all (\<lambda>m. find_account (meta_key m) accs \<noteq> None) ?ms")
    case True
    then show ?thesis
      using ser_loop.loop_complete [of ?ms accs]
      unfolding serialize_parameters_def Let_def init
      by (simp add: list_all_iff ser_state_def input_image_def input_body_def pointer_array_def comp_def)
  next
    case False
    then show ?thesis
      using ser_loop.loop_missing [of ?ms accs]
      unfolding serialize_parameters_def Let_def init
      by (auto simp: list_all_iff)
  qed
qed

lemma chunk_nth:
  assumes "\<And>i. length (f i) = k" "i < n"
  shows "take k (drop (k * i) (concat (map f [0..<n]))) = f i"
proof -
  have len: "length (concat (map f [a..<b])) = k * (b - a)" for a b
    by (induction "b - a" arbitrary: a) (auto simp: assms(1) length_concat comp_def sum_list_triv mult.commute)
  have "[0..<n] = [0..<i] @ i # [Suc i..<n]"
    using assms(2) by (metis less_imp_le_nat upt_add_eq_append upt_conv_Cons le_add_diff_inverse zero_le)
  then have "concat (map f [0..<n]) = concat (map f [0..<i]) @ f i @ concat (map f [Suc i..<n])" by simp
  then show ?thesis using len [of 0 i] assms(1) [of i] by simp
qed

lemma length_pointer_array [len_simps]: "length (pointer_array accs ms) = 8 * length ms"
  by (simp add: pointer_array_def length_concat comp_def sum_list_triv)

lemma slots_split:
  "k < n \<Longrightarrow> slots accs ms n = slots accs ms k @ slot_bytes accs ms k
      @ concat (map (slot_bytes accs ms) [Suc k..<n])"
proof -
  assume "k < n"
  then have "[0..<n] = [0..<k] @ k # [Suc k..<n]"
    by (metis less_imp_le_nat upt_add_eq_append upt_conv_Cons le_add_diff_inverse zero_le)
  then show ?thesis by (simp add: slots_def)
qed

lemma input_image_at_record:
  assumes "i < length (ix_accounts ix)"
  shows "\<exists>ys. drop (record_offset accs (ix_accounts ix) i) (input_image accs ix pid)
      = slot_bytes accs (ix_accounts ix) (dm.origin (ix_accounts ix) i) @ ys"
proof -
  let ?ms = "ix_accounts ix"
  have "dm.origin ?ms i < length ?ms" using dm.origin_props(2) [OF assms] .
  note split = slots_split [OF this, of accs ?ms]
  show ?thesis
    unfolding input_image_def input_body_def record_offset_def split by simp
qed

lemma slot_origin:
  assumes "i < length ms"
  shows "slot_bytes accs ms (dm.origin ms i)
      = write_record ms (ms ! dm.origin ms i) (the (find_account (meta_key (ms ! i)) accs))"
  using dm.origin_props(3,4) [OF assms] by (simp add: slot_bytes_def)

lemma record_head:
  "write_record ms m a @ ys = NON_DUP_MARKER # tl (write_record ms m a @ ys)"
  "take 32 (drop 8 (write_record ms m a @ ys)) = key_bytes (meta_key m)"
  by (simp_all add: write_record_def Let_def)

lemma record_offset_eq_iff:
  assumes "i < length ms" "j < length ms"
  shows "record_offset accs ms i = record_offset accs ms j \<longleftrightarrow> meta_key (ms ! i) = meta_key (ms ! j)"
proof -
  have mono: "length (slots accs ms a) < length (slots accs ms b)" if "a < b" for a b
  proof -
    have "0 < length (slot_bytes accs ms a)"
      by (auto simp: slot_bytes_def write_record_def Let_def split: option.splits)
    then show ?thesis using slots_split [OF that, of accs ms] by simp
  qed
  then have "length (slots accs ms a) = length (slots accs ms b) \<longleftrightarrow> a = b" for a b
    by (metis less_irrefl linorder_neqE_nat)
  then show ?thesis by (simp add: record_offset_def dm.origin_eq_iff [OF assms])
qed

text \<open>The address the \<open>i\<close>-th entry of the trailing array holds.\<close>

definition record_pointer :: "bytes \<Rightarrow> nat \<Rightarrow> nat \<Rightarrow> u64" where
  "record_pointer b n i = u64_of_le (take 8 (drop (length b - 8 * n + 8 * i) b))"

lemma record_pointer_eq:
  assumes "i < length (ix_accounts ix)"
  shows "record_pointer (input_image accs ix pid) (length (ix_accounts ix)) i
      = MM_INPUT_START + word_of_nat (record_offset accs (ix_accounts ix) i)"
proof -
  let ?ms = "ix_accounts ix"
  let ?pre = "input_body accs ix pid @ replicate (align_offset_to_bpf_u128 (length (input_body accs ix pid))) 0"
  have img: "input_image accs ix pid = ?pre @ pointer_array accs ?ms" by (simp add: input_image_def)
  have "length (input_image accs ix pid) - 8 * length ?ms + 8 * i = length ?pre + 8 * i"
    unfolding img by (simp add: len_simps)
  then have "take 8 (drop (length (input_image accs ix pid) - 8 * length ?ms + 8 * i) (input_image accs ix pid))
      = take 8 (drop (8 * i) (pointer_array accs ?ms))"
    unfolding img by simp
  also have "\<dots> = le64 (MM_INPUT_START + word_of_nat (record_offset accs ?ms i))"
    unfolding pointer_array_def using assms by (intro chunk_nth) simp_all
  finally show ?thesis by (simp add: record_pointer_def)
qed

lemma pointer_array_facts:
  assumes "serialize_parameters ix accs pid = Ok b" "is_slice b"
    and "i < length (ix_accounts ix)" "j < length (ix_accounts ix)"
  defines "ptr \<equiv> record_pointer b (length (ix_accounts ix))"
  defines "off \<equiv> unat (ptr i - MM_INPUT_START)"
  shows "8 dvd off" "off + 40 \<le> length b" "b ! off = NON_DUP_MARKER"
    and "key_of_bytes (take 32 (drop (off + 8) b)) = meta_key (ix_accounts ix ! i)"
    and "ptr i = ptr j \<longleftrightarrow> meta_key (ix_accounts ix ! i) = meta_key (ix_accounts ix ! j)"
proof -
  let ?ms = "ix_accounts ix"
  let ?off = "record_offset accs ?ms"
  have b: "b = input_image accs ix pid"
    using assms(1) by (auto simp: serialize_parameters_eq split: if_splits)
  have at: "\<exists>ys a. drop (?off k) b = write_record ?ms (?ms ! dm.origin ?ms k) a @ ys"
    if "k < length ?ms" for k
    using input_image_at_record [OF that] slot_origin [OF that] unfolding b by metis
  have len: "?off k + 40 \<le> length b" if k: "k < length ?ms" for k
  proof -
    obtain ys a where "drop (?off k) b = write_record ?ms (?ms ! dm.origin ?ms k) a @ ys"
      using at [OF k] by blast
    then have "96 \<le> length (drop (?off k) b)" by (simp add: len_simps)
    then show ?thesis by simp
  qed
  have small: "unat (word_of_nat (?off k) :: u64) = ?off k" if "k < length ?ms" for k
    using len [OF that] assms(2) by (simp add: is_slice_def unat_of_nat)
  have ptr: "ptr k = MM_INPUT_START + word_of_nat (?off k)" if "k < length ?ms" for k
    using record_pointer_eq [OF that] by (simp add: ptr_def b)
  then have off: "off = ?off i" using small [OF assms(3)] ptr [OF assms(3)] by (simp add: off_def)
  show "8 dvd off" by (simp add: off record_offset_aligned)
  show "off + 40 \<le> length b" using len [OF assms(3)] by (simp add: off)
  obtain ys a where d: "drop off b = write_record ?ms (?ms ! dm.origin ?ms i) a @ ys"
    using at [OF assms(3)] off by auto
  have "b ! off = drop off b ! 0" using len [OF assms(3)] off by simp
  then show "b ! off = NON_DUP_MARKER" unfolding d using record_head(1) by (metis nth_Cons_0)
  have "drop (off + 8) b = drop 8 (drop off b)" by (simp add: add.commute)
  then show "key_of_bytes (take 32 (drop (off + 8) b)) = meta_key (?ms ! i)"
    unfolding d using record_head(2) dm.origin_props(4) [OF assms(3)] by simp
  show "ptr i = ptr j \<longleftrightarrow> meta_key (?ms ! i) = meta_key (?ms ! j)"
    using ptr [OF assms(3)] ptr [OF assms(4)] small [OF assms(3)] small [OF assms(4)]
      record_offset_eq_iff [OF assms(3,4), of accs]
    by (metis add_left_cancel)
qed

subsection \<open>Properties\<close>

text \<open>C27: \<open>serialize_parameters\<close> fails exactly when there are more than 255 references
  (\<open>TooManyAccounts\<close>) or when a referenced key has no supplied account (\<open>MissingAccount\<close> of the
  first such key); otherwise it returns the ABI image and never panics on the duplicate index.\<close>

theorem serialize_parameters_outcome:
  "serialize_parameters ix accs pid =
     (if length (ix_accounts ix) > 255 then Err (TooManyAccounts (length (ix_accounts ix)))
      else if list_all (\<lambda>m. find_account (meta_key m) accs \<noteq> None) (ix_accounts ix)
      then Ok (input_image accs ix pid)
      else Err (MissingAccount (meta_key
             (hd (filter (\<lambda>m. find_account (meta_key m) accs = None) (ix_accounts ix))))))"
  by (rule serialize_parameters_eq)

text \<open>C11: The SIMD-0449 address array of a serialized buffer: the \<open>i\<close>-th address is 8-byte
  aligned, lies in the input region, points at a non-duplicate record that carries the \<open>i\<close>-th
  reference's key, and two references share an address exactly when they share a key.\<close>

theorem pointer_array_correct:
  assumes "serialize_parameters ix accs pid = Ok b" "is_slice b"
    and "i < length (ix_accounts ix)" "j < length (ix_accounts ix)"
  shows "let ms = ix_accounts ix; ptr = record_pointer b (length ms); off = unat (ptr i - MM_INPUT_START)
    in 8 dvd off \<and> off + 40 \<le> length b \<and> b ! off = NON_DUP_MARKER
       \<and> key_of_bytes (take 32 (drop (off + 8) b)) = meta_key (ms ! i)
       \<and> (ptr i = ptr j \<longleftrightarrow> meta_key (ms ! i) = meta_key (ms ! j))"
  unfolding Let_def using pointer_array_facts [OF assms] by blast

definition sample_accounts :: accounts where
  "sample_accounts = [(3, account_of 50 [1, 2] 9 False 0), (4, account_of 60 [] 9 False 0)]"

definition sample_ix :: instruction where
  "sample_ix = \<lparr>program_id = 9, ix_accounts =
     [\<lparr>meta_key = 3, is_signer = True, is_writable = False\<rparr>,
      \<lparr>meta_key = 4, is_signer = False, is_writable = False\<rparr>,
      \<lparr>meta_key = 3, is_signer = False, is_writable = True\<rparr>], ix_data = [7, 7]\<rparr>"

lemma sample_dups: "dup_map (ix_accounts sample_ix) = [None, None, Some 0]"
  by (simp add: sample_ix_def dup_map_def)

lemma sample_serializes:
  "serialize_parameters sample_ix sample_accounts 9 = Ok (input_image sample_accounts sample_ix 9)"
  by (simp add: serialize_parameters_eq sample_ix_def sample_accounts_def find_account_def)

lemma sample_image_length: "length (input_image sample_accounts sample_ix 9) \<le> 40000"
proof -
  let ?ms = "ix_accounts sample_ix"
  have n: "length ?ms = 3" by (simp add: sample_ix_def)
  have "length (slots sample_accounts ?ms 3) \<le> 30000"
    by (simp add: numeral_3_eq_3 slot_bytes_def sample_dups len_simps)
      (simp add: sample_ix_def sample_accounts_def find_account_def account_of_def
        align_offset_to_bpf_u128_def BPF_ALIGN_OF_U128_def MAX_PERMITTED_DATA_INCREASE_def)
  moreover have "length (ix_data sample_ix) = 2" by (simp add: sample_ix_def)
  ultimately have "length (input_body sample_accounts sample_ix 9) \<le> 30100"
    using n by (simp add: input_body_def)
  moreover have "align_offset_to_bpf_u128 (length (input_body sample_accounts sample_ix 9)) < 8"
    by (rule ser_pad.pad_less)
  moreover have "length (pointer_array sample_accounts ?ms) = 24" by (simp add: len_simps n)
  ultimately show ?thesis by (simp add: input_image_def)
qed

lemma sample_is_slice: "is_slice (input_image sample_accounts sample_ix 9)"
  using sample_image_length by (simp add: is_slice_def)

theorem pointer_array_correct_witness:
  "\<exists>b. serialize_parameters sample_ix sample_accounts 9 = Ok b
     \<and> 8 dvd unat (record_pointer b 3 2 - MM_INPUT_START)
     \<and> record_pointer b 3 2 = record_pointer b 3 0 \<and> record_pointer b 3 2 \<noteq> record_pointer b 3 1"
proof (intro exI conjI)
  let ?b = "input_image sample_accounts sample_ix 9"
  show s: "serialize_parameters sample_ix sample_accounts 9 = Ok ?b" by (rule sample_serializes)
  have n: "length (ix_accounts sample_ix) = 3" by (simp add: sample_ix_def)
  note p = pointer_array_correct [OF s sample_is_slice, unfolded n Let_def, of 2]
  show "8 dvd unat (record_pointer ?b 3 2 - MM_INPUT_START)" using p [of 0] by simp
  show "record_pointer ?b 3 2 = record_pointer ?b 3 0" using p [of 0] by (simp add: sample_ix_def)
  show "record_pointer ?b 3 2 \<noteq> record_pointer ?b 3 1" using p [of 1] by (simp add: sample_ix_def)
qed

end
