(* ===== verification/Deserialize.thy ===== *)
theory Deserialize
  imports Serialize
begin

text \<open>
  Reading a program's writes back out of the input buffer:
  \<open>qedsvm-rs/src/deserialize.rs\<close> (\<open>read_account_writes\<close>, \<open>parse_non_dup_record\<close>,
  \<open>deserialize_account_writes\<close>).  Shown: on every buffer with the record layout of the pre-state,
  whatever the program wrote in it, the reader returns exactly the written fields; on every buffer
  at all the result keeps keys, executable flags, rent epochs and the growth limit; the serializer's
  output reads back as the accounts it was made from; and the one length field that can make the
  reader panic.
\<close>

datatype deserialize_error =
    Truncated
  | AccountCountMismatch nat nat
  | MissingFirstOccurrence nat
  | DataLengthOverflow nat
  | UnknownPubkeyInInstruction pubkey

definition trunc :: "(unit, 'a) res \<Rightarrow> (deserialize_error, 'a) res" where
  "trunc m = map_err (\<lambda>_. Truncated) m"

lemma trunc_simps [simp, res_simps]:
  "trunc (Ok x) = Ok x" "trunc (Err e) = Err Truncated" "trunc Panic = Panic"
  by (simp_all add: trunc_def)

text \<open>The data area of a record: the pre-state length, the permitted growth and the alignment.\<close>

definition data_room :: "account \<Rightarrow> nat" where
  "data_room pre = length (data pre) + MAX_PERMITTED_DATA_INCREASE"

definition pre_align_pad :: "nat \<Rightarrow> nat" where
  "pre_align_pad pre_data_len = (8 - pre_data_len mod 8) mod 8"

definition parse_non_dup_record ::
  "pubkey \<Rightarrow> accounts \<Rightarrow> cursor \<Rightarrow> (deserialize_error, (account \<times> u64) \<times> cursor) res" where
  "parse_non_dup_record key pre_accounts r =
     bind_res (trunc (skip (7 + 32) r)) (\<lambda>r.
     bind_res (trunc (read_into 32 r)) (\<lambda>(owner_bytes, r).
     bind_res (trunc (read_u64 r)) (\<lambda>(lam, r).
     bind_res (trunc (read_u64 r)) (\<lambda>(raw_len, r).
     bind_res (ok_or (UnknownPubkeyInInstruction key) (find_account key pre_accounts)) (\<lambda>pre.
     let data_len = min (unat raw_len) (data_room pre) in
     bind_res (trunc (take_bytes data_len r)) (\<lambda>(d, r).
     bind_res (trunc (skip (data_room pre + pre_align_pad (length (data pre)) - data_len) r)) (\<lambda>r.
     bind_res (trunc (skip 8 r)) (\<lambda>r.
     Ok ((account_of lam d (key_of_bytes owner_bytes) (executable pre) (rent_epoch pre), raw_len), r)))))))))"

text \<open>The loop visits \<open>by_first_occurrence\<close>'s slots in order, so filling is appending.\<close>

definition read_step :: "account_meta list \<Rightarrow> nat option list \<Rightarrow> accounts
    \<Rightarrow> cursor \<times> (account \<times> u64) option list \<Rightarrow> nat
    \<Rightarrow> (deserialize_error, cursor \<times> (account \<times> u64) option list) res" where
  "read_step metas dup_of pre_accounts st i = (case st of (r, by_first) \<Rightarrow>
     if dup_of ! i \<noteq> None
     then bind_res (trunc (skip 8 r)) (\<lambda>r. Ok (r, by_first @ [None]))
     else bind_res (trunc (skip 1 r)) (\<lambda>r.
          bind_res (parse_non_dup_record (meta_key (metas ! i)) pre_accounts r) (\<lambda>(u, r).
          Ok (r, by_first @ [Some u]))))"

definition collect_step :: "nat option list \<Rightarrow> (account \<times> u64) option list
    \<Rightarrow> accounts \<times> u64 list \<Rightarrow> nat \<times> account_meta
    \<Rightarrow> (deserialize_error, accounts \<times> u64 list) res" where
  "collect_step dup_of by_first st im = (case (st, im) of ((result, raw_lens), (i, meta)) \<Rightarrow>
     (let first = (case dup_of ! i of Some j \<Rightarrow> j | None \<Rightarrow> i) in
      if first < length by_first
      then bind_res (ok_or (MissingFirstOccurrence first) (by_first ! first)) (\<lambda>(updated, raw_len).
             Ok (result @ [(meta_key meta, updated)], raw_lens @ [raw_len]))
      else Panic))"

definition read_account_writes ::
  "bytes \<Rightarrow> instruction \<Rightarrow> accounts \<Rightarrow> (deserialize_error, accounts \<times> u64 list) res" where
  "read_account_writes buffer ix pre_accounts =
     (let metas = ix_accounts ix; dup_of = dup_map metas in
      bind_res (trunc (read_u64 (new_cursor buffer))) (\<lambda>(num, r).
      if unat num \<noteq> length metas then Err (AccountCountMismatch (length metas) (unat num))
      else
        bind_res (foldM (read_step metas dup_of pre_accounts) (r, []) [0..<length metas]) (\<lambda>(r, by_first).
        bind_res (trunc (read_u64 r)) (\<lambda>(ix_data_len, r).
        bind_res (trunc (skip (unat ix_data_len) r)) (\<lambda>r.
        bind_res (trunc (skip 32 r)) (\<lambda>r.
        foldM (collect_step dup_of by_first) ([], []) (List.enumerate 0 metas)))))))"

fun check_raw_lens :: "accounts \<Rightarrow> u64 list \<Rightarrow> (deserialize_error, unit) res" where
  "check_raw_lens ((_, a) # accs) (raw # raws) =
     (if raw \<noteq> word_of_nat (length (data a)) then Err (DataLengthOverflow (unat raw))
      else check_raw_lens accs raws)"
| "check_raw_lens _ _ = Ok ()"

definition deserialize_account_writes ::
  "bytes \<Rightarrow> instruction \<Rightarrow> accounts \<Rightarrow> (deserialize_error, accounts) res" where
  "deserialize_account_writes buffer ix pre_accounts =
     bind_res (read_account_writes buffer ix pre_accounts) (\<lambda>(accs, raw_lens).
     bind_res (check_raw_lens accs raw_lens) (\<lambda>_. Ok accs))"

interpretation de_pad: align_pad pre_align_pad
proof
  fix n
  show "pre_align_pad n < 8" by (simp add: pre_align_pad_def)
  have "n + (8 - n mod 8) = 8 * (n div 8 + 1)"
    using div_mult_mod_eq [of n 8] mod_less_divisor [of 8 n, OF zero_less_numeral] by arith
  then have "(n + (8 - n mod 8)) mod 8 = 0" by simp
  then show "(n + pre_align_pad n) mod 8 = 0" by (simp add: pre_align_pad_def mod_add_right_eq)
qed

lemma pads_agree: "pre_align_pad n = align_offset_to_bpf_u128 n"
  by (simp only: de_pad.pad_eq ser_pad.pad_eq)

subsection \<open>Buffers with the record layout of the pre-state\<close>

text \<open>A record after execution: the program may have changed any byte of it.\<close>

record record_image =
  ri_head :: bytes
  ri_owner :: pubkey
  ri_lamports :: u64
  ri_raw_len :: u64
  ri_area :: bytes
  ri_epoch :: bytes

definition image_bytes :: "record_image \<Rightarrow> bytes" where
  "image_bytes x = ri_head x @ key_bytes (ri_owner x) @ le64 (ri_lamports x) @ le64 (ri_raw_len x)
     @ ri_area x @ ri_epoch x"

definition image_fits :: "account \<Rightarrow> record_image \<Rightarrow> bool" where
  "image_fits pre x \<longleftrightarrow> length (ri_head x) = 40
     \<and> length (ri_area x) = data_room pre + pre_align_pad (length (data pre)) \<and> length (ri_epoch x) = 8"

definition written_account :: "account \<Rightarrow> record_image \<Rightarrow> account" where
  "written_account pre x = account_of (ri_lamports x) (take (min (unat (ri_raw_len x)) (data_room pre)) (ri_area x))
     (ri_owner x) (executable pre) (rent_epoch pre)"

lemma parse_record_at:
  assumes fits: "image_fits pre x" and pre: "find_account key pre_accounts = Some pre"
    and slice: "is_slice (p @ image_bytes x @ ys)"
  shows "bind_res (trunc (skip 1 (at p (image_bytes x @ ys)))) (parse_non_dup_record key pre_accounts)
    = Ok ((written_account pre x, ri_raw_len x), at (p @ image_bytes x) ys)"
proof -
  obtain b h where h: "ri_head x = b # h" "length h = 7 + 32"
    using fits by (cases "ri_head x") (auto simp: image_fits_def)
  define n where "n = min (unat (ri_raw_len x)) (data_room pre)"
  define d1 d2 where "d1 = take n (ri_area x)" and "d2 = drop n (ri_area x)"
  have n: "n \<le> length (ri_area x)" using fits by (simp add: image_fits_def n_def)
  have d: "ri_area x = d1 @ d2" "length d1 = n"
    "length d2 = data_room pre + pre_align_pad (length (data pre)) - n"
    using fits n by (simp_all add: d1_def d2_def image_fits_def)
  have e: "length (ri_epoch x) = 8" using fits by (simp add: image_fits_def)
  have img: "image_bytes x @ ys = [b] @ h @ key_bytes (ri_owner x) @ le64 (ri_lamports x)
      @ le64 (ri_raw_len x) @ d1 @ d2 @ ri_epoch x @ ys"
    by (simp add: image_bytes_def h d)
  have sl: "is_slice (p @ [b] @ h @ key_bytes (ri_owner x) @ le64 (ri_lamports x)
      @ le64 (ri_raw_len x) @ d1 @ d2 @ ri_epoch x @ ys)"
    using slice by (simp add: img)
  have w: "written_account pre x = account_of (ri_lamports x) d1 (ri_owner x) (executable pre) (rent_epoch pre)"
    by (simp add: written_account_def d1_def n_def)
  have fin: "at (p @ image_bytes x) ys = at ((((((((p @ [b]) @ h) @ key_bytes (ri_owner x)) @ le64 (ri_lamports x))
      @ le64 (ri_raw_len x)) @ d1) @ d2) @ ri_epoch x) ys"
    by (simp add: image_bytes_def h d)
  show ?thesis
    unfolding img w fin parse_non_dup_record_def read_into_def Let_def
    using sl h(2) d(2,3) e pre by (simp add: wire_simps n_def [symmetric])
qed

definition image_slot :: "account_meta list \<Rightarrow> (nat \<Rightarrow> record_image) \<Rightarrow> (nat \<Rightarrow> bytes) \<Rightarrow> nat \<Rightarrow> bytes" where
  "image_slot ms img dupb i = (if dup_map ms ! i = None then image_bytes (img i) else dupb i)"

definition image_slots :: "account_meta list \<Rightarrow> (nat \<Rightarrow> record_image) \<Rightarrow> (nat \<Rightarrow> bytes) \<Rightarrow> bytes" where
  "image_slots ms img dupb = concat (map (image_slot ms img dupb) [0..<length ms])"

definition slot_ok :: "account_meta list \<Rightarrow> accounts \<Rightarrow> (nat \<Rightarrow> record_image) \<Rightarrow> (nat \<Rightarrow> bytes) \<Rightarrow> nat \<Rightarrow> bool" where
  "slot_ok ms pre img dupb i =
     (if dup_map ms ! i = None
      then (case find_account (meta_key (ms ! i)) pre of None \<Rightarrow> False | Some a \<Rightarrow> image_fits a (img i))
      else length (dupb i) = 8)"

definition layout_ok :: "account_meta list \<Rightarrow> accounts \<Rightarrow> (nat \<Rightarrow> record_image) \<Rightarrow> (nat \<Rightarrow> bytes) \<Rightarrow> bool" where
  "layout_ok ms pre img dupb \<longleftrightarrow> list_all (slot_ok ms pre img dupb) [0..<length ms]"

definition post_buffer :: "account_meta list \<Rightarrow> (nat \<Rightarrow> record_image) \<Rightarrow> (nat \<Rightarrow> bytes) \<Rightarrow> bytes \<Rightarrow> bytes" where
  "post_buffer ms img dupb rest = le64 (word_of_nat (length ms)) @ image_slots ms img dupb @ rest"

definition written :: "account_meta list \<Rightarrow> accounts \<Rightarrow> (nat \<Rightarrow> record_image) \<Rightarrow> nat \<Rightarrow> account \<times> u64" where
  "written ms pre img i =
     (written_account (the (find_account (meta_key (ms ! i)) pre)) (img i), ri_raw_len (img i))"

definition first_writes :: "account_meta list \<Rightarrow> accounts \<Rightarrow> (nat \<Rightarrow> record_image) \<Rightarrow> nat \<Rightarrow> (account \<times> u64) option list" where
  "first_writes ms pre img n =
     map (\<lambda>i. if dup_map ms ! i = None then Some (written ms pre img i) else None) [0..<n]"

lemma read_step_at:
  assumes "slot_ok ms pre img dupb i" "is_slice (p @ image_slot ms img dupb i @ ys)"
  shows "read_step ms (dup_map ms) pre (at p (image_slot ms img dupb i @ ys), first_writes ms pre img i) i
    = Ok (at (p @ image_slot ms img dupb i) ys, first_writes ms pre img (Suc i))"
proof (cases "dup_map ms ! i")
  case None
  then obtain a where a: "find_account (meta_key (ms ! i)) pre = Some a" "image_fits a (img i)"
    using assms(1) by (auto simp: slot_ok_def split: option.splits)
  have sl: "image_slot ms img dupb i = image_bytes (img i)" using None by (simp add: image_slot_def)
  have parse: "bind_res (trunc (skip (Suc 0) (at p (image_bytes (img i) @ ys))))
      (\<lambda>r. bind_res (parse_non_dup_record (meta_key (ms ! i)) pre r) g)
    = bind_res (Ok ((written_account a (img i), ri_raw_len (img i)), at (p @ image_bytes (img i)) ys)) g" for g
    using parse_record_at [OF a(2,1)] assms(2) by (simp only: bind_res_assoc [symmetric] sl One_nat_def)
  show ?thesis unfolding sl using None a(1)
    by (simp add: read_step_def first_writes_def written_def parse)
next
  case (Some j)
  then have "image_slot ms img dupb i = dupb i" "length (dupb i) = 8"
    using assms(1) by (auto simp: image_slot_def slot_ok_def)
  then show ?thesis using Some assms(2) by (simp add: read_step_def skip_at first_writes_def)
qed

lemma read_loop_at:
  assumes "list_all (slot_ok ms pre img dupb) [0..<n]"
    and "is_slice (p @ concat (map (image_slot ms img dupb) [0..<n]) @ ys)"
  shows "foldM (read_step ms (dup_map ms) pre)
      (at p (concat (map (image_slot ms img dupb) [0..<n]) @ ys), []) [0..<n]
    = Ok (at (p @ concat (map (image_slot ms img dupb) [0..<n])) ys, first_writes ms pre img n)"
  using assms
proof (induction n arbitrary: ys)
  case 0
  then show ?case by (simp add: first_writes_def)
next
  case (Suc n)
  then show ?case
    using Suc.IH [of "image_slot ms img dupb n @ ys"]
      read_step_at [of ms pre img dupb n "p @ concat (map (image_slot ms img dupb) [0..<n])" ys]
    by (simp add: foldM_append)
qed

lemma collect_step_at:
  assumes "i < length ms"
  shows "collect_step (dup_map ms) (first_writes ms pre img (length ms)) st (i, ms ! i)
    = Ok (fst st @ [(meta_key (ms ! i), fst (written ms pre img (dm.origin ms i)))],
          snd st @ [snd (written ms pre img (dm.origin ms i))])"
proof -
  have "(case dup_map ms ! i of Some j \<Rightarrow> j | None \<Rightarrow> i) = dm.origin ms i"
    by (simp add: dm.origin_def split: option.splits)
  then show ?thesis
    using dm.origin_props(2,3) [OF assms]
    by (simp add: collect_step_def first_writes_def Let_def split: prod.splits)
qed

lemma collect_loop_at:
  assumes "n \<le> length ms"
  shows "foldM (collect_step (dup_map ms) (first_writes ms pre img (length ms))) ([], []) (take n (List.enumerate 0 ms))
    = Ok (map (\<lambda>i. (meta_key (ms ! i), fst (written ms pre img (dm.origin ms i)))) [0..<n],
          map (\<lambda>i. snd (written ms pre img (dm.origin ms i))) [0..<n])"
  using assms
proof (induction n)
  case 0
  then show ?case by simp
next
  case (Suc n)
  then have "take (Suc n) (List.enumerate 0 ms) = take n (List.enumerate 0 ms) @ [(n, ms ! n)]"
    by (simp add: take_Suc_conv_app_nth nth_enumerate_eq)
  with Suc show ?case by (simp add: foldM_append collect_step_at)
qed

text \<open>The accounts and raw lengths a program left in the buffer, one per reference.\<close>

definition program_writes :: "account_meta list \<Rightarrow> accounts \<Rightarrow> (nat \<Rightarrow> record_image) \<Rightarrow> accounts \<times> u64 list" where
  "program_writes ms pre img =
     (map (\<lambda>i. (meta_key (ms ! i), fst (written ms pre img (dm.origin ms i)))) [0..<length ms],
      map (\<lambda>i. ri_raw_len (img (dm.origin ms i))) [0..<length ms])"

lemma read_up_to_trailer:
  assumes "layout_ok (ix_accounts ix) pre img dupb" "length (ix_accounts ix) \<le> 255"
    and "is_slice (post_buffer (ix_accounts ix) img dupb rest)"
  shows "read_account_writes (post_buffer (ix_accounts ix) img dupb rest) ix pre =
    bind_res (trunc (read_u64 (at (post_buffer (ix_accounts ix) img dupb []) rest))) (\<lambda>(n, r).
    bind_res (trunc (skip (unat n) r)) (\<lambda>r.
    bind_res (trunc (skip 32 r)) (\<lambda>r. Ok (program_writes (ix_accounts ix) pre img))))"
proof -
  let ?ms = "ix_accounts ix"
  let ?n = "word_of_nat (length ?ms) :: u64"
  have n: "unat ?n = length ?ms" using assms(2) by (simp add: unat_of_nat)
  have hd: "read_u64 (at [] (le64 ?n @ image_slots ?ms img dupb @ rest))
      = Ok (?n, at (le64 ?n) (image_slots ?ms img dupb @ rest))"
    using int_reads(2) [of "[]"] assms(3) by (simp add: post_buffer_def)
  have lp: "foldM (read_step ?ms (dup_map ?ms) pre) (at (le64 ?n) (image_slots ?ms img dupb @ rest), []) [0..<length ?ms]
      = Ok (at (le64 ?n @ image_slots ?ms img dupb) rest, first_writes ?ms pre img (length ?ms))"
    using read_loop_at [of ?ms pre img dupb "length ?ms" "le64 ?n" rest] assms(1,3)
    by (simp add: layout_ok_def image_slots_def post_buffer_def)
  have col: "foldM (collect_step (dup_map ?ms) (first_writes ?ms pre img (length ?ms))) ([], []) (List.enumerate 0 ?ms)
      = Ok (program_writes ?ms pre img)"
    using collect_loop_at [of "length ?ms" ?ms pre img] by (simp add: program_writes_def written_def)
  show ?thesis
    by (simp add: read_account_writes_def new_cursor_at post_buffer_def hd lp col n Let_def)
qed

definition trailer :: "bytes \<Rightarrow> bytes \<Rightarrow> bytes" where
  "trailer ixd tail = le64 (word_of_nat (length ixd)) @ ixd @ tail"

lemma read_account_writes_image:
  assumes "layout_ok (ix_accounts ix) pre img dupb" "length (ix_accounts ix) \<le> 255"
    and "is_slice (post_buffer (ix_accounts ix) img dupb (trailer ixd tail))" "32 \<le> length tail"
  shows "read_account_writes (post_buffer (ix_accounts ix) img dupb (trailer ixd tail)) ix pre
    = Ok (program_writes (ix_accounts ix) pre img)"
proof -
  let ?p = "post_buffer (ix_accounts ix) img dupb []"
  have sl: "is_slice (?p @ le64 (word_of_nat (length ixd)) @ ixd @ take 32 tail @ drop 32 tail)"
    using assms(3) by (simp add: post_buffer_def trailer_def)
  have "length ixd < 2 ^ 64" using sl by (simp add: is_slice_def)
  then have "unat (word_of_nat (length ixd) :: u64) = length ixd" by (simp add: unat_of_nat)
  moreover have "trailer ixd tail = le64 (word_of_nat (length ixd)) @ ixd @ take 32 tail @ drop 32 tail"
    by (simp add: trailer_def)
  ultimately show ?thesis
    unfolding read_up_to_trailer [OF assms(1-3)]
    using sl assms(4) skip_at [of "take 32 tail" 32 "?p @ le64 (word_of_nat (length ixd)) @ ixd" "drop 32 tail"]
    by (simp add: wire_simps del: append_take_drop_id)
qed

subsection \<open>The serializer's output is such a buffer\<close>

definition ser_image :: "account_meta list \<Rightarrow> accounts \<Rightarrow> nat \<Rightarrow> record_image" where
  "ser_image ms accs i =
     (let m = ms ! i; a = the (find_account (meta_key m) accs);
          refs = filter (\<lambda>m'. meta_key m' = meta_key m) ms in
      \<lparr>ri_head = [NON_DUP_MARKER, flag_byte (list_ex is_signer refs), flag_byte (list_ex is_writable refs),
          flag_byte (executable a)] @ replicate 4 0 @ key_bytes (meta_key m),
       ri_owner = owner a, ri_lamports = lamports a, ri_raw_len = word_of_nat (length (data a)),
       ri_area = data a
         @ replicate (align_offset_to_bpf_u128 (length (data a)) + MAX_PERMITTED_DATA_INCREASE) 0,
       ri_epoch = le64 (- 1)\<rparr>)"

definition ser_dup :: "account_meta list \<Rightarrow> nat \<Rightarrow> bytes" where
  "ser_dup ms i = word_of_nat (the (dup_map ms ! i)) # replicate 7 0"

lemma ser_image_bytes:
  "image_bytes (ser_image ms accs i) = write_record ms (ms ! i) (the (find_account (meta_key (ms ! i)) accs))"
  by (simp add: image_bytes_def ser_image_def write_record_def Let_def)

lemma slots_as_images: "slots accs ms (length ms) = image_slots ms (ser_image ms accs) (ser_dup ms)"
proof -
  have "slot_bytes accs ms = image_slot ms (ser_image ms accs) (ser_dup ms)"
    by (auto simp: slot_bytes_def image_slot_def ser_dup_def ser_image_bytes split: option.splits)
  then show ?thesis by (simp add: slots_def image_slots_def)
qed

lemma ser_layout_ok:
  assumes "list_all (\<lambda>m. find_account (meta_key m) accs \<noteq> None) ms"
  shows "layout_ok ms accs (ser_image ms accs) (ser_dup ms)"
proof -
  have "slot_ok ms accs (ser_image ms accs) (ser_dup ms) i" if "i < length ms" for i
    using assms that
    by (auto simp: slot_ok_def list_all_length image_fits_def ser_image_def ser_dup_def Let_def
        data_room_def pads_agree split: option.splits)
  then show ?thesis by (simp add: layout_ok_def list_all_iff)
qed

lemma input_image_as_post:
  "input_image accs ix pid = post_buffer (ix_accounts ix) (ser_image (ix_accounts ix) accs) (ser_dup (ix_accounts ix))
     (trailer (ix_data ix) (key_bytes pid
        @ replicate (align_offset_to_bpf_u128 (length (input_body accs ix pid))) 0
        @ pointer_array accs (ix_accounts ix)))"
  by (simp add: input_image_def input_body_def post_buffer_def trailer_def slots_as_images)

lemma account_of_fields [simp]: "account_of (lamports a) (data a) (owner a) (executable a) (rent_epoch a) = a"
  by (simp add: account_of_def)

lemma written_ser_image:
  assumes "i < length ms" "length (data (the (find_account (meta_key (ms ! i)) accs))) < 2 ^ 64"
  shows "written ms accs (ser_image ms accs) i = (the (find_account (meta_key (ms ! i)) accs),
      word_of_nat (length (data (the (find_account (meta_key (ms ! i)) accs)))))"
  using assms
  by (simp add: written_def ser_image_def written_account_def Let_def unat_of_nat data_room_def)

lemma image_data_short:
  assumes "is_slice (input_image accs ix pid)" "i < length (ix_accounts ix)"
  shows "length (data (the (find_account (meta_key (ix_accounts ix ! i)) accs))) < 2 ^ 63"
proof -
  let ?ms = "ix_accounts ix" and ?o = "dm.origin (ix_accounts ix) i"
  have "length (slot_bytes accs ?ms ?o) \<le> length (input_image accs ix pid)"
    using input_image_at_record [OF assms(2), of accs pid]
    by (metis (no_types, lifting) diff_le_self le_add1 le_trans length_append length_drop)
  then show ?thesis
    using assms(1) slot_origin [OF assms(2), of accs] by (simp add: is_slice_def len_simps)
qed

lemma program_writes_ser_image:
  assumes "is_slice (input_image accs ix pid)"
  shows "program_writes (ix_accounts ix) accs (ser_image (ix_accounts ix) accs)
    = (canonical accs (ix_accounts ix),
       map (\<lambda>m. word_of_nat (length (data (the (find_account (meta_key m) accs))))) (ix_accounts ix))"
proof -
  let ?ms = "ix_accounts ix"
  have w: "written ?ms accs (ser_image ?ms accs) (dm.origin ?ms i)
      = (the (find_account (meta_key (?ms ! i)) accs),
         word_of_nat (length (data (the (find_account (meta_key (?ms ! i)) accs)))))"
    if i: "i < length ?ms" for i
    using written_ser_image [OF dm.origin_props(2) [OF i], of accs]
      image_data_short [OF assms i] dm.origin_props(4) [OF i] by simp
  have raw: "ri_raw_len (img i) = snd (written ?ms accs img i)" for img i by (simp add: written_def)
  show ?thesis
    unfolding program_writes_def raw canonical_def
    by (auto intro!: nth_equalityI simp: w)
qed

lemma check_raw_lens_ok:
  "list_all2 (\<lambda>a r. r = word_of_nat (length (data (snd a)))) accs raws \<Longrightarrow> check_raw_lens accs raws = Ok ()"
  by (induction rule: list_all2_induct) auto

lemma serialize_then_read:
  assumes "serialize_parameters ix accs pid = Ok b" "is_slice b"
  shows "read_account_writes b ix accs = Ok (canonical accs (ix_accounts ix),
     map (\<lambda>m. word_of_nat (length (data (the (find_account (meta_key m) accs))))) (ix_accounts ix))"
proof -
  have c: "length (ix_accounts ix) \<le> 255"
    "list_all (\<lambda>m. find_account (meta_key m) accs \<noteq> None) (ix_accounts ix)"
    "b = input_image accs ix pid"
    using assms(1) by (auto simp: serialize_parameters_eq split: if_splits)
  show ?thesis
    using read_account_writes_image [OF ser_layout_ok [OF c(2)] c(1), of "ix_data ix"
        "key_bytes pid @ replicate (align_offset_to_bpf_u128 (length (input_body accs ix pid))) 0
          @ pointer_array accs (ix_accounts ix)"]
      assms(2) c(3) program_writes_ser_image [of accs ix pid]
    by (simp add: input_image_as_post [symmetric])
qed

subsection \<open>What any successful read keeps\<close>

definition inherits :: "accounts \<Rightarrow> pubkey \<Rightarrow> account \<Rightarrow> u64 \<Rightarrow> bool" where
  "inherits pre key a raw \<longleftrightarrow> (case find_account key pre of
      None \<Rightarrow> False
    | Some p \<Rightarrow> executable a = executable p \<and> rent_epoch a = rent_epoch p
        \<and> length (data a) = min (unat raw) (data_room p))"

lemma trunc_eq_Ok [simp]: "trunc m = Ok x \<longleftrightarrow> m = Ok x"
  by (simp add: trunc_def)

lemma parse_inherits:
  assumes "parse_non_dup_record key pre r = Ok ((a, raw), r')"
  shows "inherits pre key a raw"
  using assms
  by (auto simp: parse_non_dup_record_def bind_res_eq_Ok Let_def inherits_def account_of_def
      dest!: take_bytes_Ok(1) split: prod.splits)

lemma read_step_inherits:
  assumes "read_step ms (dup_map ms) pre (r, bf) n = Ok (r', bf')"
  shows "\<exists>x. bf' = bf @ [x] \<and> (\<forall>a raw. x = Some (a, raw) \<longrightarrow> inherits pre (meta_key (ms ! n)) a raw)"
proof (cases "dup_map ms ! n")
  case None
  with assms obtain r1 a raw where "parse_non_dup_record (meta_key (ms ! n)) pre r1 = Ok ((a, raw), r')"
    "bf' = bf @ [Some (a, raw)]"
    by (auto simp: read_step_def bind_res_eq_Ok)
  then show ?thesis using parse_inherits by blast
next
  case (Some j)
  with assms show ?thesis by (auto simp: read_step_def bind_res_eq_Ok)
qed

lemma read_loop_inherits:
  assumes "foldM (read_step ms (dup_map ms) pre) (r, []) [0..<n] = Ok (r', bf)"
  shows "length bf = n \<and> (\<forall>k a raw. k < n \<longrightarrow> bf ! k = Some (a, raw) \<longrightarrow> inherits pre (meta_key (ms ! k)) a raw)"
  using assms
proof (induction n arbitrary: r' bf)
  case 0
  then show ?case by simp
next
  case (Suc n)
  then obtain r1 bf1 where l: "foldM (read_step ms (dup_map ms) pre) (r, []) [0..<n] = Ok (r1, bf1)"
    and st: "read_step ms (dup_map ms) pre (r1, bf1) n = Ok (r', bf)"
    by (auto simp: foldM_append bind_res_eq_Ok)
  note IH = Suc.IH [OF l]
  from read_step_inherits [OF st] IH show ?case by (auto simp: nth_append less_Suc_eq)
qed

lemma collect_loop_inv:
  assumes "foldM (collect_step (dup_map ms) bf) ([], []) (take n (List.enumerate 0 ms)) = Ok (accs, raws)"
    and "n \<le> length ms" "length bf = length ms"
  shows "length accs = n \<and> length raws = n \<and> (\<forall>i < n. fst (accs ! i) = meta_key (ms ! i)
      \<and> bf ! dm.origin ms i = Some (snd (accs ! i), raws ! i))"
  using assms
proof (induction n arbitrary: accs raws)
  case 0
  then show ?case by simp
next
  case (Suc n)
  then have "take (Suc n) (List.enumerate 0 ms) = take n (List.enumerate 0 ms) @ [(n, ms ! n)]"
    by (simp add: take_Suc_conv_app_nth nth_enumerate_eq)
  then obtain a1 r1 where l: "foldM (collect_step (dup_map ms) bf) ([], []) (take n (List.enumerate 0 ms)) = Ok (a1, r1)"
    and st: "collect_step (dup_map ms) bf (a1, r1) (n, ms ! n) = Ok (accs, raws)"
    using Suc.prems(1) by (auto simp: foldM_append bind_res_eq_Ok)
  have o: "(case dup_map ms ! n of Some j \<Rightarrow> j | None \<Rightarrow> n) = dm.origin ms n"
    by (simp add: dm.origin_def split: option.splits)
  from st obtain u raw where "bf ! dm.origin ms n = Some (u, raw)" "accs = a1 @ [(meta_key (ms ! n), u)]"
    "raws = r1 @ [raw]"
    by (auto simp: collect_step_def o Let_def bind_res_eq_Ok split: if_splits)
  then show ?case using Suc.IH [OF l] Suc.prems by (auto simp: nth_append less_Suc_eq)
qed

lemma read_writes_shape:
  assumes "read_account_writes b ix pre = Ok (accs, raws)"
  obtains bf where "length accs = length (ix_accounts ix)" "length raws = length (ix_accounts ix)"
    "\<And>i. i < length (ix_accounts ix) \<Longrightarrow> fst (accs ! i) = meta_key (ix_accounts ix ! i)
        \<and> bf ! dm.origin (ix_accounts ix) i = Some (snd (accs ! i), raws ! i)
        \<and> inherits pre (meta_key (ix_accounts ix ! i)) (snd (accs ! i)) (raws ! i)"
proof -
  let ?ms = "ix_accounts ix"
  from assms obtain r r' bf where l: "foldM (read_step ?ms (dup_map ?ms) pre) (r, []) [0..<length ?ms] = Ok (r', bf)"
    and c: "foldM (collect_step (dup_map ?ms) bf) ([], []) (take (length ?ms) (List.enumerate 0 ?ms)) = Ok (accs, raws)"
    by (auto simp: read_account_writes_def bind_res_eq_Ok Let_def split: if_splits)
  note L = read_loop_inherits [OF l]
  then have "length bf = length ?ms" by simp
  note C = collect_loop_inv [OF c order_refl this]
  have "inherits pre (meta_key (?ms ! i)) (snd (accs ! i)) (raws ! i)" if i: "i < length ?ms" for i
    using L C i dm.origin_props(2,4) [OF i] by metis
  with C that show ?thesis by blast
qed

lemma read_max_ix_len:
  assumes "layout_ok (ix_accounts ix) pre img dupb" "length (ix_accounts ix) \<le> 255"
    and "is_slice (post_buffer (ix_accounts ix) img dupb (le64 (- 1) @ tail))"
  shows "read_account_writes (post_buffer (ix_accounts ix) img dupb (le64 (- 1) @ tail)) ix pre = Panic"
proof -
  let ?p = "post_buffer (ix_accounts ix) img dupb []"
  have sl: "is_slice (?p @ le64 (- 1) @ tail)" using assms(3) by (simp add: post_buffer_def)
  have "unat (- 1 :: u64) = 2 ^ 64 - 1" by (simp add: unsigned_minus_1_eq_mask mask_eq_exp_minus_1)
  then have "skip (unat (- 1 :: u64)) (at (?p @ le64 (- 1)) tail) = Panic"
    by (simp add: skip_def take_bytes_def at_def)
  then show ?thesis
    unfolding read_up_to_trailer [OF assms] by (simp add: int_reads(2) [OF sl])
qed

subsection \<open>Properties\<close>

text \<open>C8: Reading the serializer's own buffer back is lossless: for every instruction and account
  list that serialize, \<open>deserialize_account_writes\<close> of the untouched buffer returns one account per
  reference, the very list \<open>accounts_for_instruction\<close> builds from the pre-state.\<close>

theorem serialize_deserialize:
  assumes "serialize_parameters ix accs pid = Ok b" "is_slice b"
  shows "\<exists>out. deserialize_account_writes b ix accs = Ok out \<and> accounts_for_instruction ix accs = Ok out"
proof (intro exI conjI)
  have all: "\<forall>m \<in> set (ix_accounts ix). find_account (meta_key m) accs \<noteq> None"
    using assms(1) by (auto simp: serialize_parameters_eq list_all_iff split: if_splits)
  then show "accounts_for_instruction ix accs = Ok (canonical accs (ix_accounts ix))"
    by (simp add: accounts_for_instruction_eq)
  have "check_raw_lens (canonical accs (ix_accounts ix))
      (map (\<lambda>m. word_of_nat (length (data (the (find_account (meta_key m) accs))))) (ix_accounts ix)) = Ok ()"
    by (rule check_raw_lens_ok) (simp add: canonical_def list_all2_map1 list_all2_map2 list_all2_same)
  then show "deserialize_account_writes b ix accs = Ok (canonical accs (ix_accounts ix))"
    by (simp add: deserialize_account_writes_def serialize_then_read [OF assms])
qed

theorem serialize_deserialize_witness:
  "\<exists>b out. serialize_parameters sample_ix sample_accounts 9 = Ok b
     \<and> deserialize_account_writes b sample_ix sample_accounts = Ok out"
  using serialize_deserialize [OF sample_serializes sample_is_slice] sample_serializes by blast

text \<open>C25: What a program wrote is what the host reads.  Whatever bytes a program leaves in the
  marker, flag, key, data-area and epoch positions of the records, and whatever owner, lamports and
  length fields it stores, \<open>read_account_writes\<close> returns per reference the first occurrence's
  stored owner and lamports, the stored data cut to the room of the record, and the raw length.\<close>

theorem read_program_writes:
  assumes "layout_ok (ix_accounts ix) pre img dupb" "length (ix_accounts ix) \<le> 255"
    and "is_slice (post_buffer (ix_accounts ix) img dupb (trailer ixd tail))" "32 \<le> length tail"
  shows "read_account_writes (post_buffer (ix_accounts ix) img dupb (trailer ixd tail)) ix pre
    = Ok (program_writes (ix_accounts ix) pre img)"
  using assms by (rule read_account_writes_image)

lemma sample_layout:
  "layout_ok (ix_accounts sample_ix) sample_accounts (ser_image (ix_accounts sample_ix) sample_accounts)
     (ser_dup (ix_accounts sample_ix))"
  by (rule ser_layout_ok) (simp add: sample_ix_def sample_accounts_def find_account_def)

lemma sample_post_slice:
  assumes "length rest < 2 ^ 62"
  shows "is_slice (post_buffer (ix_accounts sample_ix) (ser_image (ix_accounts sample_ix) sample_accounts)
     (ser_dup (ix_accounts sample_ix)) rest)"
proof -
  have "length (slots sample_accounts (ix_accounts sample_ix) (length (ix_accounts sample_ix)))
      \<le> length (input_image sample_accounts sample_ix 9)"
    by (simp add: input_image_def input_body_def)
  moreover have "length (input_image sample_accounts sample_ix 9) \<le> 40000"
    by (rule sample_image_length)
  ultimately show ?thesis
    using assms by (simp add: is_slice_def post_buffer_def slots_as_images [symmetric])
qed

theorem read_program_writes_witness:
  "\<exists>w. read_account_writes (post_buffer (ix_accounts sample_ix)
      (ser_image (ix_accounts sample_ix) sample_accounts) (ser_dup (ix_accounts sample_ix))
      (trailer [7] (replicate 40 0))) sample_ix sample_accounts = Ok w \<and> length (fst w) = 3"
proof -
  have "is_slice (post_buffer (ix_accounts sample_ix) (ser_image (ix_accounts sample_ix) sample_accounts)
     (ser_dup (ix_accounts sample_ix)) (trailer [7] (replicate 40 0)))"
    by (rule sample_post_slice) (simp add: trailer_def)
  from read_program_writes [OF sample_layout _ this] show ?thesis
    by (simp add: program_writes_def) (simp add: sample_ix_def)
qed

text \<open>C26: Whatever buffer a program leaves behind, an accepted read keeps the instruction's keys in
  order, inherits every \<open>executable\<close> flag and \<open>rent_epoch\<close> from the pre-state, never returns more
  data than the pre-state length plus \<open>MAX_PERMITTED_DATA_INCREASE\<close>, and gives references to the
  same key the same account.\<close>

theorem read_keeps_immutable_fields:
  assumes "read_account_writes b ix pre = Ok (accs, raws)"
    and "i < length (ix_accounts ix)" "j < length (ix_accounts ix)"
  shows "length accs = length (ix_accounts ix) \<and> fst (accs ! i) = meta_key (ix_accounts ix ! i)
    \<and> (\<exists>p. find_account (fst (accs ! i)) pre = Some p
        \<and> executable (snd (accs ! i)) = executable p \<and> rent_epoch (snd (accs ! i)) = rent_epoch p
        \<and> length (data (snd (accs ! i))) \<le> length (data p) + MAX_PERMITTED_DATA_INCREASE)
    \<and> (fst (accs ! i) = fst (accs ! j) \<longrightarrow> accs ! i = accs ! j)"
proof -
  let ?ms = "ix_accounts ix"
  obtain bf where sh: "length accs = length ?ms"
    "\<And>k. k < length ?ms \<Longrightarrow> fst (accs ! k) = meta_key (?ms ! k)
        \<and> bf ! dm.origin ?ms k = Some (snd (accs ! k), raws ! k)
        \<and> inherits pre (meta_key (?ms ! k)) (snd (accs ! k)) (raws ! k)"
    using read_writes_shape [OF assms(1)] by metis
  have "\<exists>p. find_account (meta_key (?ms ! i)) pre = Some p
        \<and> executable (snd (accs ! i)) = executable p \<and> rent_epoch (snd (accs ! i)) = rent_epoch p
        \<and> length (data (snd (accs ! i))) \<le> length (data p) + MAX_PERMITTED_DATA_INCREASE"
    using sh(2) [OF assms(2)] by (auto simp: inherits_def data_room_def split: option.splits)
  moreover have "accs ! i = accs ! j" if "meta_key (?ms ! i) = meta_key (?ms ! j)"
    using sh(2) [OF assms(2)] sh(2) [OF assms(3)] that dm.origin_eq_iff [OF assms(2,3)]
    by (simp add: prod_eq_iff)
  ultimately show ?thesis using sh assms(2,3) by simp
qed

theorem read_keeps_immutable_fields_witness:
  "\<exists>b accs raws. read_account_writes b sample_ix sample_accounts = Ok (accs, raws)
     \<and> accs ! 0 = accs ! 2 \<and> length (data (snd (accs ! 1))) \<le> 10240"
proof -
  let ?b = "input_image sample_accounts sample_ix 9"
  obtain accs raws where r: "read_account_writes ?b sample_ix sample_accounts = Ok (accs, raws)"
    using serialize_then_read [OF sample_serializes sample_is_slice] by blast
  note p = read_keeps_immutable_fields [OF r]
  have "accs ! 0 = accs ! 2" using p [of 0 2] p [of 2 0] by (simp add: sample_ix_def)
  moreover have "length (data (snd (accs ! 1))) \<le> 10240" using p [of 1 0]
    by (simp add: sample_ix_def) (auto simp: sample_accounts_def find_account_def account_of_def
        MAX_PERMITTED_DATA_INCREASE_def)
  ultimately show ?thesis using r by blast
qed

text \<open>A program can make the reader panic instead of returning \<open>Truncated\<close>: when it stores
  \<open>u64::MAX\<close> in the instruction-data length of any otherwise well-laid-out buffer, the unchecked
  \<open>pos + n\<close> of the cursor overflows.\<close>

theorem ix_data_len_max_panics:
  assumes "layout_ok (ix_accounts ix) pre img dupb" "length (ix_accounts ix) \<le> 255"
    and "is_slice (post_buffer (ix_accounts ix) img dupb (le64 (- 1) @ tail))"
  shows "read_account_writes (post_buffer (ix_accounts ix) img dupb (le64 (- 1) @ tail)) ix pre = Panic"
  using assms by (rule read_max_ix_len)

theorem ix_data_len_max_panics_witness:
  "read_account_writes (post_buffer (ix_accounts sample_ix)
      (ser_image (ix_accounts sample_ix) sample_accounts) (ser_dup (ix_accounts sample_ix))
      (le64 (- 1) @ replicate 40 0)) sample_ix sample_accounts = Panic"
  by (rule ix_data_len_max_panics [OF sample_layout _ sample_post_slice]) (simp_all add: sample_ix_def)

end
