(* ===== verification/Account_Checks.thy ===== *)
theory Account_Checks
  imports Deserialize
begin

text \<open>
  The runtime's account-change rules (\<open>SVM/Lib/Runtime/Checks.lean\<close>), the wire that carries an
  instruction's account changes to them (\<open>encode_account_changes\<close> of \<open>qedsvm-rs/src/svm.rs\<close>,
  \<open>checkAccountChanges\<close> of \<open>SVM/Ffi.lean\<close>), and what acceptance implies: lamports are conserved,
  read-only accounts are unchanged, and a program only rewrites accounts it owns.
\<close>

record account_state =
  as_owner :: pubkey
  as_lamports :: nat
  as_data :: bytes
  as_executable :: bool
  as_rent_epoch :: nat

record account_writes =
  aw_owner :: pubkey
  aw_lamports :: nat
  aw_data_len :: nat
  aw_data :: bytes

record account_change =
  ch_key :: pubkey
  ch_writable :: bool
  ch_entry :: account_state
  ch_pre :: account_state
  ch_post :: account_writes

datatype account_change_error =
    ExternalAccountLamportSpend
  | ReadonlyLamportChange
  | InvalidRealloc
  | ReadonlyDataModified
  | ExternalAccountDataModified
  | ModifiedProgramId
  | UnbalancedInstruction

definition MAX_PERMITTED_DATA_LENGTH :: nat where
  "MAX_PERMITTED_DATA_LENGTH = 10 * 1024 * 1024"

subsection \<open>Unique accounts\<close>

definition merge_ref :: "account_change list \<Rightarrow> account_change \<Rightarrow> account_change list" where
  "merge_ref acc c =
     (if list_ex (\<lambda>a. ch_key a = ch_key c) acc
      then map (\<lambda>a. if ch_key a = ch_key c then a\<lparr>ch_writable := ch_writable a \<or> ch_writable c\<rparr> else a) acc
      else acc @ [c])"

definition unique_changes :: "account_change list \<Rightarrow> account_change list" where
  "unique_changes refs = foldl merge_ref [] refs"

subsection \<open>The rules\<close>

definition owned :: "account_change \<Rightarrow> pubkey \<Rightarrow> bool" where
  "owned c pid \<longleftrightarrow> as_owner (ch_pre c) = pid"

definition can_data_be_changed :: "pubkey \<Rightarrow> account_change \<Rightarrow> (account_change_error, unit) res" where
  "can_data_be_changed pid c =
     (if \<not> ch_writable c then Err ReadonlyDataModified
      else if \<not> owned c pid then Err ExternalAccountDataModified
      else Ok ())"

fun prefix_differs :: "bytes \<Rightarrow> bytes \<Rightarrow> bool" where
  "prefix_differs (a # as) (b # bs) = (if a \<noteq> b then True else prefix_differs as bs)"
| "prefix_differs _ _ = False"

definition check_data_write :: "pubkey \<Rightarrow> account_change \<Rightarrow> (account_change_error, unit) res" where
  "check_data_write pid c =
     (if prefix_differs (as_data (ch_pre c)) (aw_data (ch_post c)) then can_data_be_changed pid c
      else Ok ())"

definition check_lamports :: "pubkey \<Rightarrow> account_change \<Rightarrow> (account_change_error, unit) res" where
  "check_lamports pid c =
     (if aw_lamports (ch_post c) = as_lamports (ch_pre c) then Ok ()
      else if \<not> owned c pid \<and> aw_lamports (ch_post c) < as_lamports (ch_pre c)
      then Err ExternalAccountLamportSpend
      else if \<not> ch_writable c then Err ReadonlyLamportChange
      else Ok ())"

definition check_data_len :: "pubkey \<Rightarrow> account_change \<Rightarrow> (account_change_error, unit) res" where
  "check_data_len pid c =
     (if aw_data_len (ch_post c) - length (as_data (ch_entry c)) > MAX_PERMITTED_DATA_INCREASE
         \<or> aw_data_len (ch_post c) > MAX_PERMITTED_DATA_LENGTH
      then Err InvalidRealloc
      else if aw_data_len (ch_post c) = length (as_data (ch_pre c)) then Ok ()
      else can_data_be_changed pid c)"

definition check_owner :: "pubkey \<Rightarrow> account_change \<Rightarrow> (account_change_error, unit) res" where
  "check_owner pid c =
     (if aw_owner (ch_post c) = as_owner (ch_pre c) then Ok ()
      else if \<not> owned c pid then Err ModifiedProgramId
      else if \<not> ch_writable c then Err ModifiedProgramId
      else if \<not> list_all (\<lambda>b. b = 0) (aw_data (ch_post c)) then Err ModifiedProgramId
      else Ok ())"

definition check_account :: "pubkey \<Rightarrow> account_change \<Rightarrow> (account_change_error, unit) res" where
  "check_account pid c =
     bind_res (check_lamports pid c) (\<lambda>_. bind_res (check_data_len pid c) (\<lambda>_. check_owner pid c))"

primrec check_all :: "('a \<Rightarrow> (account_change_error, unit) res) \<Rightarrow> 'a list \<Rightarrow> (account_change_error, unit) res" where
  "check_all f [] = Ok ()"
| "check_all f (x # xs) = bind_res (f x) (\<lambda>_. check_all f xs)"

definition entry_lamports :: "account_change list \<Rightarrow> nat" where
  "entry_lamports xs = sum_list (map (\<lambda>c. as_lamports (ch_entry c)) xs)"

definition post_lamports :: "account_change list \<Rightarrow> nat" where
  "post_lamports xs = sum_list (map (\<lambda>c. aw_lamports (ch_post c)) xs)"

definition post_instruction_check :: "pubkey \<Rightarrow> account_change list \<Rightarrow> (account_change_error, unit) res" where
  "post_instruction_check pid refs =
     (let xs = unique_changes refs in
      bind_res (check_all (check_data_write pid) xs) (\<lambda>_.
      bind_res (check_all (check_account pid) xs) (\<lambda>_.
      if post_lamports xs = entry_lamports xs then Ok () else Err UnbalancedInstruction)))"

lemma check_all_Ok: "check_all f xs = Ok u \<longleftrightarrow> (\<forall>x \<in> set xs. f x = Ok ())"
  by (induction xs) (auto simp: bind_res_eq_Ok)

lemmas rule_defs = check_data_write_def check_lamports_def check_data_len_def check_owner_def
  check_account_def can_data_be_changed_def

lemma post_check_Ok:
  "post_instruction_check pid refs = Ok u \<longleftrightarrow>
     (\<forall>c \<in> set (unique_changes refs). check_data_write pid c = Ok () \<and> check_account pid c = Ok ())
     \<and> post_lamports (unique_changes refs) = entry_lamports (unique_changes refs)"
  by (auto simp: post_instruction_check_def Let_def bind_res_eq_Ok check_all_Ok)

lemma post_check_no_panic: "post_instruction_check pid refs \<noteq> Panic"
proof -
  have all: "check_all f xs \<noteq> Panic" if "\<And>x. f x \<noteq> Panic" for f :: "account_change \<Rightarrow> _" and xs
    using that by (induction xs) (auto, metis bind_res.simps res.exhaust)
  have "check_data_write pid c \<noteq> Panic" "check_account pid c \<noteq> Panic" for c
    by (auto simp: rule_defs)
  with all have "check_all (check_data_write pid) xs \<noteq> Panic" "check_all (check_account pid) xs \<noteq> Panic" for xs
    by blast+
  then show ?thesis
    by (cases "check_all (check_data_write pid) (unique_changes refs)";
        cases "check_all (check_account pid) (unique_changes refs)")
      (auto simp: post_instruction_check_def Let_def)
qed

subsection \<open>What merging keeps\<close>

text \<open>A key's merged change is its first reference with the OR of the writable flags.\<close>

definition merged :: "account_change list \<Rightarrow> account_change \<Rightarrow> account_change" where
  "merged refs c = c\<lparr>ch_writable := list_ex (\<lambda>r. ch_key r = ch_key c \<and> ch_writable r) refs\<rparr>"

definition firsts :: "account_change list \<Rightarrow> account_change list" where
  "firsts refs = foldl (\<lambda>acc c. if list_ex (\<lambda>a. ch_key a = ch_key c) acc then acc else acc @ [c]) [] refs"

lemma firsts_snoc: "firsts (refs @ [c]) =
    (if list_ex (\<lambda>a. ch_key a = ch_key c) (firsts refs) then firsts refs else firsts refs @ [c])"
  by (simp add: firsts_def)

lemma firsts_keys: "distinct (map ch_key (firsts refs)) \<and> ch_key ` set (firsts refs) = ch_key ` set refs
    \<and> set (firsts refs) \<subseteq> set refs"
proof (induction refs rule: rev_induct)
  case Nil
  then show ?case by (simp add: firsts_def)
next
  case (snoc c refs)
  have "list_ex (\<lambda>a. ch_key a = ch_key c) (firsts refs) \<longleftrightarrow> ch_key c \<in> ch_key ` set (firsts refs)"
    by (simp add: list_ex_iff image_bex)
  with snoc show ?case
    by (cases "ch_key c \<in> ch_key ` set (firsts refs)") (auto simp: firsts_snoc insert_absorb)
qed

lemma firsts_seen:
  "list_ex (\<lambda>a. ch_key a = ch_key c) (firsts refs) \<longleftrightarrow> ch_key c \<in> ch_key ` set refs"
proof -
  have "list_ex (\<lambda>a. ch_key a = ch_key c) (firsts refs) \<longleftrightarrow> ch_key c \<in> ch_key ` set (firsts refs)"
    by (simp add: list_ex_iff image_bex)
  then show ?thesis using firsts_keys [of refs] by simp
qed

lemma unique_changes_eq: "unique_changes refs = map (merged refs) (firsts refs)"
proof (induction refs rule: rev_induct)
  case Nil
  then show ?case by (simp add: unique_changes_def firsts_def)
next
  case (snoc c refs)
  have keys: "ch_key (merged rs a) = ch_key a" for rs a by (simp add: merged_def)
  have ex: "list_ex (\<lambda>a. ch_key a = ch_key c) (map (merged refs) xs) = list_ex (\<lambda>a. ch_key a = ch_key c) xs" for xs
    by (simp add: list_ex_iff keys)
  have upd: "merged (refs @ [c]) a
      = (if ch_key a = ch_key c then (merged refs a)\<lparr>ch_writable := ch_writable (merged refs a) \<or> ch_writable c\<rparr> else merged refs a)" for a
    by (simp add: merged_def)
  have self: "merged (refs @ [c]) c = c" if "\<not> list_ex (\<lambda>a. ch_key a = ch_key c) (firsts refs)"
  proof -
    have "\<forall>r \<in> set refs. ch_key r \<noteq> ch_key c"
      using that by (simp add: firsts_seen image_bex)
    then show ?thesis by (auto simp: merged_def list_ex_iff)
  qed
  have "unique_changes (refs @ [c]) = merge_ref (map (merged refs) (firsts refs)) c"
    using snoc by (simp add: unique_changes_def)
  also have "\<dots> = map (merged (refs @ [c])) (firsts (refs @ [c]))"
  proof (cases "list_ex (\<lambda>a. ch_key a = ch_key c) (firsts refs)")
    case True
    then show ?thesis by (simp add: merge_ref_def ex firsts_snoc upd keys)
  next
    case False
    then have "\<forall>a \<in> set (firsts refs). ch_key a \<noteq> ch_key c" by (simp add: list_ex_iff)
    then show ?thesis using False by (simp add: merge_ref_def ex firsts_snoc self) (simp add: upd)
  qed
  finally show ?case .
qed

subsection \<open>The account-change wire\<close>

definition state_bytes :: "account \<Rightarrow> bytes" where
  "state_bytes a = key_bytes (owner a) @ le64 (lamports a) @ le64 (word_of_nat (length (data a))) @ data a"

definition change_bytes :: "account_meta \<Rightarrow> pubkey \<Rightarrow> account \<Rightarrow> account \<Rightarrow> account \<Rightarrow> u64 \<Rightarrow> bytes" where
  "change_bytes m key entry_acct pre_acct post_acct raw =
     key_bytes key @ [flag_byte (is_writable m), flag_byte (executable entry_acct)]
     @ le64 (rent_epoch entry_acct) @ state_bytes entry_acct @ state_bytes pre_acct
     @ key_bytes (owner post_acct) @ le64 (lamports post_acct) @ le64 raw
     @ le64 (word_of_nat (length (data post_acct))) @ data post_acct"

definition encode_change_step :: "instruction \<Rightarrow> accounts \<Rightarrow> accounts \<Rightarrow> u64 list
    \<Rightarrow> bytes \<Rightarrow> nat \<times> pubkey \<times> account \<Rightarrow> (unit, bytes) res" where
  "encode_change_step ix pre post raws wire e = (case e of (i, key, entry_acct) \<Rightarrow>
     if i < length post \<and> i < length (ix_accounts ix) \<and> i < length pre \<and> i < length raws
     then Ok (wire @ change_bytes (ix_accounts ix ! i) key entry_acct (snd (pre ! i)) (snd (post ! i)) (raws ! i))
     else Panic)"

definition encode_account_changes ::
  "instruction \<Rightarrow> accounts \<Rightarrow> accounts \<Rightarrow> accounts \<Rightarrow> u64 list \<Rightarrow> (unit, bytes) res" where
  "encode_account_changes ix entry pre post raws =
     foldM (encode_change_step ix pre post raws)
       (key_bytes (program_id ix) @ le64 (word_of_nat (length entry))) (List.enumerate 0 entry)"

text \<open>The Lean side reads fields at explicit offsets.\<close>

definition wire_u64 :: "bytes \<Rightarrow> nat \<Rightarrow> nat option" where
  "wire_u64 b off = (if off + 8 \<le> length b then Some (from_le (take 8 (drop off b))) else None)"

definition wire_pubkey :: "bytes \<Rightarrow> nat \<Rightarrow> pubkey option" where
  "wire_pubkey b off = (if off + 32 \<le> length b then Some (key_of_bytes (take 32 (drop off b))) else None)"

definition wire_bytes :: "bytes \<Rightarrow> nat \<Rightarrow> nat \<Rightarrow> bytes option" where
  "wire_bytes b off n = (if off + n \<le> length b then Some (take n (drop off b)) else None)"

definition wire_state :: "bytes \<Rightarrow> nat \<Rightarrow> bool \<Rightarrow> nat \<Rightarrow> (account_state \<times> nat) option" where
  "wire_state b off ex re =
     Option.bind (wire_pubkey b off) (\<lambda>ow.
     Option.bind (wire_u64 b (off + 32)) (\<lambda>lam.
     Option.bind (wire_u64 b (off + 40)) (\<lambda>len.
     Option.bind (wire_bytes b (off + 48) len) (\<lambda>d.
     Some (\<lparr>as_owner = ow, as_lamports = lam, as_data = d, as_executable = ex, as_rent_epoch = re\<rparr>,
           off + 48 + len)))))"

definition wire_change :: "bytes \<Rightarrow> nat \<Rightarrow> (account_change \<times> nat) option" where
  "wire_change b off =
     Option.bind (wire_pubkey b off) (\<lambda>key.
     Option.bind (wire_bytes b (off + 32) 2) (\<lambda>flags.
     Option.bind (wire_u64 b (off + 34)) (\<lambda>re.
     let ex = (last flags \<noteq> 0) in
     Option.bind (wire_state b (off + 42) ex re) (\<lambda>(entry, off).
     Option.bind (wire_state b off ex re) (\<lambda>(pre, off).
     Option.bind (wire_pubkey b off) (\<lambda>post_owner.
     Option.bind (wire_u64 b (off + 32)) (\<lambda>post_lam.
     Option.bind (wire_u64 b (off + 40)) (\<lambda>data_len.
     Option.bind (wire_u64 b (off + 48)) (\<lambda>post_len.
     Option.bind (wire_bytes b (off + 56) post_len) (\<lambda>post_data.
     Some (\<lparr>ch_key = key, ch_writable = (hd flags \<noteq> 0), ch_entry = entry, ch_pre = pre,
        ch_post = \<lparr>aw_owner = post_owner, aw_lamports = post_lam, aw_data_len = data_len, aw_data = post_data\<rparr>\<rparr>,
       off + 56 + post_len)))))))))))"

fun wire_changes :: "bytes \<Rightarrow> nat \<Rightarrow> nat \<Rightarrow> account_change list option" where
  "wire_changes b 0 off = (if off = length b then Some [] else None)"
| "wire_changes b (Suc n) off =
     Option.bind (wire_change b off) (\<lambda>(c, off).
     Option.bind (wire_changes b n off) (\<lambda>rest. Some (c # rest)))"

definition change_error_code :: "account_change_error \<Rightarrow> u64" where
  "change_error_code e = (case e of
      ExternalAccountLamportSpend \<Rightarrow> 1 | ReadonlyLamportChange \<Rightarrow> 2 | InvalidRealloc \<Rightarrow> 3
    | ReadonlyDataModified \<Rightarrow> 4 | ExternalAccountDataModified \<Rightarrow> 5 | ModifiedProgramId \<Rightarrow> 6
    | UnbalancedInstruction \<Rightarrow> 7)"

definition check_account_changes :: "bytes \<Rightarrow> u64" where
  "check_account_changes b =
     (case Option.bind (wire_pubkey b 0) (\<lambda>pid.
           Option.bind (wire_u64 b 32) (\<lambda>count.
           Option.bind (wire_changes b count 40) (\<lambda>refs. Some (pid, refs)))) of
        None \<Rightarrow> 255
      | Some (pid, refs) \<Rightarrow>
          (case post_instruction_check pid refs of
             Ok _ \<Rightarrow> 0 | Err e \<Rightarrow> change_error_code e | Panic \<Rightarrow> 255))"

subsection \<open>The wire round trip\<close>

definition state_of :: "account \<Rightarrow> account \<Rightarrow> account_state" where
  "state_of entry_acct a = \<lparr>as_owner = owner a, as_lamports = unat (lamports a), as_data = data a,
     as_executable = executable entry_acct, as_rent_epoch = unat (rent_epoch entry_acct)\<rparr>"

definition change_of :: "account_meta \<Rightarrow> pubkey \<Rightarrow> account \<Rightarrow> account \<Rightarrow> account \<Rightarrow> u64 \<Rightarrow> account_change" where
  "change_of m key e p q raw = \<lparr>ch_key = key, ch_writable = is_writable m, ch_entry = state_of e e,
     ch_pre = state_of e p, ch_post = \<lparr>aw_owner = owner q, aw_lamports = unat (lamports q),
       aw_data_len = unat raw, aw_data = data q\<rparr>\<rparr>"

definition changes :: "instruction \<Rightarrow> accounts \<Rightarrow> accounts \<Rightarrow> accounts \<Rightarrow> u64 list \<Rightarrow> account_change list" where
  "changes ix entry pre post raws = map (\<lambda>i. change_of (ix_accounts ix ! i) (fst (entry ! i)) (snd (entry ! i))
     (snd (pre ! i)) (snd (post ! i)) (raws ! i)) [0..<length entry]"

lemma drop_step: "drop off b = xs @ ys \<Longrightarrow> drop (off + length xs) b = ys"
  by (metis add.commute append_eq_conv_conj drop_drop)

lemma drop_fits: "drop off b = xs @ ys \<Longrightarrow> off + length xs \<le> length b \<or> xs = []"
  by (cases xs) (auto dest: arg_cong [of _ _ length])

lemma from_le_le64: "from_le (le64 w) = unat w"
  by (simp add: le64_def from_le_le_bytes)

lemma wire_u64_at: "drop off b = le64 w @ ys \<Longrightarrow> wire_u64 b off = Some (unat w)"
  using drop_fits [of off b "le64 w" ys]
  by (auto simp: wire_u64_def from_le_le64 dest: arg_cong [of _ _ length])

lemma wire_pubkey_at: "drop off b = key_bytes k @ ys \<Longrightarrow> wire_pubkey b off = Some k"
  using drop_fits [of off b "key_bytes k" ys]
  by (auto simp: wire_pubkey_def dest: arg_cong [of _ _ length])

lemma wire_bytes_at: "drop off b = xs @ ys \<Longrightarrow> length xs = n \<Longrightarrow> off \<le> length b \<Longrightarrow> wire_bytes b off n = Some xs"
  using drop_fits [of off b xs ys] by (auto simp: wire_bytes_def)

lemma drop_to: "drop off b = xs @ ys \<Longrightarrow> off + length xs = off' \<Longrightarrow> drop off' b = ys"
  using drop_step by blast

lemma wire_state_at:
  assumes "drop off b = state_bytes a @ ys" "length (data a) < 2 ^ 64"
  shows "wire_state b off (executable e) (unat (rent_epoch e)) = Some (state_of e a, off + length (state_bytes a))"
proof -
  let ?len = "word_of_nat (length (data a)) :: u64"
  have d0: "drop off b = key_bytes (owner a) @ le64 (lamports a) @ le64 ?len @ data a @ ys"
    using assms(1) by (simp add: state_bytes_def)
  have d1: "drop (off + 32) b = le64 (lamports a) @ le64 ?len @ data a @ ys"
    by (rule drop_to [OF d0]) simp
  have d2: "drop (off + 40) b = le64 ?len @ data a @ ys"
    by (rule drop_to [OF d1]) simp
  have d3: "drop (off + 48) b = data a @ ys"
    by (rule drop_to [OF d2]) simp
  have le: "off + 48 \<le> length b"
    using arg_cong [OF d0, of length] by simp
  have n: "unat ?len = length (data a)" using assms(2) by (simp add: unat_of_nat)
  show ?thesis
    using wire_pubkey_at [OF d0] wire_u64_at [OF d1] wire_u64_at [OF d2] wire_bytes_at [OF d3 refl le]
    by (simp add: wire_state_def n state_of_def) (simp add: state_bytes_def)
qed

lemma length_state_bytes [len_simps]: "length (state_bytes a) = 48 + length (data a)"
  by (simp add: state_bytes_def)

lemma flag_byte_nonzero [simp]: "flag_byte x \<noteq> 0 \<longleftrightarrow> x"
  by (simp add: flag_byte_def)

lemma wire_change_at:
  assumes d: "drop off b = change_bytes m key e p q raw @ ys"
    and len: "length (data e) < 2 ^ 64" "length (data p) < 2 ^ 64" "length (data q) < 2 ^ 64"
  shows "wire_change b off = Some (change_of m key e p q raw, off + length (change_bytes m key e p q raw))"
proof -
  let ?fl = "[flag_byte (is_writable m), flag_byte (executable e)]"
  let ?n = "word_of_nat (length (data q)) :: u64"
  let ?t5 = "key_bytes (owner q) @ le64 (lamports q) @ le64 raw @ le64 ?n @ data q @ ys"
  have d0: "drop off b = key_bytes key @ ?fl @ le64 (rent_epoch e) @ state_bytes e @ state_bytes p @ ?t5"
    using d by (simp add: change_bytes_def)
  have d1: "drop (off + 32) b = ?fl @ le64 (rent_epoch e) @ state_bytes e @ state_bytes p @ ?t5"
    by (rule drop_to [OF d0]) simp
  have d2: "drop (off + 34) b = le64 (rent_epoch e) @ state_bytes e @ state_bytes p @ ?t5"
    by (rule drop_to [OF d1]) simp
  have d3: "drop (off + 42) b = state_bytes e @ state_bytes p @ ?t5"
    by (rule drop_to [OF d2]) simp
  define o4 where "o4 = off + 42 + length (state_bytes e)"
  have d4: "drop o4 b = state_bytes p @ ?t5" by (rule drop_to [OF d3]) (simp add: o4_def)
  define o5 where "o5 = o4 + length (state_bytes p)"
  have d5: "drop o5 b = ?t5" by (rule drop_to [OF d4]) (simp add: o5_def)
  have d6: "drop (o5 + 32) b = le64 (lamports q) @ le64 raw @ le64 ?n @ data q @ ys"
    by (rule drop_to [OF d5]) simp
  have d7: "drop (o5 + 40) b = le64 raw @ le64 ?n @ data q @ ys"
    by (rule drop_to [OF d6]) simp
  have d8: "drop (o5 + 48) b = le64 ?n @ data q @ ys" by (rule drop_to [OF d7]) simp
  have d9: "drop (o5 + 56) b = data q @ ys" by (rule drop_to [OF d8]) simp
  have le: "o5 + 56 \<le> length b" using arg_cong [OF d0, of length] by (simp add: o5_def o4_def)
  have le': "off + 32 \<le> length b" using arg_cong [OF d0, of length] by simp
  have n: "unat ?n = length (data q)" using len(3) by (simp add: unat_of_nat)
  have fl: "wire_bytes b (off + 32) 2 = Some ?fl" by (rule wire_bytes_at [OF d1 _ le']) simp
  note reads = wire_pubkey_at [OF d0] fl wire_u64_at [OF d2] wire_state_at [OF d3 len(1), of e, folded o4_def]
    wire_state_at [OF d4 len(2), of e, folded o5_def] wire_pubkey_at [OF d5] wire_u64_at [OF d6] wire_u64_at [OF d7]
    wire_u64_at [OF d8] wire_bytes_at [OF d9 refl le]
  have total: "off + length (change_bytes m key e p q raw) = o5 + 56 + length (data q)"
    by (simp add: change_bytes_def o5_def o4_def)
  show ?thesis
    unfolding wire_change_def Let_def reads total by (simp add: reads n change_of_def)
qed

definition changes_bytes :: "instruction \<Rightarrow> accounts \<Rightarrow> accounts \<Rightarrow> accounts \<Rightarrow> u64 list \<Rightarrow> nat \<Rightarrow> bytes" where
  "changes_bytes ix entry pre post raws i = change_bytes (ix_accounts ix ! i) (fst (entry ! i)) (snd (entry ! i))
     (snd (pre ! i)) (snd (post ! i)) (raws ! i)"

text \<open>Aligned inputs: one entry, pre-state, post-state and length per reference, in memory.\<close>

definition short_data :: "accounts \<Rightarrow> bool" where
  "short_data accs \<longleftrightarrow> list_all (\<lambda>e. length (data (snd e)) < 2 ^ 64) accs"

definition aligned :: "instruction \<Rightarrow> accounts \<Rightarrow> accounts \<Rightarrow> accounts \<Rightarrow> u64 list \<Rightarrow> bool" where
  "aligned ix entry pre post raws \<longleftrightarrow> length entry = length (ix_accounts ix) \<and> length pre = length entry
     \<and> length post = length entry \<and> length raws = length entry \<and> length entry < 2 ^ 64
     \<and> short_data entry \<and> short_data pre \<and> short_data post"

lemma short_data_nth: "short_data accs \<Longrightarrow> i < length accs \<Longrightarrow> length (data (snd (accs ! i))) < 2 ^ 64"
  by (simp add: short_data_def list_all_length)

lemma encode_changes_eq:
  assumes "aligned ix entry pre post raws"
  shows "encode_account_changes ix entry pre post raws = Ok (key_bytes (program_id ix)
     @ le64 (word_of_nat (length entry)) @ concat (map (changes_bytes ix entry pre post raws) [0..<length entry]))"
proof -
  let ?w = "key_bytes (program_id ix) @ le64 (word_of_nat (length entry))"
  have "foldM (encode_change_step ix pre post raws) ?w (take n (List.enumerate 0 entry))
      = Ok (?w @ concat (map (changes_bytes ix entry pre post raws) [0..<n]))" if "n \<le> length entry" for n
    using that
  proof (induction n)
    case 0
    then show ?case by simp
  next
    case (Suc n)
    then have "take (Suc n) (List.enumerate 0 entry) = take n (List.enumerate 0 entry) @ [(n, entry ! n)]"
      by (simp add: take_Suc_conv_app_nth nth_enumerate_eq)
    with Suc assms show ?case
      by (simp add: foldM_append encode_change_step_def aligned_def changes_bytes_def split: prod.splits)
  qed
  from this [of "length entry"] show ?thesis by (simp add: encode_account_changes_def)
qed

lemma wire_changes_at:
  assumes al: "aligned ix entry pre post raws"
    and d: "drop off b = concat (map (changes_bytes ix entry pre post raws) [i..<length entry])"
    and "i \<le> length entry" "off \<le> length b"
  shows "wire_changes b (length entry - i) off
    = Some (map (\<lambda>i. changes ix entry pre post raws ! i) [i..<length entry])"
  using assms(2-)
proof (induction "length entry - i" arbitrary: i off)
  case 0
  then show ?case by simp
next
  case (Suc n)
  then have i: "i < length entry" and upt: "[i..<length entry] = i # [Suc i..<length entry]"
    by (simp_all add: upt_conv_Cons)
  let ?cb = "changes_bytes ix entry pre post raws i"
  let ?rest = "concat (map (changes_bytes ix entry pre post raws) [Suc i..<length entry])"
  have d: "drop off b = ?cb @ ?rest" using Suc.prems(1) by (simp add: upt)
  have sh: "length (data (snd (entry ! i))) < 2 ^ 64" "length (data (snd (pre ! i))) < 2 ^ 64"
    "length (data (snd (post ! i))) < 2 ^ 64"
    using al i short_data_nth [of entry i] short_data_nth [of pre i] short_data_nth [of post i]
    by (simp_all add: aligned_def)
  have c: "wire_change b off = Some (changes ix entry pre post raws ! i, off + length ?cb)"
    using wire_change_at [OF d [unfolded changes_bytes_def] sh] i
    by (simp add: changes_def changes_bytes_def)
  have le: "off + length ?cb \<le> length b" using arg_cong [OF d, of length] Suc.prems(3) by simp
  have "wire_changes b (length entry - Suc i) (off + length ?cb)
      = Some (map (\<lambda>i. changes ix entry pre post raws ! i) [Suc i..<length entry])"
    using Suc.hyps(1) [of "Suc i" "off + length ?cb"] Suc.hyps(2) drop_step [OF d] i le by simp
  moreover have "length entry - i = Suc (length entry - Suc i)" using i by simp
  ultimately show ?case using c upt by simp
qed

lemma check_encoded_changes:
  assumes "aligned ix entry pre post raws"
  shows "\<exists>wire. encode_account_changes ix entry pre post raws = Ok wire \<and>
     check_account_changes wire = (case post_instruction_check (program_id ix) (changes ix entry pre post raws) of
        Ok _ \<Rightarrow> 0 | Err e \<Rightarrow> change_error_code e | Panic \<Rightarrow> 255)"
proof -
  let ?cs = "concat (map (changes_bytes ix entry pre post raws) [0..<length entry])"
  let ?n = "word_of_nat (length entry) :: u64"
  let ?b = "key_bytes (program_id ix) @ le64 ?n @ ?cs"
  have d0: "drop 0 ?b = key_bytes (program_id ix) @ le64 ?n @ ?cs" by simp
  have d1: "drop 32 ?b = le64 ?n @ ?cs" by simp
  have "unat ?n = length entry" using assms by (simp add: aligned_def unat_of_nat)
  moreover have "wire_changes ?b (length entry) 40 = Some (changes ix entry pre post raws)"
    using wire_changes_at [OF assms, of 40 ?b 0]
    by (simp add: map_nth [of "changes ix entry pre post raws", symmetric] changes_def)
  ultimately have "check_account_changes ?b = (case post_instruction_check (program_id ix) (changes ix entry pre post raws) of
        Ok _ \<Rightarrow> 0 | Err e \<Rightarrow> change_error_code e | Panic \<Rightarrow> 255)"
    using wire_pubkey_at [OF d0] wire_u64_at [OF d1] by (simp add: check_account_changes_def)
  then show ?thesis using encode_changes_eq [OF assms] by blast
qed

end
