(* ===== verification/Wire.thy ===== *)
theory Wire
  imports Byte_Cursor
begin

text \<open>
  The executor's result wire: \<open>qedsvm-rs/src/wire.rs\<close> (the decoder, \<open>decode\<close>) and its producer
  \<open>SVM/Ffi.lean\<close> (\<open>encodeRun\<close>), plus the CPI registry blob of \<open>qedsvm-rs/src/lib.rs\<close>
  (\<open>encode_registry\<close>) and its Lean consumer \<open>parseRegistry\<close>.  Shown: the decoder inverts the
  producer, never panics, ignores trailing bytes, and the registry lookup finds what was encoded.
  \<open>Vec::with_capacity\<close> is not modelled: a capacity request has no observable value.
\<close>

datatype exit_outcome = OutOfBudget | Halted u64 | Faulted u64

record raw_result =
  outcome :: exit_outcome
  compute_units_consumed :: u64
  modified_input :: bytes
  logs :: "bytes list"
  return_data :: bytes
  cpi_return_input :: "bytes option"

datatype decode_error = ElfDecodeFailed | Malformed string

definition TRUNCATED :: decode_error where
  "TRUNCATED = Malformed ''buffer truncated''"

text \<open>\<open>.ok_or(TRUNCATED)?\<close> on a cursor read.\<close>

definition rd :: "(unit, 'a) res \<Rightarrow> (decode_error, 'a) res" where
  "rd m = map_err (\<lambda>_. TRUNCATED) m"

lemma rd_simps [simp, res_simps]: "rd (Ok x) = Ok x" "rd (Err e) = Err TRUNCATED" "rd Panic = Panic"
  by (simp_all add: rd_def)

definition decode_outcome :: "cursor \<Rightarrow> (decode_error, exit_outcome \<times> cursor) res" where
  "decode_outcome r =
     bind_res (rd (read_u8 r)) (\<lambda>(k, r).
       if k = 0 then Ok (OutOfBudget, r)
       else if k = 1 then bind_res (rd (read_u64 r)) (\<lambda>(n, r). Ok (Halted n, r))
       else if k = 2 then bind_res (rd (read_u64 r)) (\<lambda>(n, r). Ok (Faulted n, r))
       else Err (Malformed ''unknown exit_kind''))"

text \<open>\<open>r.u32()? as usize\<close> followed by \<open>r.take(n)?.to_vec()\<close>, the pattern of every blob field.\<close>

definition decode_blob :: "cursor \<Rightarrow> (decode_error, bytes \<times> cursor) res" where
  "decode_blob r =
     bind_res (rd (read_u32 r)) (\<lambda>(n, r). rd (take_bytes (unat n) r))"

text \<open>The arm for status byte 1.\<close>

definition decode_body :: "cursor \<Rightarrow> (decode_error, raw_result \<times> cursor) res" where
  "decode_body r = bind_res (decode_outcome r) (\<lambda>(oc, r).
     bind_res (rd (read_u64 r)) (\<lambda>(cu, r).
     bind_res (decode_blob r) (\<lambda>(inp, r).
     bind_res (rd (read_u32 r)) (\<lambda>(num_logs, r).
     bind_res (read_n decode_blob (unat num_logs) r) (\<lambda>(lgs, r).
     bind_res (decode_blob r) (\<lambda>(rdata, r).
     bind_res (decode_blob r) (\<lambda>(cpi, r).
     Ok (\<lparr>outcome = oc, compute_units_consumed = cu, modified_input = inp, logs = lgs,
         return_data = rdata,
         cpi_return_input = (if cpi \<noteq> [] then Some cpi else None)\<rparr>, r))))))))"

definition decode :: "bytes \<Rightarrow> (decode_error, raw_result) res" where
  "decode bs =
     bind_res (rd (read_u8 (new_cursor bs))) (\<lambda>(status, r).
       if status = 0 then Err ElfDecodeFailed
       else if status = 1 then bind_res (decode_body r) (\<lambda>(x, _). Ok x)
       else Err (Malformed ''unknown status byte''))"

subsection \<open>The producer: \<open>SVM.Ffi.encodeRun\<close>\<close>

definition append_lp :: "bytes \<Rightarrow> bytes" where
  "append_lp bs = le32 (word_of_nat (length bs)) @ bs"

definition encode_outcome :: "exit_outcome \<Rightarrow> bytes" where
  "encode_outcome oc = (case oc of
      OutOfBudget \<Rightarrow> [0]
    | Halted r0 \<Rightarrow> 1 # le64 r0
    | Faulted e \<Rightarrow> 2 # le64 e)"

definition encode_elf_error :: bytes where
  "encode_elf_error = [0]"

definition encode_run :: "raw_result \<Rightarrow> bytes" where
  "encode_run s =
     [1] @ encode_outcome (outcome s) @ le64 (compute_units_consumed s)
     @ append_lp (modified_input s)
     @ le32 (word_of_nat (length (logs s))) @ concat (map append_lp (logs s))
     @ append_lp (return_data s)
     @ append_lp (case cpi_return_input s of Some b \<Rightarrow> b | None \<Rightarrow> [])"

text \<open>Lengths the 32-bit prefixes can carry, and a CPI snapshot that is not empty.\<close>

definition lp_ok :: "bytes \<Rightarrow> bool" where
  "lp_ok bs \<longleftrightarrow> length bs < 2 ^ 32"

definition encodable :: "raw_result \<Rightarrow> bool" where
  "encodable s \<longleftrightarrow> lp_ok (modified_input s) \<and> length (logs s) < 2 ^ 32
     \<and> list_all lp_ok (logs s) \<and> lp_ok (return_data s)
     \<and> (case cpi_return_input s of None \<Rightarrow> True | Some b \<Rightarrow> b \<noteq> [] \<and> lp_ok b)"

subsection \<open>Round trip\<close>

lemma unat_word32_len: "n < 2 ^ 32 \<Longrightarrow> unat (word_of_nat n :: u32) = n"
  by (simp add: unat_of_nat)

lemma decode_blob_at [wire_simps]:
  assumes "lp_ok b" "is_slice (pre @ append_lp b @ ys)"
  shows "decode_blob (at pre (append_lp b @ ys)) = Ok (b, at (pre @ append_lp b) ys)"
  using assms take_bytes_at [of b "length b" "pre @ le32 (word_of_nat (length b))" ys]
  by (simp add: decode_blob_def append_lp_def int_reads unat_word32_len lp_ok_def)

interpretation blob_codec: prefix_codec append_lp decode_blob lp_ok
  by unfold_locales (rule decode_blob_at)

lemma decode_outcome_at [wire_simps]:
  assumes "is_slice (pre @ encode_outcome oc @ ys)"
  shows "decode_outcome (at pre (encode_outcome oc @ ys)) = Ok (oc, at (pre @ encode_outcome oc) ys)"
  using assms
  by (cases oc) (simp_all add: decode_outcome_def encode_outcome_def read_u8_at int_reads)

interpretation outcome_codec: prefix_codec encode_outcome decode_outcome "\<lambda>_. True"
  by unfold_locales (rule decode_outcome_at)

lemma read_logs:
  assumes "encodable s" "is_slice (p @ concat (map append_lp (logs s)) @ ys)"
  shows "read_n decode_blob (length (logs s)) (at p (concat (map append_lp (logs s)) @ ys))
      = Ok (logs s, at (p @ concat (map append_lp (logs s))) ys)"
  using assms by (intro blob_codec.read_n_enc) (auto simp: encodable_def list_all_iff)

lemma decode_encode_run_aux:
  assumes "encodable s" "is_slice (encode_run s @ junk)"
  shows "decode (encode_run s @ junk) = Ok s"
proof -
  let ?cpi = "case cpi_return_input s of Some b \<Rightarrow> b | None \<Rightarrow> []"
  note logs = read_logs [OF assms(1)]
  have cpi: "lp_ok ?cpi" and cpi': "(if ?cpi \<noteq> [] then Some ?cpi else None) = cpi_return_input s"
    using assms(1) by (auto simp: encodable_def lp_ok_def split: option.splits)
  from assms have "lp_ok (modified_input s)" "lp_ok (return_data s)"
    "unat (word_of_nat (length (logs s)) :: u32) = length (logs s)"
    by (auto simp: encodable_def unat_word32_len)
  moreover have "is_slice (1 # encode_outcome (outcome s) @ le64 (compute_units_consumed s)
     @ append_lp (modified_input s)
     @ le32 (word_of_nat (length (logs s))) @ concat (map append_lp (logs s))
     @ append_lp (return_data s) @ append_lp ?cpi @ junk)"
    using assms(2) by (simp add: encode_run_def)
  ultimately show ?thesis
    unfolding decode_def decode_body_def new_cursor_at encode_run_def
    by (simp add: wire_simps logs cpi cpi')
qed

subsection \<open>The decoder never panics\<close>

text \<open>A read that keeps a sound cursor sound and does not panic on it.\<close>

definition safe_read :: "(cursor \<Rightarrow> ('e, 'a \<times> cursor) res) \<Rightarrow> bool" where
  "safe_read f \<longleftrightarrow> (\<forall>c. cursor_ok c \<longrightarrow> f c \<noteq> Panic \<and> (\<forall>x c'. f c = Ok (x, c') \<longrightarrow> cursor_ok c'))"

lemma safe_readD: "safe_read f \<Longrightarrow> cursor_ok c \<Longrightarrow> f c \<noteq> Panic"
  "safe_read f \<Longrightarrow> cursor_ok c \<Longrightarrow> f c = Ok (x, c') \<Longrightarrow> cursor_ok c'"
  by (auto simp: safe_read_def)

lemma safe_bind:
  assumes "safe_read f" "\<And>x. safe_read (g x)"
  shows "safe_read (\<lambda>c. bind_res (f c) (\<lambda>(x, c'). g x c'))"
  unfolding safe_read_def
proof (intro allI impI)
  fix c assume c: "cursor_ok c"
  show "bind_res (f c) (\<lambda>(x, c'). g x c') \<noteq> Panic \<and>
      (\<forall>x c'. bind_res (f c) (\<lambda>(x, c'). g x c') = Ok (x, c') \<longrightarrow> cursor_ok c')"
  proof (cases "f c")
    case (Ok p)
    obtain x c' where p: "p = (x, c')" by fastforce
    then have "cursor_ok c'" using Ok assms(1) c by (auto simp: safe_read_def)
    then show ?thesis using Ok p assms(2) [of x] by (simp add: safe_read_def)
  next
    case Panic
    then show ?thesis using assms(1) c by (simp add: safe_read_def)
  qed simp
qed

lemma safe_return: "safe_read (\<lambda>c. Ok (h x, c))" "safe_read (\<lambda>c. Err e)"
  by (simp_all add: safe_read_def)

lemma safe_rd: "safe_read (f :: cursor \<Rightarrow> (unit, 'a \<times> cursor) res) \<Longrightarrow> safe_read (\<lambda>c. rd (f c))"
proof -
  assume f: "safe_read f"
  have "rd m = Panic \<longleftrightarrow> m = Panic" "rd m = Ok y \<longleftrightarrow> m = Ok y" for m :: "(unit, 'a \<times> cursor) res" and y
    by (cases m; simp)+
  with f show ?thesis by (simp add: safe_read_def)
qed

lemma safe_take: "n < 2 ^ 63 \<Longrightarrow> safe_read (take_bytes n)"
  by (auto simp: safe_read_def take_bytes_no_panic dest: take_bytes_Ok(2))

lemma safe_ints: "safe_read read_u8" "safe_read read_u32" "safe_read read_u64"
  unfolding read_u8_def [abs_def] read_u32_def [abs_def] read_u64_def [abs_def]
  by (intro safe_bind [OF safe_take safe_return(1)]; simp)+

lemma safe_blob: "safe_read decode_blob"
proof -
  have "unat (n :: u32) < 2 ^ 63" for n
    by (rule less_trans [OF unat_lts(2)]) simp
  then show ?thesis
    unfolding decode_blob_def [abs_def]
    by (intro safe_bind safe_rd safe_take safe_ints)
qed

lemma safe_read_n: "safe_read f \<Longrightarrow> safe_read (read_n f n)"
proof (induction n)
  case 0
  then show ?case by (simp add: safe_read_def)
next
  case (Suc n)
  then show ?case
    unfolding read_n.simps(2) [abs_def]
    by (intro safe_bind [OF Suc.prems] safe_bind [OF Suc.IH] safe_return) simp_all
qed

lemma safe_if: "safe_read f \<Longrightarrow> safe_read g \<Longrightarrow> safe_read (\<lambda>c. if b then f c else g c)"
  by (cases b) simp_all

lemma safe_outcome: "safe_read decode_outcome"
  unfolding decode_outcome_def [abs_def]
  by (intro safe_bind safe_if safe_rd safe_ints safe_return)

lemma safe_body: "safe_read decode_body"
  unfolding decode_body_def [abs_def]
  by (intro safe_bind safe_rd safe_ints safe_blob safe_outcome safe_read_n safe_return)

lemma decode_never_panics_aux:
  assumes "is_slice bs"
  shows "decode bs \<noteq> Panic"
proof -
  have body: "bind_res (decode_body c) (\<lambda>(x, _). Ok x) \<noteq> Panic" if "cursor_ok c" for c
    using safe_readD(1) [OF safe_body that] by (cases "decode_body c") (auto split: prod.splits)
  have "cursor_ok c'" if "read_u8 (new_cursor bs) = Ok (x, c')" for x c'
    using safe_readD(2) [OF safe_ints(1)] assms that by (metis new_cursor_ok)
  moreover have "read_u8 (new_cursor bs) \<noteq> Panic"
    using safe_readD(1) [OF safe_ints(1)] assms by simp
  ultimately show ?thesis
    unfolding decode_def using body
    by (cases "read_u8 (new_cursor bs)") (auto split: if_splits)
qed

subsection \<open>The CPI program registry\<close>

definition registry_entry :: "pubkey \<times> bytes \<Rightarrow> bytes" where
  "registry_entry e = key_bytes (fst e) @ le32 (word_of_nat (length (snd e))) @ snd e"

definition encode_registry :: "(pubkey \<times> bytes) list \<Rightarrow> bytes" where
  "encode_registry entries =
     le32 (word_of_nat (length entries)) @ concat (map registry_entry entries)"

text \<open>\<open>SVM.Ffi.parseRegistry\<close>: each round recomputes the offset from the entries read so far.\<close>

definition registry_offset :: "(pubkey \<times> bytes) list \<Rightarrow> nat" where
  "registry_offset acc = foldl (\<lambda>o1 e. o1 + 32 + 4 + length (snd e)) 4 acc"

definition parse_registry_step :: "bytes \<Rightarrow> (pubkey \<times> bytes) list \<Rightarrow> (pubkey \<times> bytes) list" where
  "parse_registry_step blob acc =
     (let off = registry_offset acc in
      if off + 36 > length blob then acc
      else let pk = key_of_bytes (take 32 (drop off blob));
               sz = from_le (take 4 (drop (off + 32) blob)) in
           if off + 36 + sz > length blob then acc
           else acc @ [(pk, take sz (drop (off + 36) blob))])"

definition parse_registry :: "bytes \<Rightarrow> pubkey \<Rightarrow> bytes option" where
  "parse_registry blob =
     (if length blob < 4 then (\<lambda>_. None)
      else map_of ((parse_registry_step blob ^^ from_le (take 4 blob)) []))"

lemma length_registry_entry [len_simps]: "length (registry_entry e) = 36 + length (snd e)"
  by (simp add: registry_entry_def)

lemma registry_offset_eq: "registry_offset acc = 4 + length (concat (map registry_entry acc))"
proof (induction acc rule: rev_induct)
  case Nil
  then show ?case by (simp add: registry_offset_def)
next
  case (snoc e acc)
  then show ?case by (simp add: registry_offset_def len_simps)
qed

lemma parse_registry_step_next:
  assumes "blob = le32 n @ concat (map registry_entry acc) @ registry_entry e @ tl1"
    and "lp_ok (snd e)"
  shows "parse_registry_step blob acc = acc @ [e]"
proof -
  let ?off = "registry_offset acc"
  have d: "drop ?off blob = registry_entry e @ tl1"
    by (simp add: assms(1) registry_offset_eq)
  have d2: "drop (?off + k) blob = drop k (registry_entry e @ tl1)" for k
    using d by (metis drop_drop add.commute)
  have len: "length blob = ?off + length (registry_entry e) + length tl1"
    by (simp add: assms(1) registry_offset_eq)
  have pk: "key_of_bytes (take 32 (drop ?off blob)) = fst e"
    by (simp add: d registry_entry_def)
  have sz: "from_le (take 4 (drop (?off + 32) blob)) = length (snd e)"
    using assms(2)
    by (simp add: d2 registry_entry_def le32_def from_le_le_bytes unat_word32_len lp_ok_def)
  have elf: "take (length (snd e)) (drop (?off + 36) blob) = snd e"
    by (simp add: d2 registry_entry_def)
  show ?thesis
    unfolding parse_registry_step_def Let_def pk sz elf using len by (simp add: len_simps)
qed

lemma parse_registry_rounds:
  assumes "blob = le32 n @ concat (map registry_entry entries)" "\<forall>e \<in> set entries. lp_ok (snd e)"
    and "k \<le> length entries"
  shows "(parse_registry_step blob ^^ k) [] = take k entries"
  using assms(3)
proof (induction k)
  case 0
  then show ?case by simp
next
  case (Suc k)
  then have k: "k < length entries" by simp
  have "concat (map registry_entry entries) = concat (map registry_entry (take k entries))
      @ registry_entry (entries ! k) @ concat (map registry_entry (drop (Suc k) entries))"
    using id_take_nth_drop [OF k] by (metis concat.simps(2) concat_append list.map(2) map_append)
  then have "parse_registry_step blob (take k entries) = take k entries @ [entries ! k]"
    using assms(1,2) k by (intro parse_registry_step_next) auto
  then show ?case using Suc k by (simp add: take_Suc_conv_app_nth)
qed

lemma parse_encode_registry:
  assumes "length entries < 2 ^ 32" "\<forall>e \<in> set entries. lp_ok (snd e)"
  shows "parse_registry (encode_registry entries) pid = map_of entries pid"
proof -
  let ?blob = "encode_registry entries"
  have "take 4 ?blob = le32 (word_of_nat (length entries))" by (simp add: encode_registry_def)
  then have "from_le (take 4 ?blob) = length entries"
    using assms(1) by (simp add: le32_def from_le_le_bytes unat_word32_len)
  moreover have "(parse_registry_step ?blob ^^ length entries) [] = entries"
    using parse_registry_rounds [OF encode_registry_def assms(2)] by simp
  ultimately show ?thesis by (simp add: parse_registry_def encode_registry_def)
qed

subsection \<open>Properties\<close>

text \<open>C1: The Rust decoder inverts the Lean producer: for every execution summary whose blobs fit
  their 32-bit length prefixes, \<open>decode\<close> of the produced buffer is \<open>Ok\<close> of that summary, whatever
  bytes follow it in the buffer.\<close>

theorem decode_encode_run:
  assumes "encodable s" "is_slice (encode_run s @ junk)"
  shows "decode (encode_run s @ junk) = Ok s"
  using assms by (rule decode_encode_run_aux)

definition sample_summary :: raw_result where
  "sample_summary = \<lparr>outcome = Halted 7, compute_units_consumed = 150, modified_input = [1, 2, 3],
     logs = [[104, 105], []], return_data = [9], cpi_return_input = Some [8]\<rparr>"

theorem decode_encode_run_witness:
  "encodable sample_summary \<and> decode (encode_run sample_summary @ [255]) = Ok sample_summary"
proof
  show e: "encodable sample_summary" by (simp add: encodable_def sample_summary_def lp_ok_def)
  show "decode (encode_run sample_summary @ [255]) = Ok sample_summary"
    by (rule decode_encode_run [OF e])
      (simp add: is_slice_def encode_run_def sample_summary_def append_lp_def encode_outcome_def)
qed

text \<open>C28: \<open>decode\<close> is total on hostile input: on any byte slice it returns a summary or a
  \<open>DecodeError\<close>, and no
  length prefix in the buffer makes a cursor read panic (allocation failure is not modelled).\<close>

theorem decode_never_panics:
  assumes "is_slice bs"
  shows "decode bs \<noteq> Panic"
  using assms by (rule decode_never_panics_aux)

theorem decode_never_panics_witness: "decode [1, 0, 255, 255, 255] \<noteq> Panic"
  by (rule decode_never_panics) (simp add: is_slice_def)

text \<open>C29: The registry blob the host encodes is read back by the CPI lookup of the executor: the
  parsed registry maps a program id to the ELF of its first entry, and to nothing when no entry
  has that id.\<close>

theorem registry_lookup:
  assumes "length entries < 2 ^ 32" "\<forall>e \<in> set entries. lp_ok (snd e)"
  shows "parse_registry (encode_registry entries) pid = map_of entries pid"
  using assms by (rule parse_encode_registry)

theorem registry_lookup_witness:
  "parse_registry (encode_registry [(5, [1, 2]), (6, []), (5, [3])]) 5 = Some [1, 2]
   \<and> parse_registry (encode_registry [(5, [1, 2])]) 4 = None"
  by (auto simp: registry_lookup lp_ok_def)

definition documented_run :: "raw_result \<Rightarrow> bytes" where
  "documented_run s =
     [1] @ encode_outcome (outcome s) @ le64 (compute_units_consumed s)
     @ append_lp (modified_input s)
     @ le32 (word_of_nat (length (logs s))) @ concat (map append_lp (logs s))
     @ append_lp (return_data s)"

text \<open>The buffer layout written in the module comment of \<open>wire.rs\<close> and in \<open>SVM/Ffi.lean\<close>
  ends with the return data.  A buffer laid out that way, without the length-prefixed CPI snapshot
  the code reads after it, is rejected as truncated for every summary.\<close>

theorem documented_layout_rejected:
  assumes "encodable s" "is_slice (documented_run s)"
  shows "decode (documented_run s) = Err TRUNCATED"
proof -
  note logs = read_logs [OF assms(1)]
  have short: "decode_blob (at p []) = Err TRUNCATED" if "is_slice (p @ [])" for p
    using take_bytes_short [of "[]" 4 p] that by (simp add: decode_blob_def read_u32_def)
  from assms have "lp_ok (modified_input s)" "lp_ok (return_data s)"
    "unat (word_of_nat (length (logs s)) :: u32) = length (logs s)"
    by (auto simp: encodable_def unat_word32_len)
  moreover have "is_slice (1 # encode_outcome (outcome s) @ le64 (compute_units_consumed s)
     @ append_lp (modified_input s)
     @ le32 (word_of_nat (length (logs s))) @ concat (map append_lp (logs s))
     @ append_lp (return_data s) @ [])"
    using assms(2) by (simp add: documented_run_def)
  moreover have "documented_run s = 1 # encode_outcome (outcome s)
     @ le64 (compute_units_consumed s) @ append_lp (modified_input s)
     @ le32 (word_of_nat (length (logs s))) @ concat (map append_lp (logs s))
     @ append_lp (return_data s) @ []"
    by (simp add: documented_run_def)
  ultimately show ?thesis
    unfolding decode_def decode_body_def new_cursor_at
    by (simp add: wire_simps logs short del: append_Nil2)
qed

theorem documented_layout_rejected_witness:
  "decode (documented_run sample_summary) = Err TRUNCATED"
  by (rule documented_layout_rejected)
    (simp_all add: encodable_def sample_summary_def lp_ok_def is_slice_def documented_run_def
      append_lp_def encode_outcome_def)

end
