(* ===== verification/Svm_Host.thy ===== *)
theory Svm_Host
  imports Account_Checks Wire
begin

text \<open>
  The host of \<open>qedsvm-rs/src/svm.rs\<close>: program registry, compute budget, rent rules, post-state
  validation and \<open>process_instruction\<close>, with the result decoding of \<open>qedsvm-rs/src/lib.rs\<close>.  The
  Lean executor and the precompiles are reached over FFI and are arguments here (a function from
  the marshalled bytes to the returned bytes), as are the ids of \<open>solana_sdk_ids\<close> and the decoding
  \<open>ProgramError::from(u64)\<close>.  Shown: a \<open>Success\<close> conserves lamports, leaves read-only and foreign
  accounts alone and respects the rent rules when they are enforced, whatever the executor returns.
\<close>

record sdk_ids =
  sysvar_ids :: "pubkey list"
  precompile_ids :: "pubkey list"
  compute_budget_id :: pubkey
  incinerator_id :: pubkey

datatype 'pe program_result =
    Success
  | Failure u64
  | ProgramError 'pe
  | BudgetExhausted
  | VmFault u64

datatype post_state_error =
    AccountChange account_change_error
  | RentStateTransitionInvalid pubkey u64 nat u64 nat

record 'pe instruction_result =
  program_result :: "'pe program_result"
  cu_consumed :: u64
  result_logs :: "bytes list"
  result_return_data :: bytes
  resulting_accounts :: accounts
  poststate_violation :: "post_state_error option"

datatype svm_error =
    UnknownProgram pubkey
  | SerializeFailed serialize_error
  | ElfFailed
  | BufferParse deserialize_error
  | InternalWireFormat decode_error

record svm =
  programs :: "(pubkey \<times> bytes) list"
  cu_budget :: u64
  enforce_rent_state :: bool
  sysvars :: "bytes option"

text \<open>The FFI entry points, as functions from the marshalled arguments to the returned bytes.\<close>

record 'pe executor =
  run_with_registry_and_pid :: "bytes \<Rightarrow> bytes \<Rightarrow> bytes \<Rightarrow> bytes \<Rightarrow> u64 \<Rightarrow> bytes"
  run_with_sysvars :: "bytes \<Rightarrow> bytes \<Rightarrow> bytes \<Rightarrow> bytes \<Rightarrow> bytes \<Rightarrow> u64 \<Rightarrow> bytes"
  precompile_dispatch :: "bytes \<Rightarrow> bytes \<Rightarrow> bytes"
  program_error_from :: "u64 \<Rightarrow> 'pe"

definition DEFAULT_CU_BUDGET :: u64 where "DEFAULT_CU_BUDGET = 200000"
definition ERR_INVALID_POSTSTATE :: u64 where "ERR_INVALID_POSTSTATE = 0xFFFFFFFFFFFFFFFB"

subsection \<open>Configuration\<close>

definition svm_new :: svm where
  "svm_new = \<lparr>programs = [], cu_budget = DEFAULT_CU_BUDGET, enforce_rent_state = False, sysvars = None\<rparr>"

record sysvar_wire =
  sw_clock :: bytes
  sw_rent :: bytes
  sw_epoch_schedule :: bytes
  sw_epoch_rewards :: bytes
  sw_last_restart_slot :: bytes
  sw_slot_hashes :: bytes
  sw_stake_history :: bytes
  sw_total_stake :: u64
  sw_vote_stake :: "(pubkey \<times> u64) list"

definition sysvar_chunks :: "sysvar_wire \<Rightarrow> bytes list" where
  "sysvar_chunks s = [sw_clock s, sw_rent s, sw_epoch_schedule s, sw_epoch_rewards s,
     sw_last_restart_slot s, sw_slot_hashes s, sw_stake_history s]"

definition sysvar_encode :: "sysvar_wire \<Rightarrow> bytes" where
  "sysvar_encode s =
     concat (map (\<lambda>c. le32 (word_of_nat (length c)) @ c) (sysvar_chunks s))
     @ le64 (sw_total_stake s) @ le32 (word_of_nat (length (sw_vote_stake s)))
     @ concat (map (\<lambda>(k, st). key_bytes k @ le64 st) (sw_vote_stake s))"

definition with_sysvars :: "sysvar_wire \<Rightarrow> svm \<Rightarrow> svm" where
  "with_sysvars s v = v\<lparr>sysvars := Some (sysvar_encode s)\<rparr>"

definition with_cu_budget :: "u64 \<Rightarrow> svm \<Rightarrow> svm" where
  "with_cu_budget b v = v\<lparr>cu_budget := b\<rparr>"

text \<open>The effect of one instruction of the scan: \<open>Some\<close> for a well-formed \<open>SetComputeUnitLimit\<close>.\<close>

definition compute_unit_limit :: "sdk_ids \<Rightarrow> instruction \<Rightarrow> u64 option" where
  "compute_unit_limit ids ix =
     (if program_id ix \<noteq> compute_budget_id ids then None
      else if ix_data ix = [] then None
      else if ix_data ix ! 0 \<noteq> 2 then None
      else if length (ix_data ix) < 5 then None
      else Some (ucast (u32_of_le (take 4 (drop 1 (ix_data ix))))))"

definition with_compute_budget_from_instructions :: "sdk_ids \<Rightarrow> instruction list \<Rightarrow> svm \<Rightarrow> svm" where
  "with_compute_budget_from_instructions ids ixs v =
     fold (\<lambda>ix v. case compute_unit_limit ids ix of None \<Rightarrow> v | Some u \<Rightarrow> v\<lparr>cu_budget := u\<rparr>) ixs v"

definition with_rent_state_enforcement :: "bool \<Rightarrow> svm \<Rightarrow> svm" where
  "with_rent_state_enforcement e v = v\<lparr>enforce_rent_state := e\<rparr>"

text \<open>\<open>HashMap::insert\<close>; the list order stands for the map's unspecified iteration order.\<close>

definition add_program :: "pubkey \<Rightarrow> bytes \<Rightarrow> svm \<Rightarrow> svm" where
  "add_program pid elf v = v\<lparr>programs := (pid, elf) # filter (\<lambda>(p, _). p \<noteq> pid) (programs v)\<rparr>"

subsection \<open>Program results\<close>

definition vm_fault_name :: "u64 \<Rightarrow> string" where
  "vm_fault_name s =
     (if s = 0xFFFFFFFFFFFFFFFE then ''divideByZero''
      else if s = 0xFFFFFFFFFFFFFFFF then ''invalidPc''
      else if s = 0xFFFFFFFFFFFFFFFD then ''abort''
      else if s = 0xFFFFFFFFFFFFFFFC then ''accessViolation''
      else if s = 0xFFFFFFFFFFFFFFFA then ''unsupportedInstruction''
      else if s = 0xFFFFFFFFFFFFFFF9 then ''callDepthExceeded''
      else if s = 0xFFFFFFFFFFFFFFF8 then ''returnDataTooLarge''
      else if s = 0xFFFFFFFFFFFFFFF7 then ''invalidLength''
      else if s = 0xFFFFFFFFFFFFFFF6 then ''invalidAttribute''
      else if s = 0xFFFFFFFFFFFFFFF5 then ''badSeeds''
      else if s = 0xFFFFFFFFFFFFFFF4 then ''readonlyModified''
      else if s = 0xFFFFFFFFFFFFFFF3 then ''invalidRealloc''
      else if s = 0xFFFFFFFFFFFFFFF2 then ''copyOverlapping''
      else if s = 0xFFFFFFFFFFFFFFF1 then ''unalignedPointer''
      else ''unknownFault'')"

definition from_bpf_r0 :: "(u64 \<Rightarrow> 'pe) \<Rightarrow> u64 \<Rightarrow> 'pe program_result" where
  "from_bpf_r0 pe r0 =
     (if r0 = 0 then Success
      else if drop_bit 32 r0 \<noteq> 0 then ProgramError (pe r0)
      else Failure r0)"

definition outcome_result :: "(u64 \<Rightarrow> 'pe) \<Rightarrow> exit_outcome \<Rightarrow> 'pe program_result" where
  "outcome_result pe oc = (case oc of
      OutOfBudget \<Rightarrow> BudgetExhausted | Halted n \<Rightarrow> from_bpf_r0 pe n | Faulted n \<Rightarrow> VmFault n)"

definition run_precompile :: "'pe executor \<Rightarrow> pubkey \<Rightarrow> bytes \<Rightarrow> (decode_error, u64 \<times> u64) res" where
  "run_precompile ex pid ixd =
     (let bs = precompile_dispatch ex (key_bytes pid) ixd in
      if length bs \<noteq> 16 then Err (Malformed ''precompile FFI: expected 16 bytes'')
      else Ok (u64_of_le (take 8 bs), u64_of_le (take 8 (drop 8 bs))))"

definition run_buffer_with_registry_and_pid ::
  "'pe executor \<Rightarrow> bytes \<Rightarrow> bytes \<Rightarrow> bytes \<Rightarrow> pubkey \<Rightarrow> u64 \<Rightarrow> (decode_error, raw_result) res" where
  "run_buffer_with_registry_and_pid ex elf input reg pid cu =
     decode (run_with_registry_and_pid ex elf input reg (key_bytes pid) cu)"

definition run_buffer_with_sysvars ::
  "'pe executor \<Rightarrow> bytes \<Rightarrow> bytes \<Rightarrow> bytes \<Rightarrow> pubkey \<Rightarrow> bytes \<Rightarrow> u64 \<Rightarrow> (decode_error, raw_result) res" where
  "run_buffer_with_sysvars ex elf input reg pid sv cu =
     decode (run_with_sysvars ex elf input reg (key_bytes pid) sv cu)"

subsection \<open>Rent\<close>

definition saturating_add :: "u64 \<Rightarrow> u64 \<Rightarrow> u64" where
  "saturating_add a b = (if unat a + unat b \<ge> 2 ^ 64 then - 1 else a + b)"

definition saturating_mul :: "u64 \<Rightarrow> u64 \<Rightarrow> u64" where
  "saturating_mul a b = (if unat a * unat b \<ge> 2 ^ 64 then - 1 else a * b)"

definition RENT_LAMPORTS_PER_BYTE_EXEMPT :: u64 where "RENT_LAMPORTS_PER_BYTE_EXEMPT = 6960"
definition ACCOUNT_STORAGE_OVERHEAD :: u64 where "ACCOUNT_STORAGE_OVERHEAD = 128"

definition rent_minimum_balance :: "nat \<Rightarrow> u64" where
  "rent_minimum_balance data_len =
     saturating_mul (saturating_add ACCOUNT_STORAGE_OVERHEAD (word_of_nat data_len)) RENT_LAMPORTS_PER_BYTE_EXEMPT"

datatype rent_state = Uninitialized | RentPaying u64 nat | RentExempt

definition get_account_rent_state :: "u64 \<Rightarrow> nat \<Rightarrow> rent_state" where
  "get_account_rent_state lam data_size =
     (if lam = 0 then Uninitialized
      else if lam \<ge> rent_minimum_balance data_size then RentExempt
      else RentPaying lam data_size)"

definition rent_transition_allowed :: "rent_state \<Rightarrow> rent_state \<Rightarrow> bool" where
  "rent_transition_allowed pre post = (case post of
      Uninitialized \<Rightarrow> True
    | RentExempt \<Rightarrow> True
    | RentPaying post_lam post_size \<Rightarrow> (case pre of
          RentPaying pre_lam pre_size \<Rightarrow> post_size = pre_size \<and> post_lam \<le> pre_lam
        | _ \<Rightarrow> False))"

subsection \<open>Post-state validation\<close>

definition change_error_of_code :: "u64 \<Rightarrow> (unit, account_change_error option) res" where
  "change_error_of_code c =
     (if c = 0 then Ok None
      else if c = 1 then Ok (Some ExternalAccountLamportSpend)
      else if c = 2 then Ok (Some ReadonlyLamportChange)
      else if c = 3 then Ok (Some InvalidRealloc)
      else if c = 4 then Ok (Some ReadonlyDataModified)
      else if c = 5 then Ok (Some ExternalAccountDataModified)
      else if c = 6 then Ok (Some ModifiedProgramId)
      else if c = 7 then Ok (Some UnbalancedInstruction)
      else Panic)"

fun check_rent :: "sdk_ids \<Rightarrow> accounts \<Rightarrow> accounts \<Rightarrow> (post_state_error, unit) res" where
  "check_rent ids ((_, a) # pre) ((pk, b) # post) =
     (if pk = incinerator_id ids then check_rent ids pre post
      else if \<not> rent_transition_allowed (get_account_rent_state (lamports a) (length (data a)))
                  (get_account_rent_state (lamports b) (length (data b)))
      then Err (RentStateTransitionInvalid pk (lamports a) (length (data a)) (lamports b) (length (data b)))
      else check_rent ids pre post)"
| "check_rent ids _ _ = Ok ()"

text \<open>The inner \<open>Err ()\<close> cannot occur: encoding panics or succeeds.\<close>

definition lift_panic :: "(unit, 'a) res \<Rightarrow> ('e, 'a) res" where
  "lift_panic m = (case m of Ok x \<Rightarrow> Ok x | Err _ \<Rightarrow> Panic | Panic \<Rightarrow> Panic)"

definition validate_post_state :: "sdk_ids \<Rightarrow> instruction \<Rightarrow> accounts \<Rightarrow> accounts \<Rightarrow> accounts \<Rightarrow> u64 list
    \<Rightarrow> bool \<Rightarrow> (post_state_error, unit) res" where
  "validate_post_state ids ix pre cpi_return post raws enforce =
     bind_res
       (if pre \<noteq> [] then
          bind_res (lift_panic (encode_account_changes ix pre cpi_return post raws)) (\<lambda>wire.
          bind_res (lift_panic (change_error_of_code (check_account_changes wire))) (\<lambda>e.
          case e of None \<Rightarrow> Ok () | Some e \<Rightarrow> Err (AccountChange e)))
        else Ok ())
       (\<lambda>_. if enforce then check_rent ids pre post else Ok ())"

subsection \<open>Processing an instruction\<close>

definition is_sysvar_id :: "sdk_ids \<Rightarrow> pubkey \<Rightarrow> bool" where
  "is_sysvar_id ids pk \<longleftrightarrow> pk \<in> set (sysvar_ids ids)"

definition ix_accounts_writable_sysvar :: "sdk_ids \<Rightarrow> instruction \<Rightarrow> pubkey option" where
  "ix_accounts_writable_sysvar ids ix =
     map_option meta_key (find (\<lambda>m. is_writable m \<and> is_sysvar_id ids (meta_key m)) (ix_accounts ix))"

definition is_precompile :: "sdk_ids \<Rightarrow> pubkey \<Rightarrow> bool" where
  "is_precompile ids pid \<longleftrightarrow> pid \<in> set (precompile_ids ids)"

definition registry_blob :: "svm \<Rightarrow> pubkey \<Rightarrow> bytes" where
  "registry_blob v pid =
     (let entries = filter (\<lambda>(p, _). p \<noteq> pid) (programs v) in
      if entries = [] then [] else encode_registry entries)"

definition wire_svm_error :: "decode_error \<Rightarrow> svm_error" where
  "wire_svm_error e = (case e of ElfDecodeFailed \<Rightarrow> ElfFailed | other \<Rightarrow> InternalWireFormat other)"

definition run_program :: "'pe executor \<Rightarrow> svm \<Rightarrow> bytes \<Rightarrow> bytes \<Rightarrow> pubkey \<Rightarrow> (svm_error, raw_result) res" where
  "run_program ex v elf input pid =
     map_err wire_svm_error (case sysvars v of
        Some sv \<Rightarrow> run_buffer_with_sysvars ex elf input (registry_blob v pid) pid sv (cu_budget v)
      | None \<Rightarrow> run_buffer_with_registry_and_pid ex elf input (registry_blob v pid) pid (cu_budget v))"

text \<open>The part of \<open>process_instruction\<close> after the executor has returned.\<close>

definition finish_instruction :: "'pe executor \<Rightarrow> sdk_ids \<Rightarrow> svm \<Rightarrow> instruction \<Rightarrow> accounts \<Rightarrow> accounts \<Rightarrow> raw_result
    \<Rightarrow> (svm_error, 'pe instruction_result) res" where
  "finish_instruction ex ids v ix accs canon raw =
     (let pr = outcome_result (program_error_from ex) (outcome raw) in
      bind_res (if accs = [] \<and> ix_accounts ix = [] then Ok ([], [])
                else map_err BufferParse (read_account_writes (modified_input raw) ix accs)) (\<lambda>(res, raws).
      bind_res (case cpi_return_input raw of
                  Some inp \<Rightarrow> bind_res (map_err BufferParse (read_account_writes inp ix accs)) (\<lambda>(a, _). Ok (Some a))
                | None \<Rightarrow> Ok None) (\<lambda>cpi.
      bind_res (if pr = Success then
                  (case validate_post_state ids ix canon (case cpi of Some a \<Rightarrow> a | None \<Rightarrow> canon) res raws
                          (enforce_rent_state v) of
                     Ok _ \<Rightarrow> Ok (pr, None)
                   | Err e \<Rightarrow> Ok (Failure ERR_INVALID_POSTSTATE, Some e)
                   | Panic \<Rightarrow> Panic)
                else Ok (pr, None)) (\<lambda>(pr, violation).
      Ok \<lparr>program_result = pr, cu_consumed = compute_units_consumed raw, result_logs = logs raw,
          result_return_data = return_data raw, resulting_accounts = res, poststate_violation = violation\<rparr>))))"

definition process_instruction :: "'pe executor \<Rightarrow> sdk_ids \<Rightarrow> svm \<Rightarrow> instruction \<Rightarrow> accounts
    \<Rightarrow> (svm_error, 'pe instruction_result) res" where
  "process_instruction ex ids v ix accs =
     (if is_precompile ids (program_id ix) then
        bind_res (map_err InternalWireFormat (run_precompile ex (program_id ix) (ix_data ix))) (\<lambda>(r0, cu).
        Ok \<lparr>program_result = from_bpf_r0 (program_error_from ex) r0, cu_consumed = cu, result_logs = [],
            result_return_data = [], resulting_accounts = accs, poststate_violation = None\<rparr>)
      else
        bind_res (ok_or (UnknownProgram (program_id ix)) (map_of (programs v) (program_id ix))) (\<lambda>elf.
        if ix_accounts_writable_sysvar ids ix \<noteq> None then
          Ok \<lparr>program_result = Failure ERR_INVALID_POSTSTATE, cu_consumed = 0, result_logs = [],
              result_return_data = [], resulting_accounts = accs, poststate_violation = None\<rparr>
        else
          bind_res (map_err SerializeFailed (accounts_for_instruction ix accs)) (\<lambda>canon.
          bind_res (map_err SerializeFailed (serialize_parameters ix accs (program_id ix))) (\<lambda>input.
          bind_res (run_program ex v elf input (program_id ix)) (\<lambda>raw.
          finish_instruction ex ids v ix accs canon raw)))))"

subsection \<open>Validation decides by the account-change rules\<close>

lemma change_error_of_code_inverse [simp]: "change_error_of_code (change_error_code e) = Ok (Some e)"
  by (cases e) (simp_all add: change_error_code_def change_error_of_code_def)

lemma validate_post_state_eq:
  assumes "aligned ix entry pre post raws" "entry \<noteq> []"
  shows "validate_post_state ids ix entry pre post raws enforce =
    (case post_instruction_check (program_id ix) (changes ix entry pre post raws) of
       Err e \<Rightarrow> Err (AccountChange e)
     | Ok _ \<Rightarrow> (if enforce then check_rent ids entry post else Ok ())
     | Panic \<Rightarrow> Panic)"
proof -
  obtain wire where w: "encode_account_changes ix entry pre post raws = Ok wire"
    and c: "check_account_changes wire = (case post_instruction_check (program_id ix) (changes ix entry pre post raws) of
        Ok _ \<Rightarrow> 0 | Err e \<Rightarrow> change_error_code e | Panic \<Rightarrow> 255)"
    using check_encoded_changes [OF assms(1)] by blast
  have zero: "change_error_of_code 0 = Ok None" by (simp add: change_error_of_code_def)
  show ?thesis
    using assms(2) post_check_no_panic [of "program_id ix" "changes ix entry pre post raws"]
    by (cases "post_instruction_check (program_id ix) (changes ix entry pre post raws)")
      (simp_all add: validate_post_state_def w c lift_panic_def zero)
qed

definition in_memory :: "accounts \<Rightarrow> bool" where
  "in_memory accs \<longleftrightarrow> list_all (\<lambda>e. length (data (snd e)) < 2 ^ 63) accs"

lemma in_memory_find: "in_memory accs \<Longrightarrow> find_account k accs = Some a \<Longrightarrow> length (data a) < 2 ^ 63"
  by (auto simp: in_memory_def list_all_iff find_account_map_of dest!: map_of_SomeD)

lemma read_count: "read_account_writes b ix pre = Ok x \<Longrightarrow> length (ix_accounts ix) < 2 ^ 64"
proof -
  assume "read_account_writes b ix pre = Ok x"
  then obtain n :: u64 where "length (ix_accounts ix) = unat n"
    by (auto simp: read_account_writes_def bind_res_eq_Ok Let_def split: if_splits) (metis)
  then show ?thesis using unat_lts(3) [of n] by simp
qed

lemma read_short_data:
  assumes "read_account_writes b ix accs = Ok (res, raws)" "in_memory accs"
  shows "short_data res" "length res = length (ix_accounts ix)" "length raws = length (ix_accounts ix)"
proof -
  obtain bf where sh: "length res = length (ix_accounts ix)" "length raws = length (ix_accounts ix)"
    "\<And>i. i < length (ix_accounts ix) \<Longrightarrow> fst (res ! i) = meta_key (ix_accounts ix ! i)
        \<and> bf ! dm.origin (ix_accounts ix) i = Some (snd (res ! i), raws ! i)
        \<and> inherits accs (meta_key (ix_accounts ix ! i)) (snd (res ! i)) (raws ! i)"
    using read_writes_shape [OF assms(1)] by metis
  show "length res = length (ix_accounts ix)" "length raws = length (ix_accounts ix)" by (rule sh)+
  have "length (data (snd (res ! i))) < 2 ^ 64" if i: "i < length res" for i
  proof -
    obtain p where p: "find_account (meta_key (ix_accounts ix ! i)) accs = Some p"
      "length (data (snd (res ! i))) \<le> data_room p"
      using sh(3) [of i] i sh(1) by (auto simp: inherits_def split: option.splits)
    then show ?thesis
      using in_memory_find [OF assms(2) p(1)] by (simp add: data_room_def MAX_PERMITTED_DATA_INCREASE_def)
  qed
  then show "short_data res" by (simp add: short_data_def list_all_length)
qed

lemma canonical_short_data:
  assumes "in_memory accs" "\<forall>m \<in> set ms. find_account (meta_key m) accs \<noteq> None"
  shows "short_data (canonical accs ms)"
proof -
  have "length (data (the (find_account (meta_key m) accs))) < 2 ^ 64" if "m \<in> set ms" for m
    using in_memory_find [OF assms(1)] assms(2) that by fastforce
  then show ?thesis by (simp add: short_data_def list_all_iff canonical_def)
qed

text \<open>The states a \<open>Success\<close> was judged against: the entry state, or the last CPI return.\<close>

definition judged_pre :: "instruction \<Rightarrow> accounts \<Rightarrow> accounts \<Rightarrow> raw_result \<Rightarrow> accounts" where
  "judged_pre ix accs canon raw = (case cpi_return_input raw of
      None \<Rightarrow> canon
    | Some inp \<Rightarrow> (case read_account_writes inp ix accs of Ok (a, _) \<Rightarrow> a | _ \<Rightarrow> canon))"

lemma finish_success:
  assumes "finish_instruction ex ids v ix accs canon raw = Ok r" "program_result r = Success"
    and "accounts_for_instruction ix accs = Ok canon" "in_memory accs" "ix_accounts ix \<noteq> []"
  obtains raws where "read_account_writes (modified_input raw) ix accs = Ok (resulting_accounts r, raws)"
    "aligned ix canon (judged_pre ix accs canon raw) (resulting_accounts r) raws"
    "post_instruction_check (program_id ix)
       (changes ix canon (judged_pre ix accs canon raw) (resulting_accounts r) raws) = Ok ()"
    "enforce_rent_state v \<Longrightarrow> check_rent ids canon (resulting_accounts r) = Ok ()"
proof -
  have canon: "canon = canonical accs (ix_accounts ix)"
    and found: "\<forall>m \<in> set (ix_accounts ix). find_account (meta_key m) accs \<noteq> None"
    using assms(3) by (auto simp: accounts_for_instruction_eq split: if_splits)
  from assms(1,5) obtain res raws where rd: "read_account_writes (modified_input raw) ix accs = Ok (res, raws)"
    by (auto simp: finish_instruction_def Let_def bind_res_eq_Ok split: if_splits)
  let ?pre = "judged_pre ix accs canon raw"
  have cpi: "(case cpi_return_input raw of
        Some inp \<Rightarrow> bind_res (map_err BufferParse (read_account_writes inp ix accs)) (\<lambda>(a, _). Ok (Some a))
      | None \<Rightarrow> Ok None) = Ok c \<Longrightarrow> (case c of Some a \<Rightarrow> a | None \<Rightarrow> canon) = ?pre" for c
    by (auto simp: judged_pre_def bind_res_eq_Ok split: option.splits)
  from assms(1,2,5) rd have res: "res = resulting_accounts r"
    and val: "validate_post_state ids ix canon ?pre res raws (enforce_rent_state v) = Ok ()"
    by (auto simp: finish_instruction_def Let_def bind_res_eq_Ok dest!: cpi split: if_splits res.splits)
  have pre: "short_data ?pre \<and> length ?pre = length (ix_accounts ix)"
    using read_short_data [OF _ assms(4)] canonical_short_data [OF assms(4) found]
    by (auto simp: judged_pre_def canon canonical_def split: option.splits res.splits)
  have al: "aligned ix canon ?pre res raws"
    using read_short_data [OF rd assms(4)] canonical_short_data [OF assms(4) found] pre read_count [OF rd]
    by (simp add: aligned_def canon canonical_def)
  moreover have "canon \<noteq> []" using assms(5) by (simp add: canon canonical_def)
  ultimately have "(case post_instruction_check (program_id ix) (changes ix canon ?pre res raws) of
       Err e \<Rightarrow> Err (AccountChange e)
     | Ok _ \<Rightarrow> (if enforce_rent_state v then check_rent ids canon res else Ok ())
     | Panic \<Rightarrow> Panic) = Ok ()"
    using val validate_post_state_eq by metis
  then have "post_instruction_check (program_id ix) (changes ix canon ?pre res raws) = Ok ()"
    "enforce_rent_state v \<Longrightarrow> check_rent ids canon res = Ok ()"
    by (auto split: res.splits)
  with that rd al res show ?thesis by blast
qed

subsection \<open>What acceptance means for the accounts\<close>

lemma unique_changes_at:
  assumes "c \<in> set cs"
  obtains c' where "c' \<in> set (unique_changes cs)" "ch_key c' = ch_key c"
    "ch_writable c' \<longleftrightarrow> (\<exists>r \<in> set cs. ch_key r = ch_key c \<and> ch_writable r)"
    "\<exists>f \<in> set cs. ch_key f = ch_key c \<and> ch_entry c' = ch_entry f \<and> ch_pre c' = ch_pre f \<and> ch_post c' = ch_post f"
proof -
  have "ch_key c \<in> ch_key ` set (firsts cs)" using firsts_keys [of cs] assms by simp
  then obtain f where f: "f \<in> set (firsts cs)" "ch_key f = ch_key c" by (auto simp: image_bex)
  then have "merged cs f \<in> set (unique_changes cs)" by (simp add: unique_changes_eq)
  moreover have "f \<in> set cs" using f(1) firsts_keys [of cs] by auto
  ultimately show ?thesis using that [of "merged cs f"] f by (auto simp: merged_def list_ex_iff)
qed

lemma prefix_same: "\<not> prefix_differs xs ys \<Longrightarrow> length xs = length ys \<Longrightarrow> xs = ys"
  by (induction xs ys rule: prefix_differs.induct) (auto split: if_splits)

lemma length_changes [simp]: "length (changes ix entry pre post raws) = length entry"
  by (simp add: changes_def)

lemma changes_nth: "i < length entry \<Longrightarrow> changes ix entry pre post raws ! i = change_of (ix_accounts ix ! i)
    (fst (entry ! i)) (snd (entry ! i)) (snd (pre ! i)) (snd (post ! i)) (raws ! i)"
  by (simp add: changes_def)

text \<open>References to one key agree on every state, so a rule that the key's merged change passed
  speaks about each of its references.\<close>

definition consistent :: "instruction \<Rightarrow> accounts \<Rightarrow> accounts \<Rightarrow> accounts \<Rightarrow> u64 list \<Rightarrow> bool" where
  "consistent ix entry pre post raws \<longleftrightarrow> length entry = length (ix_accounts ix)
     \<and> (\<forall>i < length (ix_accounts ix). fst (entry ! i) = meta_key (ix_accounts ix ! i))
     \<and> (\<forall>i < length (ix_accounts ix). \<forall>j < length (ix_accounts ix).
          meta_key (ix_accounts ix ! i) = meta_key (ix_accounts ix ! j) \<longrightarrow>
          snd (entry ! i) = snd (entry ! j) \<and> snd (pre ! i) = snd (pre ! j)
          \<and> snd (post ! i) = snd (post ! j) \<and> raws ! i = raws ! j)"

lemma consistentD:
  assumes "consistent ix entry pre post raws"
  shows "length entry = length (ix_accounts ix)"
    and "i < length (ix_accounts ix) \<Longrightarrow> fst (entry ! i) = meta_key (ix_accounts ix ! i)"
    and "i < length (ix_accounts ix) \<Longrightarrow> j < length (ix_accounts ix) \<Longrightarrow>
        meta_key (ix_accounts ix ! i) = meta_key (ix_accounts ix ! j) \<Longrightarrow>
        snd (entry ! i) = snd (entry ! j) \<and> snd (pre ! i) = snd (pre ! j)
        \<and> snd (post ! i) = snd (post ! j) \<and> raws ! i = raws ! j"
  using assms unfolding consistent_def by blast+

text \<open>The change of reference \<open>i\<close> with its key's merged writable flag.\<close>

definition key_writable :: "instruction \<Rightarrow> nat \<Rightarrow> bool" where
  "key_writable ix i \<longleftrightarrow>
     list_ex (\<lambda>m. meta_key m = meta_key (ix_accounts ix ! i) \<and> is_writable m) (ix_accounts ix)"

lemma merged_ref:
  assumes cons: "consistent ix entry pre post raws" and i: "i < length (ix_accounts ix)"
  shows "(change_of (ix_accounts ix ! i) (meta_key (ix_accounts ix ! i)) (snd (entry ! i)) (snd (pre ! i))
       (snd (post ! i)) (raws ! i))\<lparr>ch_writable := key_writable ix i\<rparr>
     \<in> set (unique_changes (changes ix entry pre post raws))"
proof -
  let ?ms = "ix_accounts ix" and ?refs = "changes ix entry pre post raws"
  note cd = consistentD [OF cons]
  let ?c = "\<lambda>j. change_of (?ms ! j) (meta_key (?ms ! j)) (snd (entry ! j)) (snd (pre ! j)) (snd (post ! j)) (raws ! j)"
  have nth: "?refs ! j = ?c j" if "j < length ?ms" for j
    using that cd(1,2) by (simp add: changes_nth)
  have len: "length ?refs = length ?ms" using cd(1) by simp
  have inref: "?c i \<in> set ?refs" using i len nth [OF i] by (metis nth_mem)
  obtain c' where c': "c' \<in> set (unique_changes ?refs)" "ch_key c' = ch_key (?c i)"
    "ch_writable c' \<longleftrightarrow> (\<exists>r \<in> set ?refs. ch_key r = ch_key (?c i) \<and> ch_writable r)"
    "\<exists>f \<in> set ?refs. ch_key f = ch_key (?c i) \<and> ch_entry c' = ch_entry f \<and> ch_pre c' = ch_pre f \<and> ch_post c' = ch_post f"
    using unique_changes_at [OF inref] by blast
  from c'(4) obtain j where j: "j < length ?ms" "ch_key (?c j) = ch_key (?c i)"
    "ch_entry c' = ch_entry (?c j)" "ch_pre c' = ch_pre (?c j)" "ch_post c' = ch_post (?c j)"
    unfolding bex_set_nth using len nth by auto
  then have states: "ch_entry c' = ch_entry (?c i)" "ch_pre c' = ch_pre (?c i)" "ch_post c' = ch_post (?c i)"
    using cd(3) [OF j(1) i] by (simp_all add: change_of_def)
  have "ch_writable c' = key_writable ix i"
    unfolding c'(3) key_writable_def list_ex_iff bex_set_nth using len nth i by (auto simp: change_of_def)
  with c'(2) states have "c' = (?c i)\<lparr>ch_writable := key_writable ix i\<rparr>" by simp
  with c'(1) show ?thesis by simp
qed

lemma lamports_by_key:
  assumes cons: "consistent ix entry pre post raws"
    and ok: "post_instruction_check pid (changes ix entry pre post raws) = Ok ()"
    and F: "\<And>i. i < length (ix_accounts ix) \<Longrightarrow> unat (lamports (snd (entry ! i))) = F (meta_key (ix_accounts ix ! i))"
    and G: "\<And>i. i < length (ix_accounts ix) \<Longrightarrow> unat (lamports (snd (post ! i))) = G (meta_key (ix_accounts ix ! i))"
  shows "(\<Sum>k \<in> meta_key ` set (ix_accounts ix). F k) = (\<Sum>k \<in> meta_key ` set (ix_accounts ix). G k)"
proof -
  let ?ms = "ix_accounts ix" and ?refs = "changes ix entry pre post raws"
  let ?fs = "firsts ?refs"
  note cd = consistentD [OF cons]
  have sub: "set ?fs \<subseteq> set ?refs" and dis: "distinct (map ch_key ?fs)" and keys: "ch_key ` set ?fs = ch_key ` set ?refs"
    using firsts_keys [of ?refs] by blast+
  have "ch_key ` set ?refs = meta_key ` set ?ms"
    unfolding image_set_nth using cd(1,2) by (intro image_cong) (simp_all add: changes_nth change_of_def)
  then have ks: "set (map ch_key ?fs) = meta_key ` set ?ms" using keys by simp
  have "as_lamports (ch_entry c) = F (ch_key c) \<and> aw_lamports (ch_post c) = G (ch_key c)" if "c \<in> set ?fs" for c
  proof -
    from that sub obtain i where "i < length ?ms" "c = ?refs ! i" using cd(1) by (force simp: in_set_conv_nth)
    then show ?thesis using F G cd(1,2) by (simp add: changes_nth change_of_def state_of_def)
  qed
  then have "entry_lamports (unique_changes ?refs) = sum_list (map F (map ch_key ?fs))"
    "post_lamports (unique_changes ?refs) = sum_list (map G (map ch_key ?fs))"
    unfolding entry_lamports_def post_lamports_def unique_changes_eq map_map
    by (auto intro!: arg_cong [of _ _ sum_list] simp: merged_def)
  moreover have "post_lamports (unique_changes ?refs) = entry_lamports (unique_changes ?refs)"
    using ok by (simp add: post_check_Ok)
  ultimately show ?thesis
    using sum_list_distinct_conv_sum_set [OF dis] ks by metis
qed

lemma change_of_fields [simp]:
  "ch_key (change_of m k e p q raw) = k" "ch_pre (change_of m k e p q raw) = state_of e p"
  "ch_entry (change_of m k e p q raw) = state_of e e"
  "ch_post (change_of m k e p q raw) = \<lparr>aw_owner = owner q, aw_lamports = unat (lamports q),
     aw_data_len = unat raw, aw_data = data q\<rparr>"
  "as_owner (state_of e p) = owner p" "as_lamports (state_of e p) = unat (lamports p)"
  "as_data (state_of e p) = data p"
  by (simp_all add: change_of_def state_of_def)

text \<open>What a reference's key must satisfy before its owner, data or lamports may change.\<close>

lemma accepted_reference:
  assumes cons: "consistent ix entry pre post raws"
    and ok: "post_instruction_check pid (changes ix entry pre post raws) = Ok ()"
    and i: "i < length (ix_accounts ix)"
    and room: "length (data (snd (post ! i))) = min (unat (raws ! i)) room" "length (data (snd (pre ! i))) \<le> room"
  shows "key_writable ix i \<and> owner (snd (pre ! i)) = pid
     \<or> owner (snd (post ! i)) = owner (snd (pre ! i)) \<and> data (snd (post ! i)) = data (snd (pre ! i))"
    and "lamports (snd (post ! i)) \<noteq> lamports (snd (pre ! i)) \<Longrightarrow> key_writable ix i"
    and "lamports (snd (post ! i)) < lamports (snd (pre ! i)) \<Longrightarrow> owner (snd (pre ! i)) = pid"
    and "unat (raws ! i) \<le> length (data (snd (entry ! i))) + MAX_PERMITTED_DATA_INCREASE"
proof -
  let ?c = "(change_of (ix_accounts ix ! i) (meta_key (ix_accounts ix ! i)) (snd (entry ! i)) (snd (pre ! i))
       (snd (post ! i)) (raws ! i))\<lparr>ch_writable := key_writable ix i\<rparr>"
  have w: "check_data_write pid ?c = Ok ()" and a: "check_account pid ?c = Ok ()"
    using ok merged_ref [OF cons i] by (auto simp: post_check_Ok)
  from a have l: "check_lamports pid ?c = Ok ()" and d: "check_data_len pid ?c = Ok ()" and ow: "check_owner pid ?c = Ok ()"
    by (auto simp: check_account_def bind_res_eq_Ok)
  show "lamports (snd (post ! i)) \<noteq> lamports (snd (pre ! i)) \<Longrightarrow> key_writable ix i"
    using l by (auto simp: check_lamports_def word_unat_eq_iff split: if_splits)
  show "lamports (snd (post ! i)) < lamports (snd (pre ! i)) \<Longrightarrow> owner (snd (pre ! i)) = pid"
    using l by (auto simp: check_lamports_def owned_def word_less_nat_alt split: if_splits)
  show "unat (raws ! i) \<le> length (data (snd (entry ! i))) + MAX_PERMITTED_DATA_INCREASE"
    using d by (auto simp: check_data_len_def split: if_splits)
  show "key_writable ix i \<and> owner (snd (pre ! i)) = pid
     \<or> owner (snd (post ! i)) = owner (snd (pre ! i)) \<and> data (snd (post ! i)) = data (snd (pre ! i))"
  proof (cases "key_writable ix i \<and> owner (snd (pre ! i)) = pid")
    case False
    then have "owner (snd (post ! i)) = owner (snd (pre ! i))"
      using ow by (auto simp: check_owner_def owned_def split: if_splits)
    moreover have "unat (raws ! i) = length (data (snd (pre ! i)))"
      using d False by (auto simp: check_data_len_def can_data_be_changed_def owned_def split: if_splits)
    then have "length (data (snd (pre ! i))) = length (data (snd (post ! i)))" using room by simp
    moreover have "\<not> prefix_differs (data (snd (pre ! i))) (data (snd (post ! i)))"
      using w False by (auto simp: check_data_write_def can_data_be_changed_def owned_def split: if_splits)
    ultimately show ?thesis using prefix_same by metis
  qed simp
qed

lemma read_same:
  assumes "read_account_writes b ix accs = Ok (res, raws)"
    and "i < length (ix_accounts ix)" "j < length (ix_accounts ix)"
    and "meta_key (ix_accounts ix ! i) = meta_key (ix_accounts ix ! j)"
  shows "snd (res ! i) = snd (res ! j) \<and> raws ! i = raws ! j"
proof -
  let ?ms = "ix_accounts ix"
  obtain bf where sh: "\<And>k. k < length ?ms \<Longrightarrow> fst (res ! k) = meta_key (?ms ! k)
        \<and> bf ! dm.origin ?ms k = Some (snd (res ! k), raws ! k)
        \<and> inherits accs (meta_key (?ms ! k)) (snd (res ! k)) (raws ! k)"
    using read_writes_shape [OF assms(1)] by metis
  have "dm.origin ?ms i = dm.origin ?ms j" using dm.origin_eq_iff [OF assms(2,3)] assms(4) by simp
  then show ?thesis using sh [OF assms(2)] sh [OF assms(3)] by simp
qed

lemma finish_consistent:
  assumes "read_account_writes (modified_input raw) ix accs = Ok (res, raws)"
    and "accounts_for_instruction ix accs = Ok canon"
  shows "consistent ix canon (judged_pre ix accs canon raw) res raws"
proof -
  let ?ms = "ix_accounts ix"
  have canon: "canon = canonical accs ?ms"
    using assms(2) by (auto simp: accounts_for_instruction_eq split: if_splits)
  have c: "snd (canon ! i) = snd (canon ! j)"
    if "i < length ?ms" "j < length ?ms" "meta_key (?ms ! i) = meta_key (?ms ! j)" for i j
    using that by (simp add: canon canonical_nth)
  have "snd (judged_pre ix accs canon raw ! i) = snd (judged_pre ix accs canon raw ! j)"
    if ij: "i < length ?ms" "j < length ?ms" "meta_key (?ms ! i) = meta_key (?ms ! j)" for i j
  proof (cases "\<exists>inp p rs. cpi_return_input raw = Some inp \<and> read_account_writes inp ix accs = Ok (p, rs)")
    case True
    then obtain inp p rs where "cpi_return_input raw = Some inp" and rd: "read_account_writes inp ix accs = Ok (p, rs)"
      by blast
    then have "judged_pre ix accs canon raw = p" by (simp add: judged_pre_def)
    then show ?thesis using read_same [OF rd ij] by simp
  next
    case False
    then have "judged_pre ix accs canon raw = canon" by (auto simp: judged_pre_def split: option.splits res.splits)
    then show ?thesis using c [OF ij] by simp
  qed
  moreover have "length canon = length ?ms" by (simp add: canon canonical_def)
  moreover have "fst (canon ! i) = meta_key (?ms ! i)" if "i < length ?ms" for i
    using that by (simp add: canon canonical_nth)
  ultimately show ?thesis using c read_same [OF assms(1)] unfolding consistent_def by blast
qed

lemma read_fields:
  assumes "read_account_writes b ix accs = Ok (res, raws)" "i < length (ix_accounts ix)"
  obtains p where "find_account (meta_key (ix_accounts ix ! i)) accs = Some p"
    "fst (res ! i) = meta_key (ix_accounts ix ! i)"
    "executable (snd (res ! i)) = executable p" "rent_epoch (snd (res ! i)) = rent_epoch p"
    "length (data (snd (res ! i))) = min (unat (raws ! i)) (data_room p)"
proof -
  obtain bf where "fst (res ! i) = meta_key (ix_accounts ix ! i)
      \<and> inherits accs (meta_key (ix_accounts ix ! i)) (snd (res ! i)) (raws ! i)"
    using read_writes_shape [OF assms(1)] assms(2) by metis
  with that show ?thesis by (auto simp: inherits_def split: option.splits)
qed

lemma find_account_nth:
  assumes "i < length ms" "length res = length ms"
    and "\<And>j. j < length ms \<Longrightarrow> fst (res ! j) = meta_key (ms ! j)"
    and "\<And>j. j < length ms \<Longrightarrow> meta_key (ms ! i) = meta_key (ms ! j) \<Longrightarrow> snd (res ! i) = snd (res ! j)"
  shows "find_account (meta_key (ms ! i)) res = Some (snd (res ! i))"
proof -
  have "(meta_key (ms ! i), snd (res ! i)) \<in> set res"
    using assms(1-3) by (metis nth_mem prod.collapse)
  then obtain a where a: "map_of res (meta_key (ms ! i)) = Some a" by (metis map_of_eq_None_iff not_None_eq imageI fst_conv)
  then have "(meta_key (ms ! i), a) \<in> set res" by (rule map_of_SomeD)
  then obtain j where "j < length ms" "res ! j = (meta_key (ms ! i), a)"
    using assms(2) by (metis in_set_conv_nth)
  then show ?thesis using assms(3,4) [of j] a by (simp add: find_account_map_of)
qed

text \<open>The lamports of the distinct keys an instruction references.\<close>

definition total_lamports :: "instruction \<Rightarrow> accounts \<Rightarrow> nat" where
  "total_lamports ix accs =
     (\<Sum>k \<in> meta_key ` set (ix_accounts ix). unat (lamports (the (find_account k accs))))"

lemma finish_conserves:
  assumes "finish_instruction ex ids v ix accs canon raw = Ok r" "program_result r = Success"
    and "accounts_for_instruction ix accs = Ok canon" "in_memory accs"
  shows "total_lamports ix (resulting_accounts r) = total_lamports ix accs"
proof (cases "ix_accounts ix = []")
  case True
  then show ?thesis by (simp add: total_lamports_def)
next
  case False
  let ?ms = "ix_accounts ix" and ?res = "resulting_accounts r"
  obtain raws where rd: "read_account_writes (modified_input raw) ix accs = Ok (?res, raws)"
    and ok: "post_instruction_check (program_id ix) (changes ix canon (judged_pre ix accs canon raw) ?res raws) = Ok ()"
    using finish_success [OF assms False] by blast
  have canon: "canon = canonical accs ?ms"
    using assms(3) by (auto simp: accounts_for_instruction_eq split: if_splits)
  have "unat (lamports (snd (?res ! i))) = unat (lamports (the (find_account (meta_key (?ms ! i)) ?res)))"
    if i: "i < length ?ms" for i
  proof -
    have "find_account (meta_key (?ms ! i)) ?res = Some (snd (?res ! i))"
      using i read_short_data(2) [OF rd assms(4)] read_same [OF rd i] read_fields [OF rd]
      by (intro find_account_nth) metis+
    then show ?thesis by simp
  qed
  then show ?thesis
    unfolding total_lamports_def
    by (intro lamports_by_key [OF finish_consistent [OF rd assms(3)] ok, symmetric])
      (simp_all add: canon canonical_nth)
qed

lemma process_runs:
  assumes "process_instruction ex ids v ix accs = Ok r" "\<not> is_precompile ids (program_id ix)"
    and "program_result r = Success"
  obtains canon raw where "accounts_for_instruction ix accs = Ok canon"
    "finish_instruction ex ids v ix accs canon raw = Ok r"
  using assms by (auto simp: process_instruction_def bind_res_eq_Ok split: if_splits)

subsection \<open>A program that changes nothing\<close>

definition untouched :: "instruction \<Rightarrow> accounts \<Rightarrow> u64 list" where
  "untouched ix accs = map (\<lambda>m. word_of_nat (length (data (the (find_account (meta_key m) accs))))) (ix_accounts ix)"

definition small_data :: "accounts \<Rightarrow> bool" where
  "small_data accs \<longleftrightarrow> list_all (\<lambda>e. length (data (snd e)) \<le> MAX_PERMITTED_DATA_LENGTH) accs"

lemma prefix_differs_refl [simp]: "\<not> prefix_differs xs xs"
  by (induction xs) auto

lemma check_unchanged:
  assumes "\<forall>c \<in> set cs. aw_owner (ch_post c) = as_owner (ch_pre c) \<and> aw_lamports (ch_post c) = as_lamports (ch_pre c)
      \<and> aw_data (ch_post c) = as_data (ch_pre c) \<and> aw_data_len (ch_post c) = length (as_data (ch_pre c))
      \<and> ch_pre c = ch_entry c \<and> length (as_data (ch_pre c)) \<le> MAX_PERMITTED_DATA_LENGTH"
  shows "post_instruction_check pid cs = Ok ()"
proof -
  have props: "aw_owner (ch_post c) = as_owner (ch_pre c) \<and> aw_lamports (ch_post c) = as_lamports (ch_pre c)
      \<and> aw_data (ch_post c) = as_data (ch_pre c) \<and> aw_data_len (ch_post c) = length (as_data (ch_pre c))
      \<and> ch_pre c = ch_entry c \<and> length (as_data (ch_pre c)) \<le> MAX_PERMITTED_DATA_LENGTH"
    if "c \<in> set (unique_changes cs)" for c
  proof -
    from that obtain f where "f \<in> set (firsts cs)" "c = merged cs f" by (auto simp: unique_changes_eq)
    moreover have "f \<in> set cs" using calculation(1) firsts_keys [of cs] by auto
    ultimately show ?thesis using bspec [OF assms, of f] by (auto simp: merged_def)
  qed
  have "check_data_write pid c = Ok () \<and> check_account pid c = Ok ()" if "c \<in> set (unique_changes cs)" for c
    using props [OF that] by (auto simp: rule_defs)
  moreover have "post_lamports (unique_changes cs) = entry_lamports (unique_changes cs)"
    unfolding post_lamports_def entry_lamports_def using props by (auto intro!: arg_cong [of _ _ sum_list])
  ultimately show ?thesis by (simp add: post_check_Ok)
qed

definition noop_summary :: "u64 \<Rightarrow> bytes \<Rightarrow> raw_result" where
  "noop_summary cu inp = \<lparr>outcome = Halted 0, compute_units_consumed = cu, modified_input = inp,
     logs = [], return_data = [], cpi_return_input = None\<rparr>"

lemma check_rent_same: "check_rent ids xs xs = Ok ()"
  by (induction xs) (auto simp: rent_transition_allowed_def split: rent_state.splits)

lemma finish_noop:
  assumes ser: "serialize_parameters ix accs (program_id ix) = Ok inp" and sl: "is_slice inp"
    and small: "small_data accs" and ne: "ix_accounts ix \<noteq> []"
  shows "finish_instruction ex ids v ix accs (canonical accs (ix_accounts ix)) (noop_summary cu inp)
    = Ok \<lparr>program_result = Success, cu_consumed = cu, result_logs = [], result_return_data = [],
          resulting_accounts = canonical accs (ix_accounts ix), poststate_violation = None\<rparr>"
proof -
  let ?ms = "ix_accounts ix" and ?c = "canonical accs (ix_accounts ix)"
  note rd = serialize_then_read [OF ser sl, folded untouched_def]
  have all: "\<forall>m \<in> set ?ms. find_account (meta_key m) accs \<noteq> None" and n: "length ?ms \<le> 255"
    using ser by (auto simp: serialize_parameters_eq list_all_iff split: if_splits)
  have small': "length (data (the (find_account (meta_key m) accs))) \<le> MAX_PERMITTED_DATA_LENGTH" if "m \<in> set ?ms" for m
    using all small that by (fastforce simp: small_data_def list_all_iff find_account_map_of dest: map_of_SomeD)
  have "short_data ?c" using small' by (fastforce simp: short_data_def list_all_iff canonical_def MAX_PERMITTED_DATA_LENGTH_def)
  then have al: "aligned ix ?c ?c ?c (untouched ix accs)"
    using n by (simp add: aligned_def canonical_def untouched_def)
  have "post_instruction_check (program_id ix) (changes ix ?c ?c ?c (untouched ix accs)) = Ok ()"
  proof (rule check_unchanged, rule ballI)
    fix c assume "c \<in> set (changes ix ?c ?c ?c (untouched ix accs))"
    then obtain i where i: "i < length ?ms" and c: "c = change_of (?ms ! i) (fst (?c ! i)) (snd (?c ! i)) (snd (?c ! i)) (snd (?c ! i)) (untouched ix accs ! i)"
      by (auto simp: changes_def canonical_def)
    have "length (data (snd (?c ! i))) \<le> MAX_PERMITTED_DATA_LENGTH" using small' [of "?ms ! i"] i by (simp add: canonical_nth)
    moreover from this have "unat (untouched ix accs ! i) = length (data (snd (?c ! i)))"
      using i by (simp add: untouched_def canonical_nth unat_of_nat MAX_PERMITTED_DATA_LENGTH_def)
    ultimately show "aw_owner (ch_post c) = as_owner (ch_pre c) \<and> aw_lamports (ch_post c) = as_lamports (ch_pre c)
      \<and> aw_data (ch_post c) = as_data (ch_pre c) \<and> aw_data_len (ch_post c) = length (as_data (ch_pre c))
      \<and> ch_pre c = ch_entry c \<and> length (as_data (ch_pre c)) \<le> MAX_PERMITTED_DATA_LENGTH"
      by (simp add: c)
  qed
  moreover have "?c \<noteq> []" using ne by (simp add: canonical_def)
  ultimately have "validate_post_state ids ix ?c ?c ?c (untouched ix accs) (enforce_rent_state v) = Ok ()"
    using validate_post_state_eq [OF al] by (simp add: check_rent_same)
  then show ?thesis
    using rd ne by (simp add: finish_instruction_def noop_summary_def outcome_result_def from_bpf_r0_def)
qed

definition noop_executor :: "unit executor" where
  "noop_executor = \<lparr>run_with_registry_and_pid = (\<lambda>elf inp reg pid cu. encode_run (noop_summary 1 inp)),
     run_with_sysvars = (\<lambda>elf inp reg pid sv cu. encode_run (noop_summary 1 inp)),
     precompile_dispatch = (\<lambda>_ _. []), program_error_from = (\<lambda>_. ())\<rparr>"

lemma noop_decodes: "length inp < 2 ^ 32 \<Longrightarrow> decode (encode_run (noop_summary cu inp)) = Ok (noop_summary cu inp)"
  using decode_encode_run_aux [of "noop_summary cu inp" "[]"]
  by (simp add: encodable_def noop_summary_def lp_ok_def is_slice_def encode_run_def encode_outcome_def append_lp_def)

definition sample_ids :: sdk_ids where
  "sample_ids = \<lparr>sysvar_ids = [100], precompile_ids = [200], compute_budget_id = 300, incinerator_id = 400\<rparr>"

definition sample_svm :: svm where
  "sample_svm = add_program 9 [1, 2, 3] svm_new"

lemma sample_pid: "program_id sample_ix = 9"
  by (simp add: sample_ix_def)

lemma sample_small: "small_data sample_accounts"
  by (simp add: small_data_def sample_accounts_def account_of_def MAX_PERMITTED_DATA_LENGTH_def)

lemma sample_refs: "ix_accounts sample_ix \<noteq> []"
  by (simp add: sample_ix_def)

lemma sample_registered:
  "\<not> is_precompile sample_ids 9" "map_of (programs sample_svm) 9 = Some [1, 2, 3]"
  "ix_accounts_writable_sysvar sample_ids sample_ix = None" "sysvars sample_svm = None"
  "accounts_for_instruction sample_ix sample_accounts = Ok (canonical sample_accounts (ix_accounts sample_ix))"
  by (simp_all add: is_precompile_def sample_ids_def sample_svm_def add_program_def svm_new_def
      ix_accounts_writable_sysvar_def sample_ix_def is_sysvar_id_def accounts_for_instruction_eq
      sample_accounts_def find_account_def)

lemma sample_run: "process_instruction noop_executor sample_ids (with_rent_state_enforcement e sample_svm) sample_ix sample_accounts
  = Ok \<lparr>program_result = Success, cu_consumed = 1, result_logs = [], result_return_data = [],
        resulting_accounts = canonical sample_accounts (ix_accounts sample_ix), poststate_violation = None\<rparr>"
proof -
  let ?v = "with_rent_state_enforcement e sample_svm"
  have run: "run_program noop_executor ?v elf (input_image sample_accounts sample_ix 9) 9
      = Ok (noop_summary 1 (input_image sample_accounts sample_ix 9))" for elf
    using noop_decodes [of "input_image sample_accounts sample_ix 9" 1] sample_image_length
    by (simp add: run_program_def noop_executor_def with_rent_state_enforcement_def sample_registered
        run_buffer_with_registry_and_pid_def)
  have fin: "finish_instruction noop_executor sample_ids ?v sample_ix sample_accounts
      (canonical sample_accounts (ix_accounts sample_ix)) (noop_summary 1 (input_image sample_accounts sample_ix 9))
    = Ok \<lparr>program_result = Success, cu_consumed = 1, result_logs = [], result_return_data = [],
        resulting_accounts = canonical sample_accounts (ix_accounts sample_ix), poststate_violation = None\<rparr>"
    using finish_noop [OF sample_serializes [folded sample_pid] sample_is_slice [folded sample_pid] sample_small sample_refs]
    by (simp add: sample_pid)
  show ?thesis
    unfolding process_instruction_def sample_pid using sample_registered run fin sample_serializes
    by (simp add: with_rent_state_enforcement_def)
qed

subsection \<open>Panics, rent and the registry\<close>

lemma check_rent_no_panic: "check_rent ids pre post \<noteq> Panic"
  by (induction ids pre post rule: check_rent.induct) auto

lemma check_rent_nth:
  assumes "check_rent ids pre post = Ok u" "i < length pre" "i < length post" "fst (post ! i) \<noteq> incinerator_id ids"
  shows "rent_transition_allowed (get_account_rent_state (lamports (snd (pre ! i))) (length (data (snd (pre ! i)))))
     (get_account_rent_state (lamports (snd (post ! i))) (length (data (snd (post ! i)))))"
  using assms
  by (induction ids pre post arbitrary: i rule: check_rent.induct) (auto simp: nth_Cons split: if_splits nat.splits)

lemma finish_panics_in_reader:
  assumes "finish_instruction ex ids v ix accs canon raw = Panic"
    and "accounts_for_instruction ix accs = Ok canon" "in_memory accs"
  shows "read_account_writes (modified_input raw) ix accs = Panic
    \<or> (\<exists>inp. cpi_return_input raw = Some inp \<and> read_account_writes inp ix accs = Panic)"
proof (rule ccontr)
  assume no: "\<not> ?thesis"
  have canon: "canon = canonical accs (ix_accounts ix)"
    and found: "\<forall>m \<in> set (ix_accounts ix). find_account (meta_key m) accs \<noteq> None"
    using assms(2) by (auto simp: accounts_for_instruction_eq split: if_splits)
  let ?pre = "judged_pre ix accs canon raw"
  have pre: "short_data ?pre \<and> length ?pre = length (ix_accounts ix)"
    using read_short_data [OF _ assms(3)] canonical_short_data [OF assms(3) found]
    by (auto simp: judged_pre_def canon canonical_def split: option.splits res.splits)
  have val: "validate_post_state ids ix canon ?pre res raws e \<noteq> Panic"
    if "read_account_writes (modified_input raw) ix accs = Ok (res, raws)" for res raws e
  proof (cases "canon = []")
    case True
    then show ?thesis by (simp add: validate_post_state_def check_rent_no_panic)
  next
    case False
    have al: "aligned ix canon ?pre res raws"
      using read_short_data [OF that assms(3)] canonical_short_data [OF assms(3) found] pre read_count [OF that]
      by (simp add: aligned_def canon canonical_def)
    show ?thesis unfolding validate_post_state_eq [OF al False]
      using post_check_no_panic check_rent_no_panic by (auto split: res.splits)
  qed
  have empty: "validate_post_state ids ix canon p [] [] e \<noteq> Panic" if "ix_accounts ix = []" for p e
    using that by (simp add: validate_post_state_def canon canonical_def check_rent_no_panic)
  let ?reads = "if accs = [] \<and> ix_accounts ix = [] then Ok ([], [])
      else map_err BufferParse (read_account_writes (modified_input raw) ix accs)"
  let ?cpi = "case cpi_return_input raw of
        Some inp \<Rightarrow> bind_res (map_err BufferParse (read_account_writes inp ix accs)) (\<lambda>(a, _). Ok (Some a))
      | None \<Rightarrow> Ok None"
  have "?reads \<noteq> Panic" using no by auto
  moreover have "?cpi \<noteq> Panic" using no by (auto simp: bind_res_eq_Panic split: option.splits)
  ultimately have cn: "?cpi \<noteq> Panic" and rn: "?reads \<noteq> Panic" by blast+
  let ?val = "\<lambda>res raws c. if outcome_result (program_error_from ex) (outcome raw) = Success then
      (case validate_post_state ids ix canon (case c of Some a \<Rightarrow> a | None \<Rightarrow> canon) res raws (enforce_rent_state v) of
         Ok _ \<Rightarrow> Ok (outcome_result (program_error_from ex) (outcome raw), None)
       | Err e \<Rightarrow> Ok (Failure ERR_INVALID_POSTSTATE, Some e)
       | Panic \<Rightarrow> Panic)
      else Ok (outcome_result (program_error_from ex) (outcome raw), None)"
  obtain p where p: "?reads = Ok p" and rest: "bind_res ?cpi (\<lambda>c. bind_res (?val (fst p) (snd p) c) (\<lambda>(pr, viol).
      Ok \<lparr>program_result = pr, cu_consumed = compute_units_consumed raw, result_logs = logs raw,
          result_return_data = return_data raw, resulting_accounts = fst p, poststate_violation = viol\<rparr>)) = Panic"
    using assms(1) rn unfolding finish_instruction_def Let_def bind_res_eq_Panic [of ?reads]
    by (auto simp: case_prod_beta)
  obtain res raws where rd: "?reads = Ok (res, raws)" and pr: "fst p = res" "snd p = raws"
    using p by (metis prod.collapse)
  obtain c where c: "?cpi = Ok c"
    and panic: "validate_post_state ids ix canon (case c of Some a \<Rightarrow> a | None \<Rightarrow> canon) res raws (enforce_rent_state v) = Panic"
    using rest cn unfolding bind_res_eq_Panic [of ?cpi] pr
    by (auto simp: bind_res_eq_Panic split: prod.splits if_splits res.splits)
  have "(case c of Some a \<Rightarrow> a | None \<Rightarrow> canon) = ?pre"
    using c by (auto simp: judged_pre_def bind_res_eq_Ok split: option.splits)
  with panic rd val empty show False by (auto split: if_splits)
qed

lemma parse_registry_blob:
  assumes "distinct (map fst (programs v))" "length (programs v) < 2 ^ 32" "\<forall>e \<in> set (programs v). lp_ok (snd e)"
  shows "parse_registry (registry_blob v pid) q = (if q = pid then None else map_of (programs v) q)"
proof -
  let ?es = "filter (\<lambda>(p, _). p \<noteq> pid) (programs v)"
  have "map_of (filter (\<lambda>(p, _). p \<noteq> pid) xs) q = (if q = pid then None else map_of xs q)" for xs :: "(pubkey \<times> bytes) list"
    by (induction xs) auto
  note f = this [of "programs v"]
  have "length ?es < 2 ^ 32" using assms(2) by (meson le_less_trans length_filter_le)
  moreover have "\<forall>e \<in> set ?es. lp_ok (snd e)" using assms(3) by auto
  ultimately have "parse_registry (encode_registry ?es) q = map_of ?es q" by (rule parse_encode_registry)
  moreover have "parse_registry [] q = None" by (simp add: parse_registry_def)
  ultimately show ?thesis unfolding registry_blob_def Let_def using f by (cases "?es = []") auto
qed

subsection \<open>Properties\<close>

text \<open>C2: Whatever the executor does, an instruction that the host reports as \<open>Success\<close> conserves
  lamports: summed over the distinct keys the instruction references, the resulting accounts hold
  exactly what the supplied accounts held.\<close>

theorem success_conserves_lamports:
  assumes "process_instruction ex ids v ix accs = Ok r" "program_result r = Success"
    and "\<not> is_precompile ids (program_id ix)" "in_memory accs"
  shows "total_lamports ix (resulting_accounts r) = total_lamports ix accs"
  using process_runs [OF assms(1,3,2)] finish_conserves [OF _ assms(2) _ assms(4)] by metis

theorem success_conserves_lamports_witness:
  "\<exists>r. process_instruction noop_executor sample_ids (with_rent_state_enforcement False sample_svm) sample_ix sample_accounts = Ok r
     \<and> program_result r = Success
     \<and> total_lamports sample_ix (resulting_accounts r) = total_lamports sample_ix sample_accounts"
proof -
  have "\<not> is_precompile sample_ids (program_id sample_ix)"
    by (simp add: is_precompile_def sample_ids_def sample_ix_def)
  moreover have "in_memory sample_accounts" by (simp add: in_memory_def sample_accounts_def account_of_def)
  ultimately show ?thesis using success_conserves_lamports [OF sample_run] sample_run by simp
qed

text \<open>C3: A \<open>Success\<close> without CPI respects account permissions: a key that no reference marks
  writable comes back with its pre-state account; an account the program does not own keeps its
  owner and data and never loses lamports; and no account's length field exceeds its pre-state
  length plus \<open>MAX_PERMITTED_DATA_INCREASE\<close>.\<close>

theorem success_respects_permissions:
  assumes "finish_instruction ex ids v ix accs canon raw = Ok r" "program_result r = Success"
    and "accounts_for_instruction ix accs = Ok canon" "in_memory accs" "cpi_return_input raw = None"
    and "i < length (ix_accounts ix)"
  defines "pre \<equiv> snd (canon ! i)" and "post \<equiv> snd (resulting_accounts r ! i)"
  shows "(\<not> key_writable ix i \<longrightarrow> post = pre)
    \<and> (owner pre \<noteq> program_id ix \<longrightarrow> owner post = owner pre \<and> data post = data pre \<and> lamports pre \<le> lamports post)
    \<and> length (data post) \<le> length (data pre) + MAX_PERMITTED_DATA_INCREASE"
proof -
  have ne: "ix_accounts ix \<noteq> []" using assms(6) by auto
  have jp: "judged_pre ix accs canon raw = canon" using assms(5) by (simp add: judged_pre_def)
  obtain raws where rd: "read_account_writes (modified_input raw) ix accs = Ok (resulting_accounts r, raws)"
    and ok: "post_instruction_check (program_id ix) (changes ix canon canon (resulting_accounts r) raws) = Ok ()"
    using finish_success [OF assms(1-4) ne] jp by metis
  have canon: "canon = canonical accs (ix_accounts ix)"
    using assms(3) by (auto simp: accounts_for_instruction_eq split: if_splits)
  obtain p where p: "find_account (meta_key (ix_accounts ix ! i)) accs = Some p"
    "executable post = executable p" "rent_epoch post = rent_epoch p"
    "length (data post) = min (unat (raws ! i)) (data_room p)"
    using read_fields [OF rd assms(6)] unfolding post_def by metis
  have pre: "pre = p" using p(1) assms(6) by (simp add: pre_def canon canonical_nth)
  have room: "length (data pre) \<le> data_room p" by (simp add: pre data_room_def)
  note acc = accepted_reference [OF finish_consistent [OF rd assms(3), unfolded jp] ok assms(6),
      folded post_def pre_def, OF p(4) room]
  have "post = pre" if "\<not> key_writable ix i"
    using that acc(1,2) p(2,3) pre by (metis (full_types) account.equality old.unit.exhaust)
  moreover have "owner post = owner pre \<and> data post = data pre \<and> lamports pre \<le> lamports post"
    if "owner pre \<noteq> program_id ix"
    using that acc(1,3) by (meson linorder_not_le)
  moreover have "length (data post) \<le> length (data pre) + MAX_PERMITTED_DATA_INCREASE"
    using p(4) by (simp add: pre data_room_def)
  ultimately show ?thesis by blast
qed

theorem success_respects_permissions_witness:
  "\<exists>r :: unit instruction_result. finish_instruction noop_executor sample_ids sample_svm sample_ix sample_accounts
      (canonical sample_accounts (ix_accounts sample_ix)) (noop_summary 1 (input_image sample_accounts sample_ix 9)) = Ok r
     \<and> snd (resulting_accounts r ! 1) = snd (canonical sample_accounts (ix_accounts sample_ix) ! 1)"
proof -
  obtain r where r: "finish_instruction noop_executor sample_ids sample_svm sample_ix sample_accounts
      (canonical sample_accounts (ix_accounts sample_ix)) (noop_summary 1 (input_image sample_accounts sample_ix 9)) = Ok r"
    and s: "program_result r = Success"
    using finish_noop [OF sample_serializes [folded sample_pid] sample_is_slice [folded sample_pid] sample_small sample_refs]
    by (metis instruction_result.select_convs(1) sample_pid)
  have canon: "accounts_for_instruction sample_ix sample_accounts = Ok (canonical sample_accounts (ix_accounts sample_ix))"
    by (simp add: accounts_for_instruction_eq sample_ix_def sample_accounts_def find_account_def)
  have mem: "in_memory sample_accounts" by (simp add: in_memory_def sample_accounts_def account_of_def)
  have "\<not> key_writable sample_ix 1" "1 < length (ix_accounts sample_ix)"
    by (simp_all add: key_writable_def sample_ix_def)
  then show ?thesis
    using success_respects_permissions [OF r s canon mem, of 1] r by (simp add: noop_summary_def)
qed

text \<open>C4: With rent enforcement on, a \<open>Success\<close> never leaves an account (other than the
  incinerator) newly rent-paying: a resulting balance that is positive but below the rent-exempt
  minimum occurs only where the pre-state account was rent-paying with the same data size and at
  least that balance.\<close>

theorem success_respects_rent:
  assumes "process_instruction ex ids v ix accs = Ok r" "program_result r = Success"
    and "\<not> is_precompile ids (program_id ix)" "in_memory accs" "enforce_rent_state v"
    and "i < length (ix_accounts ix)" "meta_key (ix_accounts ix ! i) \<noteq> incinerator_id ids"
    and "get_account_rent_state (lamports (snd (resulting_accounts r ! i)))
           (length (data (snd (resulting_accounts r ! i)))) = RentPaying l n"
  shows "\<exists>l'. find_account (meta_key (ix_accounts ix ! i)) accs \<noteq> None
    \<and> (let p = the (find_account (meta_key (ix_accounts ix ! i)) accs) in
       get_account_rent_state (lamports p) (length (data p)) = RentPaying l' n \<and> l \<le> l')"
proof -
  obtain canon raw where c: "accounts_for_instruction ix accs = Ok canon"
    and f: "finish_instruction ex ids v ix accs canon raw = Ok r"
    using process_runs [OF assms(1,3,2)] by blast
  have ne: "ix_accounts ix \<noteq> []" using assms(6) by auto
  obtain raws where rd: "read_account_writes (modified_input raw) ix accs = Ok (resulting_accounts r, raws)"
    and rent: "check_rent ids canon (resulting_accounts r) = Ok ()"
    using finish_success [OF f assms(2) c assms(4) ne] assms(5) by metis
  have canon: "canon = canonical accs (ix_accounts ix)"
    using c by (auto simp: accounts_for_instruction_eq split: if_splits)
  obtain p where p: "find_account (meta_key (ix_accounts ix ! i)) accs = Some p"
    "fst (resulting_accounts r ! i) = meta_key (ix_accounts ix ! i)"
    using read_fields [OF rd assms(6)] by metis
  have "rent_transition_allowed (get_account_rent_state (lamports p) (length (data p))) (RentPaying l n)"
    using check_rent_nth [OF rent, of i] assms(6-8) p read_short_data(2) [OF rd assms(4)]
    by (simp add: canon canonical_nth) (simp add: canonical_def)
  then show ?thesis using p(1) by (auto simp: rent_transition_allowed_def split: rent_state.splits)
qed

theorem success_respects_rent_witness:
  "\<exists>r l'. process_instruction noop_executor sample_ids (with_rent_state_enforcement True sample_svm) sample_ix sample_accounts = Ok r
     \<and> get_account_rent_state 50 2 = RentPaying l' 2 \<and> 50 \<le> l'"
proof -
  let ?v = "with_rent_state_enforcement True sample_svm"
  have pc: "\<not> is_precompile sample_ids (program_id sample_ix)" by (simp add: sample_pid sample_registered)
  have mem: "in_memory sample_accounts" by (simp add: in_memory_def sample_accounts_def account_of_def)
  have acc: "canonical sample_accounts (ix_accounts sample_ix) ! 0 = (3, account_of 50 [1, 2] 9 False 0)"
    "find_account 3 sample_accounts = Some (account_of 50 [1, 2] 9 False 0)"
    by (simp_all add: canonical_def sample_ix_def sample_accounts_def find_account_def)
  have rp: "get_account_rent_state 50 2 = RentPaying 50 2"
    by (simp add: get_account_rent_state_def rent_minimum_balance_def saturating_mul_def saturating_add_def
        ACCOUNT_STORAGE_OVERHEAD_def RENT_LAMPORTS_PER_BYTE_EXEMPT_def)
  show ?thesis
    using success_respects_rent [OF sample_run _ pc mem, of True 0 50 2] sample_run [of True] acc rp
    by (simp add: with_rent_state_enforcement_def)
qed


definition evil_input :: bytes where
  "evil_input = post_buffer (ix_accounts sample_ix) (ser_image (ix_accounts sample_ix) sample_accounts)
     (ser_dup (ix_accounts sample_ix)) (le64 (- 1))"

definition evil_executor :: "unit executor" where
  "evil_executor = noop_executor\<lparr>run_with_registry_and_pid := (\<lambda>_ _ _ _ _. encode_run (noop_summary 1 evil_input)),
     run_with_sysvars := (\<lambda>_ _ _ _ _ _. encode_run (noop_summary 1 evil_input))\<rparr>"

lemma evil_input_length: "length evil_input \<le> 41000"
proof -
  have "length (slots sample_accounts (ix_accounts sample_ix) (length (ix_accounts sample_ix)))
      \<le> length (input_image sample_accounts sample_ix 9)"
    by (simp add: input_image_def input_body_def)
  then show ?thesis
    using sample_image_length by (simp add: evil_input_def post_buffer_def slots_as_images [symmetric])
qed

lemma evil_run: "process_instruction evil_executor sample_ids sample_svm sample_ix sample_accounts = Panic"
proof -
  have "read_account_writes evil_input sample_ix sample_accounts = Panic"
    unfolding evil_input_def using read_max_ix_len [OF sample_layout, of "[]"] sample_post_slice
    by (simp add: sample_ix_def)
  moreover have "run_program evil_executor sample_svm elf inp 9 = Ok (noop_summary 1 evil_input)" for elf inp
    using noop_decodes [of evil_input 1] evil_input_length
    by (simp add: run_program_def evil_executor_def sample_registered run_buffer_with_registry_and_pid_def)
  ultimately show ?thesis
    unfolding process_instruction_def sample_pid using sample_registered sample_serializes sample_refs
    by (simp add: finish_instruction_def noop_summary_def)
qed


text \<open>C30: The registry passed to the executor holds every other registered program and not the
  running one: the executor's lookup of an id in the blob gives the ELF last registered under it,
  and nothing for the program being run.\<close>

theorem registry_blob_lookup:
  assumes "distinct (map fst (programs v))" "length (programs v) < 2 ^ 32" "\<forall>e \<in> set (programs v). lp_ok (snd e)"
  shows "parse_registry (registry_blob v pid) q = (if q = pid then None else map_of (programs v) q)"
  using assms by (rule parse_registry_blob)

theorem registry_blob_lookup_witness:
  "parse_registry (registry_blob (add_program 5 [7] (add_program 5 [8] (add_program 9 [1] svm_new))) 9) 5 = Some [7]"
  by (subst registry_blob_lookup) (simp_all add: add_program_def svm_new_def lp_ok_def)

text \<open>The compute-budget scan of a transaction sets the budget to the last well-formed
  \<open>SetComputeUnitLimit\<close>, keeps it when there is none, and changes nothing else.\<close>

lemma compute_budget_last_wins:
  "with_compute_budget_from_instructions ids ixs v
     = v\<lparr>cu_budget := last (cu_budget v # List.map_filter (compute_unit_limit ids) ixs)\<rparr>"
  unfolding with_compute_budget_from_instructions_def
  by (induction ixs arbitrary: v) (auto simp: map_filter_simps split: option.splits)

end
