(* ===== verification/Ebpf.thy ===== *)
theory Ebpf
  imports Prelude
begin

text \<open>
  sBPF instructions as the tools see them (\<open>solana_sbpf::ebpf::Insn\<close>) and as the Lean model names
  them (\<open>SVM/SBPF/ISA.lean\<close>), with the opcode numbers of \<open>SVM/SBPF/Decode.lean\<close>.
\<close>

datatype sbpf_version = V0 | V3

record insn =
  opc :: u8
  dst :: u8
  src :: u8
  off :: int
  imm :: int

abbreviation LD_DW_IMM :: u8 where "LD_DW_IMM \<equiv> 0x18"
abbreviation JA :: u8 where "JA \<equiv> 0x05"
abbreviation CALL_IMM :: u8 where "CALL_IMM \<equiv> 0x85"
abbreviation CALL_REG :: u8 where "CALL_REG \<equiv> 0x8D"
abbreviation EXIT :: u8 where "EXIT \<equiv> 0x95"
abbreviation MOV64_IMM :: u8 where "MOV64_IMM \<equiv> 0xB7"
abbreviation MOV32_IMM :: u8 where "MOV32_IMM \<equiv> 0xB4"
abbreviation INSN_SIZE :: nat where "INSN_SIZE \<equiv> 8"

text \<open>The instruction class: the three low bits of the opcode.\<close>

definition insn_class :: "u8 \<Rightarrow> u8" where
  "insn_class b = and b 7"

abbreviation BPF_LD :: u8 where "BPF_LD \<equiv> 0"
abbreviation BPF_LDX :: u8 where "BPF_LDX \<equiv> 1"
abbreviation BPF_ALU32_LOAD :: u8 where "BPF_ALU32_LOAD \<equiv> 4"
abbreviation BPF_JMP64 :: u8 where "BPF_JMP64 \<equiv> 5"
abbreviation BPF_JMP32 :: u8 where "BPF_JMP32 \<equiv> 6"
abbreviation BPF_ALU64_STORE :: u8 where "BPF_ALU64_STORE \<equiv> 7"

definition enable_jmp32 :: "sbpf_version \<Rightarrow> bool" where
  "enable_jmp32 v \<longleftrightarrow> v = V3"

subsection \<open>The Lean instruction set\<close>

datatype width = Byte | Half | Word_w | Dword

datatype alu_op = Add | Sub | Mul | Div | Mod | Or | And | Xor | Lsh | Rsh | Arsh | Mov

datatype cond = Eq | Ne | Gt | Ge | Lt | Le | Sgt | Sge | Slt | Sle | Set_c

datatype operand = Reg nat | Imm int

datatype lean_insn =
    Lddw nat int
  | Ldx width nat nat int
  | St width nat int int
  | Stx width nat int nat
  | Alu64 alu_op nat operand
  | Neg64 nat
  | Alu32 alu_op nat operand
  | Neg32 nat
  | Endian nat int bool
  | Jcc cond nat operand int
  | Jmp32 cond nat operand int
  | Ja int
  | Call string
  | CallUnknown nat
  | CallLocal int
  | Callx nat
  | Exit

end
