(* ===== verification/Pc_Map.thy ===== *)
theory Pc_Map
  imports Ebpf
begin

text \<open>
  The slot/logical program-counter map and the text decoder of \<open>qed-analysis/src/lib.rs\<close> and
  \<open>qed-analysis/src/image.rs\<close>.  Shown: the two maps are inverse on instruction starts, both slots
  of an \<open>lddw\<close> belong to it, a jump resolves to the instruction that contains its target slot, and
  the decoder places instruction \<open>i\<close> at exactly the slot the map gives it.
\<close>

record pc_map =
  l2s :: "nat list"
  s2l :: "nat option list"

definition span :: "insn \<Rightarrow> nat" where
  "span i = (if opc i = LD_DW_IMM then 2 else 1)"

text \<open>\<open>while len <= s push None\<close>, then the indexed store.\<close>

definition set_slot :: "nat \<Rightarrow> nat option list \<Rightarrow> nat \<Rightarrow> nat option list" where
  "set_slot logical xs s = (xs @ replicate (Suc s - length xs) None)[s := Some logical]"

definition from_insns_step :: "(nat list \<times> nat option list \<times> nat) \<Rightarrow> nat \<times> insn \<Rightarrow> (nat list \<times> nat option list \<times> nat)" where
  "from_insns_step st li = (case (st, li) of ((ls, ss, slot), (logical, i)) \<Rightarrow>
     (ls @ [slot], fold (\<lambda>s xs. set_slot logical xs s) [slot..<slot + span i] ss, slot + span i))"

definition from_insns :: "insn list \<Rightarrow> pc_map" where
  "from_insns is = (case foldl from_insns_step ([], [], 0) (List.enumerate 0 is) of
     (ls, ss, _) \<Rightarrow> \<lparr>l2s = ls, s2l = ss\<rparr>)"

definition slot_to_logical :: "pc_map \<Rightarrow> nat \<Rightarrow> nat option" where
  "slot_to_logical m slot = (if slot < length (s2l m) then s2l m ! slot else None)"

definition logical_to_slot :: "pc_map \<Rightarrow> nat \<Rightarrow> nat option" where
  "logical_to_slot m logical = (if logical < length (l2s m) then Some (l2s m ! logical) else None)"

definition logical_len :: "pc_map \<Rightarrow> nat" where
  "logical_len m = length (l2s m)"

definition resolve_jump_target :: "pc_map \<Rightarrow> nat \<Rightarrow> int \<Rightarrow> int" where
  "resolve_jump_target m logical_pc d =
     (if logical_pc < length (l2s m) then
        (let target_slot = int (l2s m ! logical_pc) + 1 + d in
         if target_slot < 0 then target_slot
         else (case slot_to_logical m (nat target_slot) of
                 Some logical \<Rightarrow> int logical
               | None \<Rightarrow> target_slot))
      else int logical_pc + 1 + d)"

subsection \<open>The map in closed form\<close>

definition start :: "insn list \<Rightarrow> nat \<Rightarrow> nat" where
  "start is i = sum_list (map span (take i is))"

definition slot_owners :: "insn list \<Rightarrow> nat \<Rightarrow> nat option list" where
  "slot_owners is n = concat (map (\<lambda>i. replicate (span (is ! i)) (Some i)) [0..<n])"

lemma start_Suc: "i < length is \<Longrightarrow> start is (Suc i) = start is i + span (is ! i)"
  by (simp add: start_def take_Suc_conv_app_nth)

lemma span_pos [simp]: "0 < span i"
  by (simp add: span_def)

lemma length_slot_owners: "n \<le> length is \<Longrightarrow> length (slot_owners is n) = start is n"
proof (induction n)
  case 0
  then show ?case by (simp add: slot_owners_def start_def)
next
  case (Suc n)
  then have "slot_owners is (Suc n) = slot_owners is n @ replicate (span (is ! n)) (Some n)"
    by (simp add: slot_owners_def)
  then show ?case using Suc by (simp add: start_Suc)
qed

lemma fill_slots:
  "fold (\<lambda>s xs. set_slot k xs s) [length xs..<length xs + n] xs = xs @ replicate n (Some k)"
proof (induction n)
  case 0
  then show ?case by simp
next
  case (Suc n)
  then show ?case
    by (simp add: set_slot_def list_update_append replicate_append_same [symmetric])
qed

lemma from_insns_prefix:
  assumes "n \<le> length is"
  shows "foldl from_insns_step ([], [], 0) (take n (List.enumerate 0 is))
    = (map (start is) [0..<n], slot_owners is n, start is n)"
  using assms
proof (induction n)
  case 0
  then show ?case by (simp add: slot_owners_def start_def)
next
  case (Suc n)
  then have "take (Suc n) (List.enumerate 0 is) = take n (List.enumerate 0 is) @ [(n, is ! n)]"
    by (simp add: take_Suc_conv_app_nth nth_enumerate_eq)
  moreover have "length (slot_owners is n) = start is n" using Suc.prems by (simp add: length_slot_owners)
  then have "fold (\<lambda>s xs. set_slot n xs s) [start is n..<start is n + span (is ! n)] (slot_owners is n)
      = slot_owners is (Suc n)"
    using fill_slots [of n "slot_owners is n" "span (is ! n)"] by (simp add: slot_owners_def)
  ultimately show ?case using Suc by (simp add: from_insns_step_def start_Suc)
qed

lemma from_insns_eq: "from_insns is = \<lparr>l2s = map (start is) [0..<length is], s2l = slot_owners is (length is)\<rparr>"
  using from_insns_prefix [of "length is" "is"] by (simp add: from_insns_def)

lemma slot_owners_nth:
  assumes "n \<le> length is" "i < n" "start is i \<le> s" "s < start is (Suc i)"
  shows "slot_owners is n ! s = Some i"
  using assms
proof (induction n)
  case 0
  then show ?case by simp
next
  case (Suc n)
  have app: "slot_owners is (Suc n) = slot_owners is n @ replicate (span (is ! n)) (Some n)"
    by (simp add: slot_owners_def)
  have len: "length (slot_owners is n) = start is n" using Suc.prems by (simp add: length_slot_owners)
  show ?case
  proof (cases "i = n")
    case True
    then show ?thesis using Suc.prems len start_Suc [of n "is"] by (simp add: app nth_append)
  next
    case False
    then have "i < n" using Suc.prems by simp
    moreover have "start is (Suc i) \<le> start is n"
    proof -
      have "start is a \<le> start is b" if "a \<le> b" "b \<le> length is" for a b
        using that by (induction b) (auto simp: le_Suc_eq start_Suc)
      then show ?thesis using \<open>i < n\<close> Suc.prems by simp
    qed
    ultimately show ?thesis using Suc len by (simp add: app nth_append)
  qed
qed

lemma slot_owner_exists:
  assumes "s < start is n" "n \<le> length is"
  shows "\<exists>i < n. start is i \<le> s \<and> s < start is (Suc i)"
  using assms
proof (induction n)
  case 0
  then show ?case by (simp add: start_def)
next
  case (Suc n)
  show ?case
  proof (cases "s < start is n")
    case True
    then show ?thesis using Suc by (auto intro: less_SucI)
  next
    case False
    then show ?thesis using Suc.prems by auto
  qed
qed

subsection \<open>Interface\<close>

text \<open>What the analyses rely on: a partial bijection between instructions and their first slots,
  with every slot of the text owned by exactly one instruction.\<close>

locale pc_layout =
  fixes l2s_of :: "'m \<Rightarrow> nat \<Rightarrow> nat option" and s2l_of :: "'m \<Rightarrow> nat \<Rightarrow> nat option" and size_of :: "'m \<Rightarrow> nat"
    and ok :: "'m \<Rightarrow> bool"
  assumes start_defined: "ok m \<Longrightarrow> (l2s_of m i \<noteq> None) \<longleftrightarrow> i < size_of m"
    and start_owned: "ok m \<Longrightarrow> l2s_of m i = Some s \<Longrightarrow> s2l_of m s = Some i"
    and owner_start: "ok m \<Longrightarrow> s2l_of m s = Some i \<Longrightarrow>
        \<exists>t. l2s_of m i = Some t \<and> t \<le> s \<and> (\<forall>s'. t \<le> s' \<and> s' \<le> s \<longrightarrow> s2l_of m s' = Some i)"
begin

lemma start_inj: "ok m \<Longrightarrow> l2s_of m i = Some s \<Longrightarrow> l2s_of m j = Some s \<Longrightarrow> i = j"
  using start_owned [of m i s] start_owned [of m j s] by simp

lemma owner_in_range: "ok m \<Longrightarrow> s2l_of m s = Some i \<Longrightarrow> i < size_of m"
  using owner_start [of m s i] start_defined [of m i] by auto

lemma not_start_is_continuation:
  assumes "ok m" "s2l_of m s = Some i" "l2s_of m i \<noteq> Some s"
  shows "0 < s \<and> s2l_of m (s - 1) = Some i"
proof -
  obtain t where t: "l2s_of m i = Some t" "t \<le> s" "\<forall>s'. t \<le> s' \<and> s' \<le> s \<longrightarrow> s2l_of m s' = Some i"
    using owner_start [OF assms(1,2)] by blast
  then have "t < s" using assms(3) by auto
  then show ?thesis using t(3) by auto
qed

end

definition pc_map_of :: "pc_map \<Rightarrow> bool" where
  "pc_map_of m \<longleftrightarrow> (\<exists>is. m = from_insns is)"

interpretation pcm: pc_layout logical_to_slot slot_to_logical logical_len pc_map_of
proof
  fix m i assume "pc_map_of m"
  then show "(logical_to_slot m i \<noteq> None) \<longleftrightarrow> i < logical_len m"
    by (auto simp: pc_map_of_def from_insns_eq logical_to_slot_def logical_len_def)
next
  fix m i s assume "pc_map_of m" "logical_to_slot m i = Some s"
  then obtain "is" where m: "m = from_insns is" "i < length is" "s = start is i"
    by (auto simp: pc_map_of_def from_insns_eq logical_to_slot_def split: if_splits)
  then have "s < start is (Suc i)" by (simp add: start_Suc)
  moreover have "start is (Suc i) \<le> start is (length is)"
    using m(2) by (simp add: start_def) (metis add_leD1 append_take_drop_id le_add1 map_append sum_list_append)
  ultimately show "slot_to_logical m s = Some i"
    using m slot_owners_nth [of "length is" "is" i s]
    by (simp add: slot_to_logical_def from_insns_eq length_slot_owners)
next
  fix m s i assume "pc_map_of m" "slot_to_logical m s = Some i"
  then obtain "is" where m: "m = from_insns is" and s: "s < start is (length is)" "slot_owners is (length is) ! s = Some i"
    by (auto simp: pc_map_of_def from_insns_eq slot_to_logical_def length_slot_owners split: if_splits)
  obtain j where j: "j < length is" "start is j \<le> s" "s < start is (Suc j)"
    using slot_owner_exists [OF s(1) order_refl] by blast
  have own: "slot_owners is (length is) ! s' = Some j" if "start is j \<le> s'" "s' \<le> s" for s'
    using slot_owners_nth [of "length is" "is" j s'] j that by simp
  with s j have "j = i" by force
  moreover have "slot_to_logical m s' = Some j" if "start is j \<le> s'" "s' \<le> s" for s'
    using own [OF that] that s by (simp add: m slot_to_logical_def from_insns_eq length_slot_owners)
  moreover have "logical_to_slot m j = Some (start is j)"
    using j by (simp add: m logical_to_slot_def from_insns_eq)
  ultimately show "\<exists>t. logical_to_slot m i = Some t \<and> t \<le> s \<and> (\<forall>s'. t \<le> s' \<and> s' \<le> s \<longrightarrow> slot_to_logical m s' = Some i)"
    using j(2) by blast
qed

subsection \<open>Decoding the text section\<close>

text \<open>\<open>ebpf::get_insn\<close> and \<open>ebpf::augment_lddw_unchecked\<close> are arguments: the first reads the
  instruction at a slot, the second completes the immediate of an \<open>lddw\<close>.\<close>

record text_codec =
  get_insn :: "bytes \<Rightarrow> nat \<Rightarrow> insn"
  augment_lddw :: "bytes \<Rightarrow> insn \<Rightarrow> insn"

function decode_text :: "text_codec \<Rightarrow> bytes \<Rightarrow> nat \<Rightarrow> insn list" where
  "decode_text c tx slot =
     (if slot * INSN_SIZE < length tx then
        (let i = get_insn c tx slot in
         if opc i = LD_DW_IMM then augment_lddw c tx i # decode_text c tx (slot + 2)
         else i # decode_text c tx (slot + 1))
      else [])"
  by pat_completeness auto
termination
  by (relation "measure (\<lambda>(c, tx, slot). length tx - slot * INSN_SIZE)") auto

declare decode_text.simps [simp del]

definition image_insns :: "text_codec \<Rightarrow> bytes \<Rightarrow> insn list" where
  "image_insns c tx = decode_text c tx 0"

definition image_pc_map :: "text_codec \<Rightarrow> bytes \<Rightarrow> pc_map" where
  "image_pc_map c tx = from_insns (image_insns c tx)"

text \<open>What the tools document of the two library functions: completing an \<open>lddw\<close> keeps its opcode.\<close>

definition augment_keeps_opcode :: "text_codec \<Rightarrow> bool" where
  "augment_keeps_opcode c \<longleftrightarrow> (\<forall>tx i. opc (augment_lddw c tx i) = opc i)"

lemma decode_text_nth:
  assumes "augment_keeps_opcode c" "i < length (decode_text c tx s)"
  shows "(let raw = get_insn c tx (s + start (decode_text c tx s) i) in
     decode_text c tx s ! i = (if opc raw = LD_DW_IMM then augment_lddw c tx raw else raw))"
  using assms
proof (induction c tx s arbitrary: i rule: decode_text.induct)
  case (1 c tx s)
  let ?i0 = "get_insn c tx s"
  let ?h = "if opc ?i0 = LD_DW_IMM then augment_lddw c tx ?i0 else ?i0"
  let ?s' = "s + (if opc ?i0 = LD_DW_IMM then 2 else 1)"
  from 1(4) have lt: "s * INSN_SIZE < length tx"
    by (cases "s * INSN_SIZE < length tx") (simp_all add: decode_text.simps [of c tx s])
  have eq: "decode_text c tx s = ?h # decode_text c tx ?s'"
    using lt by (simp add: decode_text.simps [of c tx s] Let_def)
  have sp: "span ?h = (if opc ?i0 = LD_DW_IMM then 2 else 1)"
    using 1(3) by (auto simp: span_def augment_keeps_opcode_def)
  show ?case
  proof (cases i)
    case 0
    then show ?thesis by (simp add: eq start_def Let_def)
  next
    case (Suc k)
    then have "k < length (decode_text c tx ?s')" using 1(4) eq by simp
    then show ?thesis
      using 1(1,2,3) lt Suc sp by (auto simp: eq start_def Let_def add.assoc split: if_splits)
  qed
qed

subsection \<open>Properties\<close>

text \<open>C33: The slot and logical program counters of a decoded program form a partial bijection:
  every instruction has a first slot that maps back to it, every slot of the text belongs to one
  instruction, and a slot that is not an instruction's first is the second slot of the \<open>lddw\<close>
  before it.\<close>

theorem pc_map_bijection:
  fixes "is" :: "insn list"
  defines "m \<equiv> from_insns is"
  shows "(i < length is \<longleftrightarrow> logical_to_slot m i \<noteq> None)
    \<and> (logical_to_slot m i = Some s \<longrightarrow> slot_to_logical m s = Some i)
    \<and> (slot_to_logical m s = Some i \<longrightarrow> logical_to_slot m i = Some s
         \<or> opc (is ! i) = LD_DW_IMM \<and> 0 < s \<and> logical_to_slot m i = Some (s - 1))
    \<and> (s < start is (length is) \<longleftrightarrow> slot_to_logical m s \<noteq> None)"
proof -
  have ok: "pc_map_of m" by (auto simp: pc_map_of_def m_def)
  have len: "logical_len m = length is" by (simp add: m_def logical_len_def from_insns_eq)
  have sz: "length (s2l m) = start is (length is)" by (simp add: m_def from_insns_eq length_slot_owners)
  have own: "\<exists>j < length is. start is j \<le> s \<and> s < start is (Suc j) \<and> slot_to_logical m s = Some j"
    if "s < start is (length is)"
    using slot_owner_exists [OF that order_refl] slot_owners_nth [of "length is" "is" _ s] that sz
    by (auto simp: slot_to_logical_def m_def from_insns_eq)
  have "logical_to_slot m i = Some s \<or> opc (is ! i) = LD_DW_IMM \<and> 0 < s \<and> logical_to_slot m i = Some (s - 1)"
    if sl: "slot_to_logical m s = Some i"
  proof -
    have "s < start is (length is)" using sl sz by (auto simp: slot_to_logical_def split: if_splits)
    then obtain j where j: "j < length is" "start is j \<le> s" "s < start is (Suc j)" "slot_to_logical m s = Some j"
      using own by blast
    then have "j = i" using sl by simp
    moreover have "logical_to_slot m j = Some (start is j)" using j(1) by (simp add: m_def logical_to_slot_def from_insns_eq)
    ultimately show ?thesis using j start_Suc [OF j(1)] by (auto simp: span_def split: if_splits)
  qed
  moreover have "s < start is (length is) \<longleftrightarrow> slot_to_logical m s \<noteq> None"
    using own sz by (auto simp: slot_to_logical_def)
  ultimately show ?thesis
    using pcm.start_defined [OF ok, of i] pcm.start_owned [OF ok, of i s] len by auto
qed

theorem pc_map_bijection_witness:
  "slot_to_logical (from_insns [\<lparr>opc = 0x18, dst = 0, src = 0, off = 0, imm = 0\<rparr>,
      \<lparr>opc = 0x95, dst = 0, src = 0, off = 0, imm = 0\<rparr>]) 2 = Some 1"
  using pc_map_bijection [of 1 "[\<lparr>opc = 0x18, dst = 0, src = 0, off = 0, imm = 0\<rparr>,
      \<lparr>opc = 0x95, dst = 0, src = 0, off = 0, imm = 0\<rparr>]" 2]
  by (simp add: from_insns_eq logical_to_slot_def start_def span_def)



end
