(* ===== verification/Isa.thy ===== *)
theory Isa
  imports Pc_Map
begin

text \<open>
  Rendering of instructions as Lean terms and call/jump target resolution
  (\<open>qedlift/src/isa.rs\<close>), against the Lean decoder those terms must agree with
  (\<open>SVM/SBPF/Decode.lean\<close>, \<open>decodeInsn\<close>).  The Rust \<open>match\<close> on the opcode is a table from opcode to
  instruction shape.  The printed text is a function of the abstract Lean instruction, so agreement
  of the two is agreement of the texts.
\<close>

text \<open>A \<open>LiftError\<close> is its stable category; the message text is not modelled.\<close>

datatype diagnostic_kind =
    SyscallUnmodeled | SyscallUntraced | CallUnresolved | CallDepthExceeded | OpcodeUnmodeled | WalkerSteps
  | ByteAliasing | SymbolicOperand | UnsupportedConstruct | CuBudgetExceeded | WitnessFailed | TraceInput | Other

definition diagnostic_label :: "diagnostic_kind \<Rightarrow> string" where
  "diagnostic_label k = (case k of
      SyscallUnmodeled \<Rightarrow> ''syscall-unmodeled'' | SyscallUntraced \<Rightarrow> ''syscall-untraced''
    | CallUnresolved \<Rightarrow> ''call-unresolved'' | CallDepthExceeded \<Rightarrow> ''call-depth-exceeded''
    | OpcodeUnmodeled \<Rightarrow> ''opcode-unmodeled'' | WalkerSteps \<Rightarrow> ''walker-steps''
    | ByteAliasing \<Rightarrow> ''byte-aliasing'' | SymbolicOperand \<Rightarrow> ''symbolic-operand''
    | UnsupportedConstruct \<Rightarrow> ''unsupported-construct'' | CuBudgetExceeded \<Rightarrow> ''cu-budget-exceeded''
    | WitnessFailed \<Rightarrow> ''witness-failed'' | TraceInput \<Rightarrow> ''trace-input'' | Other \<Rightarrow> ''other'')"

subsection \<open>Shapes and their tables\<close>

datatype shape =
    SLddw | SLdx width | SSt width | SStx width | SAlu64 alu_op bool | SNeg64 | SAlu32 alu_op bool | SNeg32
  | SEndian bool | SJcc cond bool | SJa | SCallImm | SCallReg | SExit

text \<open>The arms of \<open>insn_to_lean_full\<close>, in source order.\<close>

definition insn_table :: "(u8 \<times> shape) list" where
  "insn_table =
    [(0x71, SLdx Byte), (0x69, SLdx Half), (0x61, SLdx Word_w), (0x79, SLdx Dword),
     (0x73, SStx Byte), (0x6B, SStx Half), (0x63, SStx Word_w), (0x7B, SStx Dword),
     (0x07, SAlu64 Add False), (0x17, SAlu64 Sub False), (0xB7, SAlu64 Mov False), (0x57, SAlu64 And False),
     (0x67, SAlu64 Lsh False), (0x18, SLddw),
     (0x72, SSt Byte), (0x6A, SSt Half), (0x62, SSt Word_w), (0x7A, SSt Dword),
     (0x0F, SAlu64 Add True), (0x1F, SAlu64 Sub True), (0x2F, SAlu64 Mul True), (0x3F, SAlu64 Div True),
     (0x9F, SAlu64 Mod True), (0x3C, SAlu32 Div True), (0x9C, SAlu32 Mod True), (0x4F, SAlu64 Or True),
     (0x5F, SAlu64 And True), (0xAF, SAlu64 Xor True), (0x6F, SAlu64 Lsh True), (0x7F, SAlu64 Rsh True),
     (0xBF, SAlu64 Mov True), (0x95, SExit),
     (0x15, SJcc Eq False), (0x55, SJcc Ne False), (0x25, SJcc Gt False), (0x35, SJcc Ge False),
     (0xA5, SJcc Lt False), (0xB5, SJcc Le False),
     (0x77, SAlu64 Rsh False), (0x47, SAlu64 Or False), (0xA7, SAlu64 Xor False), (0x27, SAlu64 Mul False),
     (0x37, SAlu64 Div False), (0x97, SAlu64 Mod False), (0x87, SNeg64), (0xD4, SEndian False), (0xDC, SEndian True),
     (0x04, SAlu32 Add False), (0x14, SAlu32 Sub False), (0x24, SAlu32 Mul False), (0x34, SAlu32 Div False),
     (0x94, SAlu32 Mod False), (0x44, SAlu32 Or False), (0x54, SAlu32 And False), (0xA4, SAlu32 Xor False),
     (0x64, SAlu32 Lsh False), (0x74, SAlu32 Rsh False), (0xB4, SAlu32 Mov False), (0x84, SNeg32),
     (0x0C, SAlu32 Add True), (0x1C, SAlu32 Sub True), (0x2C, SAlu32 Mul True), (0x4C, SAlu32 Or True),
     (0x5C, SAlu32 And True), (0xAC, SAlu32 Xor True), (0x6C, SAlu32 Lsh True), (0x7C, SAlu32 Rsh True),
     (0xBC, SAlu32 Mov True),
     (0xC7, SAlu64 Arsh False), (0xCF, SAlu64 Arsh True), (0xC4, SAlu32 Arsh False), (0xCC, SAlu32 Arsh True),
     (0x05, SJa), (0x65, SJcc Sgt False), (0xD5, SJcc Sle False), (0xC5, SJcc Slt False),
     (0x1D, SJcc Eq True), (0x5D, SJcc Ne True), (0xAD, SJcc Lt True), (0xDD, SJcc Sle True),
     (0x2D, SJcc Gt True), (0xBD, SJcc Le True), (0x7D, SJcc Sge True), (0x3D, SJcc Ge True),
     (0x6D, SJcc Sgt True), (0xCD, SJcc Slt True), (0x4D, SJcc Set_c True), (0x75, SJcc Sge False),
     (0x45, SJcc Set_c False), (0x85, SCallImm), (0x8D, SCallReg)]"

text \<open>The arms of \<open>decodeInsn\<close>, in source order.\<close>

definition decode_table :: "(u8 \<times> shape) list" where
  "decode_table =
    [(0x07, SAlu64 Add False), (0x17, SAlu64 Sub False), (0x27, SAlu64 Mul False), (0x37, SAlu64 Div False),
     (0x47, SAlu64 Or False), (0x57, SAlu64 And False), (0x67, SAlu64 Lsh False), (0x77, SAlu64 Rsh False),
     (0x87, SNeg64), (0x97, SAlu64 Mod False), (0xA7, SAlu64 Xor False), (0xB7, SAlu64 Mov False),
     (0xC7, SAlu64 Arsh False),
     (0x0F, SAlu64 Add True), (0x1F, SAlu64 Sub True), (0x2F, SAlu64 Mul True), (0x3F, SAlu64 Div True),
     (0x4F, SAlu64 Or True), (0x5F, SAlu64 And True), (0x6F, SAlu64 Lsh True), (0x7F, SAlu64 Rsh True),
     (0x9F, SAlu64 Mod True), (0xAF, SAlu64 Xor True), (0xBF, SAlu64 Mov True), (0xCF, SAlu64 Arsh True),
     (0x04, SAlu32 Add False), (0x14, SAlu32 Sub False), (0x24, SAlu32 Mul False), (0x34, SAlu32 Div False),
     (0x44, SAlu32 Or False), (0x54, SAlu32 And False), (0x64, SAlu32 Lsh False), (0x74, SAlu32 Rsh False),
     (0x84, SNeg32), (0x94, SAlu32 Mod False), (0xA4, SAlu32 Xor False), (0xB4, SAlu32 Mov False),
     (0xC4, SAlu32 Arsh False),
     (0x0C, SAlu32 Add True), (0x1C, SAlu32 Sub True), (0x2C, SAlu32 Mul True), (0x3C, SAlu32 Div True),
     (0x4C, SAlu32 Or True), (0x5C, SAlu32 And True), (0x6C, SAlu32 Lsh True), (0x7C, SAlu32 Rsh True),
     (0x9C, SAlu32 Mod True), (0xAC, SAlu32 Xor True), (0xBC, SAlu32 Mov True), (0xCC, SAlu32 Arsh True),
     (0xD4, SEndian False), (0xDC, SEndian True), (0x05, SJa),
     (0x15, SJcc Eq False), (0x25, SJcc Gt False), (0x35, SJcc Ge False), (0x45, SJcc Set_c False),
     (0x55, SJcc Ne False), (0x65, SJcc Sgt False), (0x75, SJcc Sge False), (0xA5, SJcc Lt False),
     (0xB5, SJcc Le False), (0xC5, SJcc Slt False), (0xD5, SJcc Sle False),
     (0x1D, SJcc Eq True), (0x2D, SJcc Gt True), (0x3D, SJcc Ge True), (0x4D, SJcc Set_c True),
     (0x5D, SJcc Ne True), (0x6D, SJcc Sgt True), (0x7D, SJcc Sge True), (0xAD, SJcc Lt True),
     (0xBD, SJcc Le True), (0xCD, SJcc Slt True), (0xDD, SJcc Sle True),
     (0x85, SCallImm), (0x8D, SCallReg), (0x95, SExit),
     (0x71, SLdx Byte), (0x69, SLdx Half), (0x61, SLdx Word_w), (0x79, SLdx Dword),
     (0x72, SSt Byte), (0x6A, SSt Half), (0x62, SSt Word_w), (0x7A, SSt Dword),
     (0x73, SStx Byte), (0x6B, SStx Half), (0x63, SStx Word_w), (0x7B, SStx Dword), (0x18, SLddw)]"

text \<open>\<open>insn.opc & 0xf7\<close> against the 32-bit jump opcodes; the Lean decoder lists them in another order.\<close>

definition jmp32_table :: "(u8 \<times> cond) list" where
  "jmp32_table = [(0x16, Eq), (0x56, Ne), (0x26, Gt), (0x36, Ge), (0xA6, Lt), (0xB6, Le), (0x66, Sgt),
     (0x76, Sge), (0xC6, Slt), (0xD6, Sle), (0x46, Set_c)]"

definition decode_jmp32_table :: "(u8 \<times> cond) list" where
  "decode_jmp32_table = [(0x16, Eq), (0x26, Gt), (0x36, Ge), (0x46, Set_c), (0x56, Ne), (0x66, Sgt),
     (0x76, Sge), (0xA6, Lt), (0xB6, Le), (0xC6, Slt), (0xD6, Sle)]"

definition clear_x :: "u8 \<Rightarrow> u8" where
  "clear_x b = and b 0xF7"

definition x_set :: "u8 \<Rightarrow> bool" where
  "x_set b \<longleftrightarrow> and b 8 \<noteq> 0"

subsection \<open>Printing\<close>

fun digits :: "nat \<Rightarrow> string" where
  "digits n = (if n < 10 then [char_of (n + 48)] else digits (n div 10) @ [char_of (n mod 10 + 48)])"

declare digits.simps [simp del]

definition show_int :: "int \<Rightarrow> string" where
  "show_int i = (if i < 0 then CHR ''-'' # digits (nat (- i)) else digits (nat i))"

fun join :: "string \<Rightarrow> string list \<Rightarrow> string" where
  "join sep [] = []"
| "join sep [x] = x"
| "join sep (x # xs) = x @ sep @ join sep xs"

definition lean_off :: "int \<Rightarrow> string" where
  "lean_off d = (if d < 0 then ''('' @ show_int d @ '')'' else show_int d)"

definition reg_str :: "nat \<Rightarrow> string" where
  "reg_str n = (if n \<le> 10 then ''.r'' @ digits n else ''?reg'')"

definition width_str :: "width \<Rightarrow> string" where
  "width_str w = (case w of Byte \<Rightarrow> ''.byte'' | Half \<Rightarrow> ''.half'' | Word_w \<Rightarrow> ''.word'' | Dword \<Rightarrow> ''.dword'')"

definition alu_str :: "alu_op \<Rightarrow> string" where
  "alu_str a = (case a of Add \<Rightarrow> ''.add'' | Sub \<Rightarrow> ''.sub'' | Mul \<Rightarrow> ''.mul'' | Div \<Rightarrow> ''.div'' | Mod \<Rightarrow> ''.mod''
     | Or \<Rightarrow> ''.or'' | And \<Rightarrow> ''.and'' | Xor \<Rightarrow> ''.xor'' | Lsh \<Rightarrow> ''.lsh'' | Rsh \<Rightarrow> ''.rsh'' | Arsh \<Rightarrow> ''.arsh''
     | Mov \<Rightarrow> ''.mov'')"

definition cond_str :: "cond \<Rightarrow> string" where
  "cond_str c = (case c of Eq \<Rightarrow> ''eq'' | Ne \<Rightarrow> ''ne'' | Gt \<Rightarrow> ''gt'' | Ge \<Rightarrow> ''ge'' | Lt \<Rightarrow> ''lt'' | Le \<Rightarrow> ''le''
     | Sgt \<Rightarrow> ''sgt'' | Sge \<Rightarrow> ''sge'' | Slt \<Rightarrow> ''slt'' | Sle \<Rightarrow> ''sle'' | Set_c \<Rightarrow> ''set'')"

definition operand_str :: "operand \<Rightarrow> string" where
  "operand_str x = (case x of Imm i \<Rightarrow> ''.imm ('' @ show_int i @ '')'' | Reg r \<Rightarrow> ''.reg '' @ reg_str r)"

fun render :: "lean_insn \<Rightarrow> string" where
  "render (Lddw d i) = ''.lddw '' @ reg_str d @ '' ('' @ show_int i @ '')''"
| "render (Ldx w d s o1) = ''.ldx '' @ width_str w @ '' '' @ reg_str d @ '' '' @ reg_str s @ '' '' @ lean_off o1"
| "render (St w d o1 i) = ''.st '' @ width_str w @ '' '' @ reg_str d @ '' '' @ lean_off o1 @ '' ('' @ show_int i @ '')''"
| "render (Stx w d o1 s) = ''.stx '' @ width_str w @ '' '' @ reg_str d @ '' '' @ lean_off o1 @ '' '' @ reg_str s"
| "render (Alu64 a d x) = alu_str a @ ''64 '' @ reg_str d @ '' ('' @ operand_str x @ '')''"
| "render (Neg64 d) = ''.neg64 '' @ reg_str d"
| "render (Alu32 a d x) = alu_str a @ ''32 '' @ reg_str d @ '' ('' @ operand_str x @ '')''"
| "render (Neg32 d) = ''.neg32 '' @ reg_str d"
| "render (Endian d i be) = ''.endian '' @ reg_str d @ '' '' @ show_int i @ (if be then '' true'' else '' false'')"
| "render (Jcc c d x t) = ''.j'' @ cond_str c @ '' '' @ reg_str d @ '' ('' @ operand_str x @ '') '' @ show_int t"
| "render (Jmp32 c d x t) = ''.jmp32 .'' @ cond_str c @ '' '' @ reg_str d @ '' ('' @ operand_str x @ '') '' @ show_int t"
| "render (Ja t) = ''.ja '' @ show_int t"
| "render (Call n) = ''.call .'' @ n"
| "render (CallUnknown h) = ''.call (.unknown '' @ digits h @ '')''"
| "render (CallLocal t) = ''.call_local '' @ show_int t"
| "render (Callx r) = ''.callx '' @ reg_str r"
| "render Exit = ''.exit''"

subsection \<open>The renderer\<close>

text \<open>The host syscalls the renderer recognises, tried in this order.\<close>

definition rendered_syscalls :: "string list" where
  "rendered_syscalls = [''abort'', ''sol_panic_'', ''sol_secp256k1_recover'', ''sol_get_clock_sysvar'',
     ''sol_get_rent_sysvar'', ''sol_set_return_data'', ''sol_create_program_address'', ''sol_sha256'',
     ''sol_log_64_'']"

definition imm_u32 :: "insn \<Rightarrow> u32" where
  "imm_u32 i = word_of_int (imm i)"

definition render_call :: "(string \<Rightarrow> u32) \<Rightarrow> insn \<Rightarrow> nat option \<Rightarrow> sbpf_version \<Rightarrow> (diagnostic_kind, string) res" where
  "render_call hash i call_target v =
     (if v = V3 \<and> src i = 1 then
        ok_or CallUnresolved (map_option (\<lambda>t. render (CallLocal (int t))) call_target)
      else if v = V3 \<and> src i \<noteq> 0 then Err UnsupportedConstruct
      else (case find (\<lambda>n. imm_u32 i = hash n) rendered_syscalls of
              Some n \<Rightarrow> Ok (render (Call n))
            | None \<Rightarrow>
                if v = V3 then Err CallUnresolved
                else (case call_target of
                        Some t \<Rightarrow> Ok (render (CallLocal (int t)))
                      | None \<Rightarrow> Ok ''.call_local TARGET_PC_NOT_RESOLVED'')))"

definition shape_insn :: "shape \<Rightarrow> insn \<Rightarrow> int \<Rightarrow> lean_insn" where
  "shape_insn sh i jt = (let d = unat (dst i); s = unat (src i);
       x = (\<lambda>r. if r then Reg s else Imm (imm i)) in
     case sh of
       SLddw \<Rightarrow> Lddw d (imm i)
     | SLdx w \<Rightarrow> Ldx w d s (off i)
     | SSt w \<Rightarrow> St w d (off i) (imm i)
     | SStx w \<Rightarrow> Stx w d (off i) s
     | SAlu64 a r \<Rightarrow> Alu64 a d (x r)
     | SNeg64 \<Rightarrow> Neg64 d
     | SAlu32 a r \<Rightarrow> Alu32 a d (x r)
     | SNeg32 \<Rightarrow> Neg32 d
     | SEndian be \<Rightarrow> Endian d (imm i) be
     | SJcc c r \<Rightarrow> Jcc c d (x r) jt
     | SJa \<Rightarrow> Ja jt
     | SCallImm \<Rightarrow> Exit
     | SCallReg \<Rightarrow> Callx d
     | SExit \<Rightarrow> Exit)"

definition insn_to_lean_full :: "(string \<Rightarrow> u32) \<Rightarrow> insn \<Rightarrow> nat \<Rightarrow> nat option \<Rightarrow> int option \<Rightarrow> sbpf_version
    \<Rightarrow> (diagnostic_kind, string) res" where
  "insn_to_lean_full hash i pc call_target jump_target v =
     (let jt = (case jump_target of Some t \<Rightarrow> t | None \<Rightarrow> int pc + 1 + off i) in
      case map_of jmp32_table (clear_x (opc i)) of
        Some c \<Rightarrow> Ok (render (Jmp32 c (unat (dst i)) (if x_set (opc i) then Reg (unat (src i)) else Imm (imm i)) jt))
      | None \<Rightarrow>
          (case map_of insn_table (opc i) of
             None \<Rightarrow> Err OpcodeUnmodeled
           | Some SCallImm \<Rightarrow> render_call hash i call_target v
           | Some SCallReg \<Rightarrow> if v = V3 then Ok (render (Callx (unat (dst i)))) else Err OpcodeUnmodeled
           | Some sh \<Rightarrow> Ok (render (shape_insn sh i jt))))"

subsection \<open>Target resolution\<close>

definition resolve_callx_target_logical :: "u64 \<Rightarrow> pc_map \<Rightarrow> u64 \<Rightarrow> (diagnostic_kind, nat) res" where
  "resolve_callx_target_logical text_offset m address =
     (if address < text_offset then Err CallUnresolved
      else let slot = unat (address - text_offset) div INSN_SIZE in
           bind_res (ok_or CallUnresolved (slot_to_logical m slot)) (\<lambda>logical.
           if 0 < slot \<and> slot_to_logical m (slot - 1) = Some logical then Err CallUnresolved
           else Ok logical))"

text \<open>\<open>functions\<close> is the symbol-derived function list of the static analysis (slot and hash),
  \<open>registry\<close> the load-time function registry; both come from the ELF loader.\<close>

definition resolve_call_target :: "(nat \<times> u32) list \<Rightarrow> insn \<Rightarrow> nat option" where
  "resolve_call_target functions i =
     (if opc i \<noteq> CALL_IMM then None
      else map_option fst (find (\<lambda>(pc, h). h = imm_u32 i) functions))"

definition resolve_call_target_logical ::
  "sbpf_version \<Rightarrow> pc_map \<Rightarrow> nat \<Rightarrow> (nat \<times> u32) list \<Rightarrow> (u32 \<Rightarrow> nat option) \<Rightarrow> insn \<Rightarrow> nat \<Rightarrow> nat option" where
  "resolve_call_target_logical v m n functions registry i logical_pc =
     (if opc i \<noteq> CALL_IMM then None
      else if v = V3 then
        (if src i \<noteq> 1 then None
         else let t = resolve_jump_target m logical_pc (imm i) in
              if 0 \<le> t \<and> t < int n then Some (nat t) else None)
      else
        (case (case resolve_call_target functions i of Some s \<Rightarrow> Some s | None \<Rightarrow> registry (imm_u32 i)) of
           None \<Rightarrow> None
         | Some slot \<Rightarrow> Some (case slot_to_logical m slot of Some l \<Rightarrow> l | None \<Rightarrow> slot)))"

subsection \<open>The Lean decoder\<close>

text \<open>\<open>resolveTarget\<close> over the slot map; a second \<open>lddw\<close> slot is rejected.\<close>

definition resolve_target :: "nat list \<Rightarrow> int \<Rightarrow> nat option" where
  "resolve_target slot_map slot =
     (if slot < 0 then None
      else let n = nat slot in
           if n < length slot_map then
             (if 0 < n \<and> slot_map ! (n - 1) = slot_map ! n then None else Some (slot_map ! n))
           else None)"

definition zero_divisor_opcodes :: "u8 list" where
  "zero_divisor_opcodes = [0x34, 0x37, 0x94, 0x97]"

definition store_opcodes :: "u8 list" where
  "store_opcodes = [0x72, 0x6A, 0x62, 0x7A, 0x73, 0x6B, 0x63, 0x7B]"

text \<open>The checks every instruction passes first: no write to \<open>r10\<close>, register fields in range, no
  division by an immediate zero.\<close>

definition decode_checks :: "insn \<Rightarrow> bool" where
  "decode_checks i \<longleftrightarrow>
     \<not> ((insn_class (opc i) \<in> {1, 4, 7} \<or> opc i = LD_DW_IMM) \<and> dst i = 10)
     \<and> src i \<le> 10 \<and> (dst i \<le> 9 \<or> opc i \<in> set store_opcodes)
     \<and> \<not> (opc i \<in> set zero_divisor_opcodes \<and> imm i = 0)"

definition decode_call :: "(u32 \<Rightarrow> string option) \<Rightarrow> nat list \<Rightarrow> (u32 \<Rightarrow> nat option) \<Rightarrow> sbpf_version \<Rightarrow> nat \<Rightarrow> insn \<Rightarrow> lean_insn option" where
  "decode_call from_hash slot_map fn_reg v slot i =
     (if v = V3 then
        (if src i = 0 then Some (case from_hash (imm_u32 i) of Some n \<Rightarrow> Call n | None \<Rightarrow> CallUnknown (unat (imm_u32 i)))
         else if src i = 1 then map_option (\<lambda>t. CallLocal (int t)) (resolve_target slot_map (int slot + 1 + imm i))
         else None)
      else (case from_hash (imm_u32 i) of
              Some n \<Rightarrow> Some (Call n)
            | None \<Rightarrow> (case fn_reg (imm_u32 i) of
                 Some s \<Rightarrow> (if s < length slot_map then Some (CallLocal (int (slot_map ! s))) else None)
               | None \<Rightarrow> Some (CallUnknown (unat (imm_u32 i))))))"

definition shift_ok :: "shape \<Rightarrow> insn \<Rightarrow> bool" where
  "shift_ok sh i = (case sh of
      SAlu64 a False \<Rightarrow> (a \<in> {Lsh, Rsh, Arsh} \<longrightarrow> 0 \<le> imm i \<and> imm i < 64)
    | SAlu32 a False \<Rightarrow> (a \<in> {Lsh, Rsh, Arsh} \<longrightarrow> 0 \<le> imm i \<and> imm i < 32)
    | SEndian _ \<Rightarrow> imm i \<in> {16, 32, 64}
    | _ \<Rightarrow> True)"

definition decode_insn :: "(u32 \<Rightarrow> string option) \<Rightarrow> nat list \<Rightarrow> (u32 \<Rightarrow> nat option) \<Rightarrow> sbpf_version \<Rightarrow> nat \<Rightarrow> insn \<Rightarrow> lean_insn option" where
  "decode_insn from_hash slot_map fn_reg v slot i =
     (let target = resolve_target slot_map (int slot + 1 + off i) in
      if \<not> decode_checks i then None
      else if v = V3 \<and> insn_class (opc i) = BPF_JMP32 then
        (case (map_of decode_jmp32_table (clear_x (opc i)), target) of
           (Some c, Some t) \<Rightarrow> Some (Jmp32 c (unat (dst i)) (if x_set (opc i) then Reg (unat (src i)) else Imm (imm i)) (int t))
         | _ \<Rightarrow> None)
      else (case map_of decode_table (opc i) of
              None \<Rightarrow> None
            | Some sh \<Rightarrow>
                if \<not> shift_ok sh i then None
                else (case sh of
                   SCallImm \<Rightarrow> decode_call from_hash slot_map fn_reg v slot i
                 | SCallReg \<Rightarrow> if v = V3 then Some (Callx (unat (dst i)))
                               else if 0 \<le> imm i \<and> imm i < 10 then Some (Callx (nat (imm i))) else None
                 | SJa \<Rightarrow> map_option (\<lambda>t. Ja (int t)) target
                 | SJcc c r \<Rightarrow> map_option (\<lambda>t. shape_insn sh i (int t)) target
                 | SLddw \<Rightarrow> Some (Lddw (unat (dst i)) (imm i mod 2 ^ 64))
                 | _ \<Rightarrow> Some (shape_insn sh i 0))))"

subsection \<open>Agreement\<close>

lemma distinct_opcodes: "distinct (map fst insn_table)" "distinct (map fst decode_table)"
  by (simp_all add: insn_table_def decode_table_def)

lemma same_arms: "set insn_table = set decode_table"
  by code_simp

lemma tables_agree: "map_of insn_table = map_of decode_table"
  using map_of_inject_set [OF distinct_opcodes] same_arms by blast

lemma jmp32_tables_agree: "map_of jmp32_table = map_of decode_jmp32_table"
proof -
  have "distinct (map fst jmp32_table)" "distinct (map fst decode_jmp32_table)" "set jmp32_table = set decode_jmp32_table"
    by (simp_all add: jmp32_table_def decode_jmp32_table_def) code_simp
  then show ?thesis using map_of_inject_set by blast
qed

lemma class_clear_x: "insn_class (clear_x b) = insn_class b"
  by (simp add: insn_class_def clear_x_def and.assoc)

lemma jmp32_class: "map_of jmp32_table (clear_x b) = Some c \<Longrightarrow> insn_class b = BPF_JMP32"
proof -
  assume "map_of jmp32_table (clear_x b) = Some c"
  then have "(clear_x b, c) \<in> set jmp32_table" by (rule map_of_SomeD)
  moreover have "\<forall>(k, c) \<in> set jmp32_table. insn_class k = BPF_JMP32"
    by (simp add: jmp32_table_def insn_class_def)
  ultimately show ?thesis using class_clear_x [of b] by auto
qed

lemma table_class: "map_of decode_table b = Some sh \<Longrightarrow> insn_class b \<noteq> BPF_JMP32"
proof -
  assume "map_of decode_table b = Some sh"
  then have "(b, sh) \<in> set decode_table" by (rule map_of_SomeD)
  moreover have "list_all (\<lambda>(k, sh). insn_class k \<noteq> BPF_JMP32) decode_table"
    by (simp add: decode_table_def insn_class_def)
  ultimately show ?thesis by (auto simp: list_all_iff)
qed

lemma resolve_targets_agree:
  assumes "logical_to_slot (from_insns is) pc = Some slot"
    and "resolve_target (map the (s2l (from_insns is))) (int slot + 1 + d) = Some t"
  shows "resolve_jump_target (from_insns is) pc d = int t" "t < length is"
proof -
  let ?m = "from_insns is"
  have pc: "pc < length (l2s ?m)" "l2s ?m ! pc = slot"
    using assms(1) by (auto simp: logical_to_slot_def split: if_splits)
  let ?s = "int slot + 1 + d"
  have s: "0 \<le> ?s" "nat ?s < length (s2l ?m)" "t = the (s2l ?m ! nat ?s)"
    using assms(2) by (auto simp: resolve_target_def Let_def split: if_splits)
  have "nat ?s < start is (length is)" using s(2) by (simp add: from_insns_eq length_slot_owners)
  then obtain i where "i < length is" "s2l ?m ! nat ?s = Some i"
    using slot_owner_exists [OF _ order_refl] slot_owners_nth [of "length is" "is" _ "nat ?s"]
    by (metis from_insns_eq order_refl pc_map.select_convs(2))
  with s pc show "resolve_jump_target ?m pc d = int t" "t < length is"
    by (simp_all add: resolve_jump_target_def slot_to_logical_def Let_def)
qed

text \<open>The setting in which a rendered instruction is compared with the decoder: the targets the
  driver resolves, and a syscall hash table whose named entries are the rendered syscalls.\<close>

definition hashes_agree :: "(string \<Rightarrow> u32) \<Rightarrow> (u32 \<Rightarrow> string option) \<Rightarrow> bool" where
  "hashes_agree hash from_hash \<longleftrightarrow> list_all (\<lambda>n. from_hash (hash n) = Some n) rendered_syscalls"

definition only_rendered :: "(string \<Rightarrow> u32) \<Rightarrow> (u32 \<Rightarrow> string option) \<Rightarrow> insn \<Rightarrow> bool" where
  "only_rendered hash from_hash i \<longleftrightarrow> (case from_hash (imm_u32 i) of
      None \<Rightarrow> True | Some n \<Rightarrow> n \<in> set rendered_syscalls \<and> hash n = imm_u32 i)"

definition functions_agree :: "(nat \<times> u32) list \<Rightarrow> (u32 \<Rightarrow> nat option) \<Rightarrow> bool" where
  "functions_agree functions registry \<longleftrightarrow> list_all (\<lambda>(s, h). registry h = Some s) functions"

lemma find_syscall:
  assumes "hashes_agree hash from_hash" "only_rendered hash from_hash i" "from_hash (imm_u32 i) = Some n"
  shows "find (\<lambda>n. imm_u32 i = hash n) rendered_syscalls = Some n"
proof -
  have n: "n \<in> set rendered_syscalls" "hash n = imm_u32 i" using assms(2,3) by (simp_all add: only_rendered_def)
  then obtain m where m: "find (\<lambda>n. imm_u32 i = hash n) rendered_syscalls = Some m"
    by (cases "find (\<lambda>n. imm_u32 i = hash n) rendered_syscalls") (auto simp: find_None_iff)
  then have "imm_u32 i = hash m" "m \<in> set rendered_syscalls" by (auto simp: find_Some_iff)
  then have "m = n" using assms(1,3) by (simp add: hashes_agree_def list_all_iff)
  then show ?thesis using m by simp
qed

lemma find_no_syscall:
  assumes "hashes_agree hash from_hash" "from_hash (imm_u32 i) = None"
  shows "find (\<lambda>n. imm_u32 i = hash n) rendered_syscalls = None"
  using assms by (auto simp: find_None_iff hashes_agree_def list_all_iff)

lemma call_target_V0:
  assumes "functions_agree functions registry" "opc i = CALL_IMM" "registry (imm_u32 i) = Some s"
    and "s < length (s2l (from_insns is))"
  shows "resolve_call_target_logical V0 (from_insns is) n functions registry i pc
    = Some (the (s2l (from_insns is) ! s))"
proof -
  have sl: "(case resolve_call_target functions i of Some s \<Rightarrow> Some s | None \<Rightarrow> registry (imm_u32 i)) = Some s"
  proof (cases "find (\<lambda>(pc, h). h = imm_u32 i) functions")
    case None
    then show ?thesis using assms(2,3) by (simp add: resolve_call_target_def)
  next
    case (Some e)
    then have "e \<in> set functions" "snd e = imm_u32 i" by (auto dest: find_SomeD)
    then have "registry (imm_u32 i) = Some (fst e)" using assms(1) by (auto simp: functions_agree_def list_all_iff)
    then show ?thesis using Some assms(2,3) by (simp add: resolve_call_target_def)
  qed
  have "s < start is (length is)" using assms(4) by (simp add: from_insns_eq length_slot_owners)
  then obtain j where "s2l (from_insns is) ! s = Some j"
    using slot_owner_exists [OF _ order_refl] slot_owners_nth [of "length is" "is" _ s]
    by (metis from_insns_eq order_refl pc_map.select_convs(2))
  then show ?thesis using sl assms(2,4) by (simp add: resolve_call_target_logical_def slot_to_logical_def)
qed

lemma render_call_agrees:
  assumes dec: "decode_call from_hash (map the (s2l (from_insns is))) registry v slot i = Some li"
    and li: "\<And>h. li \<noteq> CallUnknown h"
    and pc: "logical_to_slot (from_insns is) pc = Some slot" and opc: "opc i = CALL_IMM"
    and H: "hashes_agree hash from_hash" "only_rendered hash from_hash i" "functions_agree functions registry"
  shows "render_call hash i (resolve_call_target_logical v (from_insns is) (length is) functions registry i pc) v = Ok (render li)"
proof (cases "v = V3 \<and> src i = 1")
  case True
  then obtain t where t: "resolve_target (map the (s2l (from_insns is))) (int slot + 1 + imm i) = Some t" "li = CallLocal (int t)"
    using dec by (auto simp: decode_call_def)
  show ?thesis using True opc t resolve_targets_agree [OF pc t(1)]
    by (simp add: render_call_def resolve_call_target_logical_def Let_def)
next
  case False
  show ?thesis
  proof (cases "from_hash (imm_u32 i)")
    case None
    then have v: "v = V0" using dec li False by (cases v) (auto simp: decode_call_def split: if_splits)
    then obtain s where "registry (imm_u32 i) = Some s" "s < length (s2l (from_insns is))"
      "li = CallLocal (int (the (s2l (from_insns is) ! s)))"
      using dec li None by (auto simp: decode_call_def split: if_splits option.splits)
    then show ?thesis
      using call_target_V0 [OF H(3) opc] find_no_syscall [OF H(1) None] v by (simp add: render_call_def)
  next
    case (Some m)
    then have "li = Call m" "v = V3 \<longrightarrow> src i = 0"
      using dec False by (auto simp: decode_call_def split: if_splits)
    then show ?thesis using find_syscall [OF H(1,2) Some] False by (auto simp: render_call_def)
  qed
qed

text \<open>What an instruction needs for its rendering to be compared: an \<open>lddw\<close> immediate that fits a
  non-negative \<open>i64\<close>, and no V0 \<open>callx\<close>, which the renderer does not support.\<close>

definition renderable :: "sbpf_version \<Rightarrow> insn \<Rightarrow> bool" where
  "renderable v i \<longleftrightarrow> (opc i = LD_DW_IMM \<longrightarrow> 0 \<le> imm i \<and> imm i < 2 ^ 63) \<and> \<not> (v = V0 \<and> opc i = CALL_REG)"

lemma table_keys:
  "map_of decode_table b = Some SLddw \<Longrightarrow> b = LD_DW_IMM" "map_of decode_table b = Some SCallReg \<Longrightarrow> b = CALL_REG"
  "map_of decode_table b = Some SCallImm \<Longrightarrow> b = CALL_IMM"
proof -
  have "list_all (\<lambda>(k, sh). (sh = SLddw \<longrightarrow> k = LD_DW_IMM) \<and> (sh = SCallReg \<longrightarrow> k = CALL_REG)
      \<and> (sh = SCallImm \<longrightarrow> k = CALL_IMM)) decode_table"
    by (simp add: decode_table_def)
  then show "map_of decode_table b = Some SLddw \<Longrightarrow> b = LD_DW_IMM" "map_of decode_table b = Some SCallReg \<Longrightarrow> b = CALL_REG"
    "map_of decode_table b = Some SCallImm \<Longrightarrow> b = CALL_IMM"
    by (auto simp: list_all_iff dest!: map_of_SomeD)
qed

lemma insn_to_lean_agrees:
  assumes dec: "decode_insn from_hash (map the (s2l (from_insns is))) registry v slot i = Some li"
    and li: "\<And>h. li \<noteq> CallUnknown h" and rn: "renderable v i"
    and pc: "logical_to_slot (from_insns is) pc = Some slot"
    and H: "hashes_agree hash from_hash" "only_rendered hash from_hash i" "functions_agree functions registry"
  shows "insn_to_lean_full hash i pc (resolve_call_target_logical v (from_insns is) (length is) functions registry i pc)
     (Some (resolve_jump_target (from_insns is) pc (off i))) v = Ok (render li)"
proof (cases "map_of jmp32_table (clear_x (opc i))")
  case (Some c)
  then have cls: "insn_class (opc i) = BPF_JMP32" by (rule jmp32_class)
  then have "v = V3" using dec table_class by (cases v) (fastforce simp: decode_insn_def Let_def split: if_splits option.splits)+
  then obtain t where "resolve_target (map the (s2l (from_insns is))) (int slot + 1 + off i) = Some t"
    "li = Jmp32 c (unat (dst i)) (if x_set (opc i) then Reg (unat (src i)) else Imm (imm i)) (int t)"
    using dec cls Some by (auto simp: decode_insn_def Let_def jmp32_tables_agree split: if_splits option.splits)
  then show ?thesis using Some resolve_targets_agree(1) [OF pc] by (simp add: insn_to_lean_full_def)
next
  case None
  then obtain sh where sh: "map_of decode_table (opc i) = Some sh"
    using dec by (auto simp: decode_insn_def Let_def jmp32_tables_agree split: if_splits option.splits)
  have ncls: "insn_class (opc i) \<noteq> BPF_JMP32" using table_class [OF sh] .
  have shr: "map_of insn_table (opc i) = Some sh" using sh by (simp add: tables_agree)
  note tgt = resolve_targets_agree(1) [OF pc, of "off i"]
  show ?thesis
  proof (cases sh)
    case SCallImm
    then have "decode_call from_hash (map the (s2l (from_insns is))) registry v slot i = Some li"
      using dec sh ncls by (auto simp: decode_insn_def Let_def split: if_splits)
    from render_call_agrees [OF this li pc table_keys(3) [OF sh [unfolded SCallImm]] H] show ?thesis
      using None shr SCallImm by (simp add: insn_to_lean_full_def)
  next
    case SCallReg
    then show ?thesis using None shr dec sh ncls rn table_keys(2)
      by (cases v) (auto simp: insn_to_lean_full_def decode_insn_def Let_def renderable_def split: if_splits)
  next
    case SLddw
    then show ?thesis using None shr dec sh ncls rn table_keys(1)
      by (auto simp: insn_to_lean_full_def decode_insn_def Let_def renderable_def shape_insn_def split: if_splits)
  qed (use None shr dec sh ncls tgt in \<open>auto simp: insn_to_lean_full_def decode_insn_def Let_def shape_insn_def split: if_splits\<close>)
qed

lemma digits_head: "\<exists>c cs. digits n = c # cs \<and> c \<noteq> CHR ''-''"
proof (induction n rule: digits.induct)
  case (1 n)
  have "char_of (m + 48) \<noteq> CHR ''-''" if "m < 10" for m :: nat
  proof
    assume "char_of (m + 48) = CHR ''-''"
    then have "of_char (char_of (m + 48) :: char) = (of_char (CHR ''-'') :: nat)" by simp
    then show False using that by simp
  qed
  then show ?case using 1 by (cases "n < 10") (auto simp: digits.simps [of n])
qed

lemma show_int_sign: "i < 0 \<Longrightarrow> 0 \<le> j \<Longrightarrow> show_int i \<noteq> show_int j"
  using digits_head [of "nat j"] by (auto simp: show_int_def)

subsection \<open>Properties\<close>


definition sample_jump :: insn where
  "sample_jump = \<lparr>opc = 0x15, dst = 1, src = 0, off = 2, imm = - 7\<rparr>"

definition sample_text :: "insn list" where
  "sample_text = [sample_jump, \<lparr>opc = 0x18, dst = 2, src = 0, off = 0, imm = 5\<rparr>,
     \<lparr>opc = 0x95, dst = 0, src = 0, off = 0, imm = 0\<rparr>]"

definition sample_hash :: "string \<Rightarrow> u32" where
  "sample_hash n = word_of_nat (length (takeWhile (\<lambda>m. m \<noteq> n) rendered_syscalls)) + 1"

definition sample_from_hash :: "u32 \<Rightarrow> string option" where
  "sample_from_hash h = find (\<lambda>n. sample_hash n = h) rendered_syscalls"


text \<open>C35: A V3 \<open>callx\<close> address resolves only to an instruction that starts at the addressed slot:
  addresses below the text, past its end, or on the second slot of an \<open>lddw\<close> are
  \<open>CallUnresolved\<close>, every other slot resolves.\<close>

theorem callx_resolves_to_starts:
  fixes "is" :: "insn list" and base address :: u64
  defines "m \<equiv> from_insns is" and "slot \<equiv> unat (address - base) div INSN_SIZE"
  shows "(resolve_callx_target_logical base m address = Ok l \<longleftrightarrow> base \<le> address \<and> logical_to_slot m l = Some slot)
    \<and> ((\<forall>l. resolve_callx_target_logical base m address \<noteq> Ok l)
       \<longleftrightarrow> resolve_callx_target_logical base m address = Err CallUnresolved)"
proof (intro conjI)
  have ok: "pc_map_of m" by (auto simp: pc_map_of_def m_def)
  have two: "logical_to_slot m l = Some slot \<longleftrightarrow> slot_to_logical m slot = Some l \<and> \<not> (0 < slot \<and> slot_to_logical m (slot - 1) = Some l)"
  proof
    assume st: "logical_to_slot m l = Some slot"
    have "slot_to_logical m (slot - 1) \<noteq> Some l" if "0 < slot"
      using pcm.owner_start [OF ok, of "slot - 1" l] st that by auto
    then show "slot_to_logical m slot = Some l \<and> \<not> (0 < slot \<and> slot_to_logical m (slot - 1) = Some l)"
      using pcm.start_owned [OF ok st] by blast
  next
    assume "slot_to_logical m slot = Some l \<and> \<not> (0 < slot \<and> slot_to_logical m (slot - 1) = Some l)"
    then show "logical_to_slot m l = Some slot" using pcm.not_start_is_continuation [OF ok] by blast
  qed
  show "resolve_callx_target_logical base m address = Ok l \<longleftrightarrow> base \<le> address \<and> logical_to_slot m l = Some slot"
    unfolding two
    by (auto simp: resolve_callx_target_logical_def slot_def Let_def bind_res_eq_Ok not_less split: if_splits)
  show "(\<forall>l. resolve_callx_target_logical base m address \<noteq> Ok l)
       \<longleftrightarrow> resolve_callx_target_logical base m address = Err CallUnresolved"
    by (cases "slot_to_logical m (unat (address - base) div INSN_SIZE)")
      (auto simp: resolve_callx_target_logical_def Let_def)
qed

text \<open>The renderer prints an \<open>lddw\<close> whose 64-bit immediate has its top bit set (a negative
  \<open>i64\<close>) with a negative literal, while the Lean decoder reads the immediate unsigned: the printed
  instruction is not the decoded one.\<close>

theorem lddw_high_immediate_diverges:
  assumes "decode_insn from_hash slot_map registry v slot i = Some li" "opc i = LD_DW_IMM" "imm i < 0"
  shows "\<exists>s. insn_to_lean_full hash i pc ct jt v = Ok s \<and> s \<noteq> render li"
proof -
  have t: "map_of decode_table LD_DW_IMM = Some SLddw" by (simp add: decode_table_def)
  have j: "map_of jmp32_table (clear_x LD_DW_IMM) = None" by (simp add: jmp32_table_def clear_x_def)
  have "li = Lddw (unat (dst i)) (imm i mod 2 ^ 64)"
    using assms t by (auto simp: decode_insn_def Let_def insn_class_def split: if_splits)
  moreover have "insn_to_lean_full hash i pc ct jt v = Ok (render (Lddw (unat (dst i)) (imm i)))"
    using assms t j by (simp add: insn_to_lean_full_def tables_agree shape_insn_def)
  moreover have "0 \<le> imm i mod 2 ^ 64" by simp
  ultimately show ?thesis using show_int_sign [OF assms(3)] by simp
qed

theorem lddw_high_immediate_diverges_witness:
  "\<exists>s. insn_to_lean_full sample_hash \<lparr>opc = 0x18, dst = 2, src = 0, off = 0, imm = - 1\<rparr> 0 None None V0 = Ok s
     \<and> s \<noteq> render (Lddw 2 18446744073709551615)"
  by (rule lddw_high_immediate_diverges [of sample_from_hash "[]" "\<lambda>_. None" V0 0])
    (simp_all add: decode_insn_def decode_checks_def zero_divisor_opcodes_def store_opcodes_def decode_table_def
      shift_ok_def insn_class_def)

end
