(* ===== verification/Worklist.thy ===== *)
theory Worklist
  imports Prelude
begin

text \<open>
  The worklist loop the analyses share: pop a node, skip it when it is known, otherwise mark it and
  push its successors (\<open>Cfg::body\<close>, \<open>Cfg::reachable_functions\<close>, the graph walks of the success-proof
  tools).  A graph is a finite association list; a popped node without an entry is skipped, or, for
  the loops that index the graph, a panic.  The result is exactly the reachable part of the graph.
\<close>

type_synonym graph = "(nat \<times> nat list) list"

text \<open>The stack has its top at the head; \<open>stack.extend(succ)\<close> leaves the last successor on top.\<close>

function explore :: "bool \<Rightarrow> graph \<Rightarrow> nat set \<Rightarrow> nat list \<Rightarrow> (unit, nat set) res" where
  "explore strict G seen [] = Ok seen"
| "explore strict G seen (p # st) =
     (if p \<in> seen then explore strict G seen st
      else (case map_of G p of
              None \<Rightarrow> (if strict then Panic else explore strict G seen st)
            | Some ss \<Rightarrow> explore strict G (insert p seen) (rev ss @ st)))"
  by pat_completeness auto
termination
proof (relation "measures [\<lambda>(strict, G, seen, st). card (fst ` set G - seen), \<lambda>(strict, G, seen, st). length st]", goal_cases)
  case (4 strict G seen p st ss)
  then have "p \<in> fst ` set G - seen" by (force dest: map_of_SomeD)
  moreover have "finite (fst ` set G - seen)" by simp
  ultimately have "card (fst ` set G - insert p seen) < card (fst ` set G - seen)"
    by (metis Diff_insert card_Diff1_less)
  then show ?case by simp
qed auto

definition edge :: "graph \<Rightarrow> nat \<Rightarrow> nat \<Rightarrow> bool" where
  "edge G a b \<longleftrightarrow> (case map_of G a of None \<Rightarrow> False | Some ss \<Rightarrow> b \<in> set ss)"

definition nodes :: "graph \<Rightarrow> nat set" where
  "nodes G = fst ` set G"

lemma nodes_map_of: "p \<in> nodes G \<longleftrightarrow> map_of G p \<noteq> None"
  by (simp add: nodes_def map_of_eq_None_iff)

definition reachable :: "graph \<Rightarrow> nat \<Rightarrow> nat set" where
  "reachable G e = {q \<in> nodes G. (edge G)\<^sup>*\<^sup>* e q}"

lemma explore_total: "\<exists>S. explore False G seen st = Ok S"
  by (induction "False" G seen st rule: explore.induct) (auto split: option.splits)

lemma explore_grows: "explore strict G seen st = Ok S \<Longrightarrow> seen \<subseteq> S \<and> set st \<inter> nodes G \<subseteq> S"
proof (induction strict G seen st arbitrary: S rule: explore.induct)
  case (2 strict G seen p st)
  then show ?case by (fastforce simp: nodes_map_of split: if_splits option.splits)
qed simp

lemma explore_sound:
  "explore strict G seen st = Ok S \<Longrightarrow> q \<in> S \<Longrightarrow> q \<in> seen \<or> (\<exists>p \<in> set st. q \<in> reachable G p)"
proof (induction strict G seen st arbitrary: S rule: explore.induct)
  case (2 strict G seen p st)
  show ?case
  proof (cases "p \<in> seen \<or> map_of G p = None")
    case True
    then show ?thesis using 2 by (auto split: if_splits option.splits)
  next
    case False
    then obtain ss where ss: "map_of G p = Some ss" "p \<notin> seen" by auto
    with 2 have "q \<in> insert p seen \<or> (\<exists>p' \<in> set (rev ss @ st). q \<in> reachable G p')" by simp
    moreover have "p \<in> reachable G p" using ss by (simp add: reachable_def nodes_map_of)
    moreover have "q \<in> reachable G p" if "p' \<in> set ss" "q \<in> reachable G p'" for p'
      using that ss by (auto simp: reachable_def edge_def intro: converse_rtranclp_into_rtranclp)
    ultimately show ?thesis by auto
  qed
qed simp

lemma explore_closed:
  assumes "explore strict G seen st = Ok S"
    and "\<forall>a \<in> seen. \<forall>b. edge G a b \<longrightarrow> b \<in> nodes G \<longrightarrow> b \<in> seen \<or> b \<in> set st"
  shows "\<forall>a \<in> S. \<forall>b. edge G a b \<longrightarrow> b \<in> nodes G \<longrightarrow> b \<in> S"
  using assms
proof (induction strict G seen st arbitrary: S rule: explore.induct)
  case (2 strict G seen p st)
  show ?case
  proof (cases "p \<in> seen \<or> map_of G p = None")
    case True
    have inv: "\<forall>a \<in> seen. \<forall>b. edge G a b \<longrightarrow> b \<in> nodes G \<longrightarrow> b \<in> seen \<or> b \<in> set st"
    proof (intro ballI allI impI)
      fix a b assume "a \<in> seen" "edge G a b" "b \<in> nodes G"
      then have "b \<in> seen \<or> b = p \<or> b \<in> set st" using "2.prems"(2) by auto
      then show "b \<in> seen \<or> b \<in> set st" using True \<open>b \<in> nodes G\<close> by (auto simp: nodes_map_of)
    qed
    show ?thesis
    proof (cases "p \<in> seen")
      case True
      then show ?thesis using "2.IH"(1) [OF True _ inv] "2.prems"(1) by simp
    next
      case False
      then have "map_of G p = None" "\<not> strict" using True "2.prems"(1) by (auto split: if_splits)
      then show ?thesis using "2.IH"(2) [OF False _ _ _ inv] "2.prems"(1) False by simp
    qed
  next
    case False
    then obtain ss where ss: "map_of G p = Some ss" "p \<notin> seen" by auto
    then have "explore strict G (insert p seen) (rev ss @ st) = Ok S" using "2.prems" by simp
    moreover have "\<forall>a \<in> insert p seen. \<forall>b. edge G a b \<longrightarrow> b \<in> nodes G \<longrightarrow> b \<in> insert p seen \<or> b \<in> set (rev ss @ st)"
      using "2.prems"(2) ss by (auto simp: edge_def)
    ultimately show ?thesis using "2.IH"(3) ss by blast
  qed
qed simp

lemma explore_reachable:
  assumes "explore strict G {} [e] = Ok S"
  shows "S = reachable G e"
proof
  show "S \<subseteq> reachable G e" using explore_sound [OF assms] by auto
  have closed: "\<forall>a \<in> S. \<forall>b. edge G a b \<longrightarrow> b \<in> nodes G \<longrightarrow> b \<in> S" using explore_closed [OF assms] by simp
  have start: "e \<in> nodes G \<Longrightarrow> e \<in> S" using explore_grows [OF assms] by auto
  have "q \<in> S" if "(edge G)\<^sup>*\<^sup>* e q" "q \<in> nodes G" for q
    using that
  proof (induction rule: rtranclp_induct)
    case base
    then show ?case by (rule start)
  next
    case (step y z)
    then have "y \<in> nodes G" by (auto simp: edge_def nodes_map_of split: option.splits)
    then show ?case using step closed by blast
  qed
  then show "reachable G e \<subseteq> S" by (auto simp: reachable_def)
qed

lemma explore_strict:
  assumes "\<forall>a b. edge G a b \<longrightarrow> b \<in> nodes G" "set st \<subseteq> nodes G"
  shows "\<exists>S. explore True G seen st = Ok S"
  using assms
proof (induction "True" G seen st rule: explore.induct)
  case (2 G seen p st)
  then obtain ss where ss: "map_of G p = Some ss" by (auto simp: nodes_map_of)
  have "\<forall>b \<in> set ss. edge G p b" using ss by (simp add: edge_def)
  then have "set (rev ss @ st) \<subseteq> nodes G" using 2 by auto
  then show ?case using 2 ss by auto
qed simp

subsection \<open>The search interface\<close>

text \<open>What the clients need of a search: it returns the reachable nodes of the graph.\<close>

locale graph_search =
  fixes find_all :: "graph \<Rightarrow> nat \<Rightarrow> nat set"
  assumes find_all: "find_all G e = reachable G e"
begin

lemma start_found: "e \<in> nodes G \<Longrightarrow> e \<in> find_all G e"
  by (simp add: find_all reachable_def)

lemma step_found: "a \<in> find_all G e \<Longrightarrow> edge G a b \<Longrightarrow> b \<in> nodes G \<Longrightarrow> b \<in> find_all G e"
  by (auto simp: find_all reachable_def)

lemma found_nodes: "find_all G e \<subseteq> nodes G"
  by (auto simp: find_all reachable_def)

lemma found_mono:
  assumes "\<And>a b. edge G a b \<Longrightarrow> edge H a b" "nodes G \<subseteq> nodes H"
  shows "find_all G e \<subseteq> find_all H e"
proof -
  have "(edge G)\<^sup>*\<^sup>* e q \<Longrightarrow> (edge H)\<^sup>*\<^sup>* e q" for q
    using assms(1) by (metis (mono_tags) mono_rtranclp)
  then show ?thesis using assms(2) by (auto simp: find_all reachable_def)
qed

end

definition search :: "graph \<Rightarrow> nat \<Rightarrow> nat set" where
  "search G e = (case explore False G {} [e] of Ok S \<Rightarrow> S | _ \<Rightarrow> {})"

interpretation gs: graph_search search
proof
  fix G e
  obtain S where "explore False G {} [e] = Ok S" using explore_total by blast
  then show "search G e = reachable G e" using explore_reachable by (simp add: search_def)
qed

end
