(* ===== verification/Cfg.thy ===== *)
theory Cfg
  imports Pc_Map Worklist "HOL-Library.While_Combinator"
begin

text \<open>
  Control-flow recovery of \<open>qed-analysis/src/cfg.rs\<close>: flow decoding, function bodies, the noreturn
  fixpoint, functions reachable from the entry, and the classification of the entry function's exit
  edges by what reaches \<open>r0\<close>.  A \<open>BTreeSet\<close> is a set, iterated in ascending order; the ELF loader's
  function registry and \<open>ebpf::hash_symbol_name\<close> are fields of the image.  Every index the code takes
  into the flow array comes from a body or a branch target, which are in range.
\<close>

record program_image =
  im_insns :: "insn list"
  im_version :: sbpf_version
  im_pc_map :: pc_map
  im_registry :: "u32 \<Rightarrow> nat option"
  im_entry_slot :: nat
  im_hash :: "string \<Rightarrow> u32"

datatype flow =
    Seq | Jump nat | Branch nat | FCall nat | FSyscall u32 "string option" | FCallReg | FExit | Unresolved

definition NORETURN_SYSCALLS :: "string list" where
  "NORETURN_SYSCALLS = [''abort'', ''sol_panic_'']"

definition KNOWN_SYSCALLS :: "string list" where
  "KNOWN_SYSCALLS = [''abort'', ''sol_panic_'', ''sol_log_'', ''sol_log_64_'', ''sol_log_pubkey'',
     ''sol_log_compute_units_'', ''sol_log_data'', ''sol_memcpy_'', ''sol_memmove_'', ''sol_memset_'',
     ''sol_memcmp_'', ''sol_set_return_data'', ''sol_get_return_data'', ''sol_get_sysvar'',
     ''sol_get_clock_sysvar'', ''sol_get_rent_sysvar'', ''sol_invoke_signed_c'', ''sol_invoke_signed_rust'',
     ''sol_create_program_address'', ''sol_try_find_program_address'', ''sol_sha256'', ''sol_keccak256'',
     ''sol_secp256k1_recover'', ''sol_alloc_free_'']"

definition syscall_name :: "(string \<Rightarrow> u32) \<Rightarrow> u32 \<Rightarrow> string option" where
  "syscall_name hash h = find (\<lambda>n. hash n = h) KNOWN_SYSCALLS"

definition is_cond_jump :: "u8 \<Rightarrow> sbpf_version \<Rightarrow> bool" where
  "is_cond_jump b v =
     (if insn_class b = BPF_JMP64 then b \<notin> {JA, CALL_IMM, CALL_REG, EXIT}
      else if insn_class b = BPF_JMP32 then enable_jmp32 v
      else False)"

definition flow_target :: "program_image \<Rightarrow> nat \<Rightarrow> int \<Rightarrow> nat option" where
  "flow_target im pc d =
     (let t = resolve_jump_target (im_pc_map im) pc d in
      if 0 \<le> t \<and> t < int (length (im_insns im)) then Some (nat t) else None)"

definition decode_call_flow :: "program_image \<Rightarrow> nat \<Rightarrow> insn \<Rightarrow> flow" where
  "decode_call_flow im pc i =
     (let h = word_of_int (imm i) :: u32;
          internal = (if im_version im = V3 then (if src i = 1 then flow_target im pc (imm i) else None)
                      else Option.bind (im_registry im h) (slot_to_logical (im_pc_map im)))
      in case internal of
           Some t \<Rightarrow> FCall t
         | None \<Rightarrow> if im_version im = V3 \<and> src i = 1 then Unresolved
                   else FSyscall h (syscall_name (im_hash im) h))"

definition decode_flow_at :: "program_image \<Rightarrow> nat \<Rightarrow> insn \<Rightarrow> flow" where
  "decode_flow_at im pc i =
     (if opc i = EXIT then FExit
      else if opc i = JA then (case flow_target im pc (off i) of Some t \<Rightarrow> Jump t | None \<Rightarrow> Unresolved)
      else if opc i = CALL_REG then FCallReg
      else if opc i = CALL_IMM then decode_call_flow im pc i
      else if is_cond_jump (opc i) (im_version im) then
        (case flow_target im pc (off i) of Some t \<Rightarrow> Branch t | None \<Rightarrow> Unresolved)
      else Seq)"

definition decode_flow :: "program_image \<Rightarrow> flow list" where
  "decode_flow im = map (\<lambda>(pc, i). decode_flow_at im pc i) (List.enumerate 0 (im_insns im))"

record cfg =
  flows :: "flow list"
  entry :: nat
  funs :: "(nat \<times> nat set) list"
  noreturn :: "nat set"

subsection \<open>Intra-procedural control flow\<close>

definition is_terminal :: "flow list \<Rightarrow> nat set \<Rightarrow> nat \<Rightarrow> bool" where
  "is_terminal fl nr pc = (case fl ! pc of
      FCall t \<Rightarrow> t \<in> nr
    | FSyscall _ (Some n) \<Rightarrow> n \<in> set NORETURN_SYSCALLS
    | _ \<Rightarrow> False)"

definition successors :: "flow list \<Rightarrow> nat set \<Rightarrow> nat \<Rightarrow> nat list" where
  "successors fl nr pc =
     (if is_terminal fl nr pc then []
      else (case fl ! pc of
              FExit \<Rightarrow> [] | Unresolved \<Rightarrow> []
            | Jump t \<Rightarrow> [t]
            | Branch t \<Rightarrow> [t, pc + 1]
            | _ \<Rightarrow> [pc + 1]))"

definition flow_graph :: "flow list \<Rightarrow> nat set \<Rightarrow> graph" where
  "flow_graph fl nr = map (\<lambda>pc. (pc, successors fl nr pc)) [0..<length fl]"

definition body :: "flow list \<Rightarrow> nat set \<Rightarrow> nat \<Rightarrow> nat set" where
  "body fl nr e = search (flow_graph fl nr) e"

subsection \<open>Building the graph\<close>

definition call_target :: "flow \<Rightarrow> nat list" where
  "call_target f = (case f of FCall t \<Rightarrow> [t] | _ \<Rightarrow> [])"

definition function_entries :: "flow list \<Rightarrow> nat \<Rightarrow> nat list" where
  "function_entries fl e = sorted_list_of_set (insert e (set (concat (map call_target fl))))"

definition noreturn_step :: "flow list \<Rightarrow> nat list \<Rightarrow> nat set \<Rightarrow> nat set" where
  "noreturn_step fl es nr = set (filter (\<lambda>e. \<not> (\<exists>p \<in> body fl nr e. fl ! p = FExit)) es)"

definition noreturn_loop :: "flow list \<Rightarrow> nat list \<Rightarrow> nat set option" where
  "noreturn_loop fl es = while_option (\<lambda>nr. noreturn_step fl es nr \<noteq> nr) (noreturn_step fl es) {}"

text \<open>\<open>None\<close> stands for a loop that never reaches its fixpoint; it is shown not to occur.\<close>

definition build :: "program_image \<Rightarrow> (unit, cfg option) res" where
  "build im =
     (let fl = decode_flow im in
      bind_res (ok_or () (slot_to_logical (im_pc_map im) (im_entry_slot im))) (\<lambda>e.
      let es = function_entries fl e in
      Ok (map_option (\<lambda>nr. \<lparr>flows = fl, entry = e, funs = map (\<lambda>f. (f, body fl nr f)) es, noreturn = nr\<rparr>)
            (noreturn_loop fl es))))"

definition call_graph :: "cfg \<Rightarrow> graph" where
  "call_graph c = map (\<lambda>(f, b). (f, concat (map (\<lambda>pc. call_target (flows c ! pc)) (sorted_list_of_set b)))) (funs c)"

definition reachable_functions :: "cfg \<Rightarrow> (unit, nat set) res" where
  "reachable_functions c = explore True (call_graph c) {} [entry c]"

subsection \<open>What reaches \<open>r0\<close>\<close>

datatype r0_def = Zero | NonZero u64 | CallResult nat | SyscallResult u32 | Computed

definition r0_write :: "flow list \<Rightarrow> insn list \<Rightarrow> nat \<Rightarrow> r0_def option" where
  "r0_write fl is pc = (case fl ! pc of
      FCall t \<Rightarrow> Some (CallResult t)
    | FSyscall h _ \<Rightarrow> Some (SyscallResult h)
    | FCallReg \<Rightarrow> Some Computed
    | Unresolved \<Rightarrow> Some Computed
    | _ \<Rightarrow>
       (let i = is ! pc; writes_dst = (insn_class (opc i) \<in> {BPF_LD, BPF_LDX, BPF_ALU32_LOAD, BPF_ALU64_STORE});
            v = word_of_int (imm i) :: u64 in
        if \<not> writes_dst \<or> dst i \<noteq> 0 then None
        else Some (if opc i \<in> {MOV64_IMM, MOV32_IMM, LD_DW_IMM} \<and> v = 0 then Zero
                   else if opc i \<in> {MOV64_IMM, LD_DW_IMM} then NonZero v
                   else if opc i = MOV32_IMM then NonZero (and v 0xFFFFFFFF)
                   else Computed)))"

text \<open>\<open>preds.entry(s).or_default().push(pc)\<close> over the body in ascending order.\<close>

definition preds_of :: "flow list \<Rightarrow> nat set \<Rightarrow> nat list \<Rightarrow> nat \<Rightarrow> nat list" where
  "preds_of fl nr bd s = concat (map (\<lambda>pc. map (\<lambda>_. pc) (filter (\<lambda>t. t = s) (successors fl nr pc))) bd)"

definition r0_visit :: "(nat \<Rightarrow> r0_def option) \<Rightarrow> r0_def set \<times> nat set \<times> nat list \<Rightarrow> nat \<Rightarrow> r0_def set \<times> nat set \<times> nat list" where
  "r0_visit wr s p = (case s of (out, seen, st) \<Rightarrow>
     if p \<in> seen then s
     else (case wr p of
             Some d \<Rightarrow> (insert d out, insert p seen, st)
           | None \<Rightarrow> (out, insert p seen, p # st)))"

text \<open>One round of the worklist, and the loop; the nodes it can meet are the body.\<close>

definition r0_round :: "(nat \<Rightarrow> nat list) \<Rightarrow> (nat \<Rightarrow> r0_def option) \<Rightarrow> r0_def set \<times> nat set \<times> nat list \<Rightarrow> r0_def set \<times> nat set \<times> nat list" where
  "r0_round preds wr s = (case s of (out, seen, st) \<Rightarrow>
     (case st of [] \<Rightarrow> s | at # st \<Rightarrow> foldl (r0_visit wr) (out, seen, st) (preds at)))"

definition r0_defs :: "(nat \<Rightarrow> nat list) \<Rightarrow> (nat \<Rightarrow> r0_def option) \<Rightarrow> nat \<Rightarrow> r0_def set option" where
  "r0_defs preds wr pc =
     map_option fst (while_option (\<lambda>(out, seen, st). st \<noteq> []) (r0_round preds wr) ({}, {}, [pc]))"

record exit_edge =
  ee_from :: nat
  ee_r0 :: "r0_def set"

definition is_success :: "exit_edge \<Rightarrow> bool" where
  "is_success e \<longleftrightarrow> ee_r0 e \<noteq> {} \<and> (\<forall>d \<in> ee_r0 e. d = Zero)"

record outcomes =
  oc_exits :: "nat list"
  oc_edges :: "exit_edge list"
  oc_panic_sites :: "nat list"
  oc_reachable_callx :: "nat list"

definition success_edges :: "outcomes \<Rightarrow> nat list" where
  "success_edges oc = map ee_from (filter is_success (oc_edges oc))"

definition edge_r0 :: "cfg \<Rightarrow> insn list \<Rightarrow> nat list \<Rightarrow> nat \<Rightarrow> r0_def set option" where
  "edge_r0 c is bd f = (case r0_write (flows c) is f of
      Some d \<Rightarrow> Some {d}
    | None \<Rightarrow> r0_defs (preds_of (flows c) (noreturn c) bd) (r0_write (flows c) is) f)"

text \<open>\<open>self.functions[&self.entry]\<close> panics on a missing key; the inner option is the \<open>r0\<close> walk's.\<close>

definition outcomes_of :: "cfg \<Rightarrow> program_image \<Rightarrow> (unit, outcomes) res" where
  "outcomes_of c im = (case map_of (funs c) (entry c) of
      None \<Rightarrow> Panic
    | Some b \<Rightarrow>
       (let bd = sorted_list_of_set b; fl = flows c;
            exits = filter (\<lambda>p. fl ! p = FExit) bd;
            preds = preds_of fl (noreturn c) bd;
            edges = concat (map (\<lambda>x. map (\<lambda>f. \<lparr>ee_from = f, ee_r0 = (case edge_r0 c (im_insns im) bd f of Some r \<Rightarrow> r | None \<Rightarrow> {})\<rparr>) (preds x)) exits);
            panics = filter (is_terminal fl (noreturn c)) bd
        in bind_res (reachable_functions c) (\<lambda>fs.
           Ok \<lparr>oc_exits = exits, oc_edges = edges, oc_panic_sites = panics,
               oc_reachable_callx = filter (\<lambda>p. fl ! p = FCallReg)
                 (sorted_list_of_set (\<Union>f \<in> fs. case map_of (funs c) f of Some b \<Rightarrow> b | None \<Rightarrow> {}))\<rparr>)))"

subsection \<open>The noreturn fixpoint\<close>

lemma map_of_flow_graph: "map_of (flow_graph fl nr) a = (if a < length fl then Some (successors fl nr a) else None)"
  by (auto simp: flow_graph_def map_of_map_restrict [of "successors fl nr", unfolded comp_def] restrict_map_def
      map_of_eq_None_iff)

lemma edge_flow_graph: "edge (flow_graph fl nr) a b \<longleftrightarrow> a < length fl \<and> b \<in> set (successors fl nr a)"
  by (simp add: edge_def map_of_flow_graph)

lemma nodes_flow_graph: "nodes (flow_graph fl nr) = {..<length fl}"
  by (auto simp: nodes_map_of map_of_flow_graph split: if_splits)

lemma body_subset: "body fl nr e \<subseteq> {..<length fl}"
  using gs.found_nodes [of "flow_graph fl nr" e] by (simp add: body_def nodes_flow_graph)

lemma finite_body: "finite (body fl nr e)"
  by (rule finite_subset [OF body_subset]) simp

lemma body_start: "e < length fl \<Longrightarrow> e \<in> body fl nr e"
  using gs.start_found [of e "flow_graph fl nr"] by (simp add: body_def nodes_flow_graph)

lemma body_step: "a < length fl \<Longrightarrow> b \<in> set (successors fl nr a) \<Longrightarrow> body fl nr b \<subseteq> body fl nr a"
  unfolding body_def gs.find_all reachable_def
  by (auto simp: edge_flow_graph intro: converse_rtranclp_into_rtranclp)

lemma successors_mono: "nr \<subseteq> nr' \<Longrightarrow> set (successors fl nr' a) \<subseteq> set (successors fl nr a)"
  by (auto simp: successors_def is_terminal_def split: if_splits flow.splits option.splits)

lemma body_mono: "nr \<subseteq> nr' \<Longrightarrow> body fl nr' e \<subseteq> body fl nr e"
  unfolding body_def
  by (rule gs.found_mono) (use successors_mono [of nr nr' fl] in \<open>auto simp: edge_flow_graph nodes_flow_graph\<close>)

lemma noreturn_step_mono: "nr \<subseteq> nr' \<Longrightarrow> noreturn_step fl es nr \<subseteq> noreturn_step fl es nr'"
  using body_mono [of nr nr' fl] by (auto simp: noreturn_step_def)

lemma noreturn_step_bounded: "noreturn_step fl es nr \<subseteq> set es"
  by (auto simp: noreturn_step_def)

lemma noreturn_loop_ends: "\<exists>nr. noreturn_loop fl es = Some nr"
  unfolding noreturn_loop_def
proof (rule measure_while_option_Some [where P = "\<lambda>nr. nr \<subseteq> noreturn_step fl es nr \<and> nr \<subseteq> set es"
      and f = "\<lambda>nr. card (set es - nr)"])
  fix nr assume P: "nr \<subseteq> noreturn_step fl es nr \<and> nr \<subseteq> set es" and ne: "noreturn_step fl es nr \<noteq> nr"
  let ?n = "noreturn_step fl es nr"
  have "?n \<subseteq> set es" by (rule noreturn_step_bounded)
  moreover have "nr \<subset> ?n" using P ne by auto
  ultimately have "set es - ?n \<subset> set es - nr" by auto
  then have "card (set es - ?n) < card (set es - nr)" by (intro psubset_card_mono) auto
  then show "(?n \<subseteq> noreturn_step fl es ?n \<and> ?n \<subseteq> set es) \<and> card (set es - ?n) < card (set es - nr)"
    using P noreturn_step_mono [of nr ?n fl es] noreturn_step_bounded by auto
qed simp

lemma noreturn_loop_fixpoint: "noreturn_loop fl es = Some nr \<Longrightarrow> noreturn_step fl es nr = nr"
  unfolding noreturn_loop_def by (drule while_option_stop) simp

text \<open>Whether a run from \<open>pc\<close> can reach the exit of its function, with calls followed into the
  callee and resumed when the callee can return.\<close>

inductive returns :: "flow list \<Rightarrow> nat \<Rightarrow> bool" for fl where
  ret_exit: "pc < length fl \<Longrightarrow> fl ! pc = FExit \<Longrightarrow> returns fl pc"
| ret_call: "pc < length fl \<Longrightarrow> fl ! pc = FCall t \<Longrightarrow> returns fl t \<Longrightarrow> returns fl (pc + 1) \<Longrightarrow> returns fl pc"
| ret_step: "pc < length fl \<Longrightarrow> (\<And>t. fl ! pc \<noteq> FCall t) \<Longrightarrow> s \<in> set (successors fl {} pc) \<Longrightarrow> returns fl s \<Longrightarrow> returns fl pc"

lemma returns_reaches_exit:
  assumes "returns fl pc" "\<forall>f \<in> nr. \<not> returns fl f"
  shows "\<exists>q \<in> body fl nr pc. fl ! q = FExit"
  using assms
proof (induction rule: returns.induct)
  case (ret_exit pc)
  then show ?case using body_start by blast
next
  case (ret_call pc t)
  then have "pc + 1 \<in> set (successors fl nr pc)" by (auto simp: successors_def is_terminal_def)
  then show ?case using ret_call body_step by blast
next
  case (ret_step pc s)
  then have "s \<in> set (successors fl nr pc)"
    by (auto simp: successors_def is_terminal_def split: if_splits flow.splits option.splits)
  then show ?case using ret_step body_step by blast
qed

lemma noreturn_loop_sound:
  assumes "noreturn_loop fl es = Some nr"
  shows "\<forall>f \<in> nr. \<not> returns fl f"
proof (rule while_option_rule [OF _ assms [unfolded noreturn_loop_def], where P = "\<lambda>nr. \<forall>f \<in> nr. \<not> returns fl f"])
  fix nr assume "\<forall>f \<in> nr. \<not> returns fl f"
  then show "\<forall>f \<in> noreturn_step fl es nr. \<not> returns fl f"
    using returns_reaches_exit [of fl _ nr] by (fastforce simp: noreturn_step_def)
qed simp

lemma build_Ok:
  assumes "build im = Ok oc"
  obtains nr e where "slot_to_logical (im_pc_map im) (im_entry_slot im) = Some e"
    "noreturn_loop (decode_flow im) (function_entries (decode_flow im) e) = Some nr"
    "oc = Some \<lparr>flows = decode_flow im, entry = e,
       funs = map (\<lambda>f. (f, body (decode_flow im) nr f)) (function_entries (decode_flow im) e), noreturn = nr\<rparr>"
proof -
  obtain e where e: "slot_to_logical (im_pc_map im) (im_entry_slot im) = Some e"
    using assms by (auto simp: build_def bind_res_eq_Ok Let_def)
  moreover obtain nr where "noreturn_loop (decode_flow im) (function_entries (decode_flow im) e) = Some nr"
    using noreturn_loop_ends by blast
  ultimately show ?thesis using that assms by (simp add: build_def Let_def)
qed

subsection \<open>Functions reachable from the entry\<close>

lemma set_function_entries: "set (function_entries fl e) = insert e {t. \<exists>f \<in> set fl. f = FCall t}"
proof -
  have "finite (set (concat (map call_target fl)))" by simp
  moreover have "set (concat (map call_target fl)) = {t. \<exists>f \<in> set fl. f = FCall t}"
    by (auto simp: call_target_def split: flow.splits)
  ultimately show ?thesis unfolding function_entries_def by (metis finite_insert set_sorted_list_of_set)
qed

lemma reachable_functions_total:
  assumes "build im = Ok (Some c)"
  shows "\<exists>S. reachable_functions c = Ok S"
proof -
  obtain nr e where c: "c = \<lparr>flows = decode_flow im, entry = e,
       funs = map (\<lambda>f. (f, body (decode_flow im) nr f)) (function_entries (decode_flow im) e), noreturn = nr\<rparr>"
    using build_Ok [OF assms] by (metis option.inject)
  let ?fl = "decode_flow im" and ?es = "function_entries (decode_flow im) e"
  have nodes: "nodes (call_graph c) = set ?es" by (simp add: nodes_def call_graph_def c image_image)
  have "b \<in> nodes (call_graph c)" if ab: "edge (call_graph c) a b" for a b
  proof -
    from ab obtain ss where ss: "map_of (call_graph c) a = Some ss" "b \<in> set ss" by (auto simp: edge_def split: option.splits)
    then have "(a, ss) \<in> set (call_graph c)" by (rule_tac map_of_SomeD)
    then obtain pc where "pc \<in> body ?fl nr a" "b \<in> set (call_target (?fl ! pc))"
      using ss(2) finite_body by (auto simp: call_graph_def c)
    then have "?fl ! pc = FCall b" "pc < length ?fl"
      using body_subset [of ?fl nr a] by (auto simp: call_target_def split: flow.splits)
    then show ?thesis unfolding nodes set_function_entries by (metis (mono_tags, lifting) insertCI mem_Collect_eq nth_mem)
  qed
  moreover have "e \<in> nodes (call_graph c)" unfolding nodes set_function_entries by simp
  ultimately have "\<exists>S. explore True (call_graph c) {} [e] = Ok S" by (intro explore_strict) auto
  moreover have "entry c = e" by (simp add: c)
  ultimately show ?thesis by (simp only: reachable_functions_def)
qed


subsection \<open>The walk to the last write of \<open>r0\<close>\<close>

text \<open>The value \<open>d\<close> is the last definition of \<open>r0\<close> on some way through the predecessors to the end of \<open>pc\<close>.\<close>

inductive r0_after :: "(nat \<Rightarrow> nat list) \<Rightarrow> (nat \<Rightarrow> r0_def option) \<Rightarrow> nat \<Rightarrow> r0_def \<Rightarrow> bool" for preds wr where
  here: "wr pc = Some d \<Longrightarrow> r0_after preds wr pc d"
| before: "wr pc = None \<Longrightarrow> p \<in> set (preds pc) \<Longrightarrow> r0_after preds wr p d \<Longrightarrow> r0_after preds wr pc d"

inductive_cases r0_afterE: "r0_after preds wr pc d"

lemma r0_visit_cases:
  "r0_visit wr (out, seen, st) p =
     (if p \<in> seen then (out, seen, st)
      else (out \<union> set_option (wr p), insert p seen, if wr p = None then p # st else st))"
  by (simp add: r0_visit_def split: option.split)

lemma r0_visits:
  "foldl (r0_visit wr) (out, seen, st) ps = (out', seen', st') \<Longrightarrow>
   seen' = seen \<union> set ps \<and> out' = out \<union> (\<Union>p \<in> set ps - seen. set_option (wr p)) \<and>
   set st' = set st \<union> {p \<in> set ps - seen. wr p = None}"
proof (induction ps arbitrary: out seen st)
  case (Cons p ps)
  show ?case
  proof (cases "p \<in> seen")
    case True
    then have "foldl (r0_visit wr) (out, seen, st) ps = (out', seen', st')"
      using Cons.prems by (simp add: r0_visit_cases)
    then show ?thesis using Cons.IH True by auto
  next
    case False
    then have "foldl (r0_visit wr) (out \<union> set_option (wr p), insert p seen, if wr p = None then p # st else st) ps =
        (out', seen', st')"
      using Cons.prems by (simp add: r0_visit_cases)
    note IH = Cons.IH [OF this]
    have "(set ps - insert p seen) \<union> {p} = set (p # ps) - seen" using False by auto
    then show ?thesis using IH by (auto split: if_splits)
  qed
qed simp

lemma r0_visits_measure:
  assumes "finite U"
  shows "set ps \<subseteq> U \<Longrightarrow> foldl (r0_visit wr) (out, seen, st) ps = (out', seen', st') \<Longrightarrow>
     length st' + card (U - seen') \<le> length st + card (U - seen)"
proof (induction ps arbitrary: out seen st)
  case (Cons p ps)
  show ?case
  proof (cases "p \<in> seen")
    case True
    then have "foldl (r0_visit wr) (out, seen, st) ps = (out', seen', st')"
      using Cons.prems by (simp add: r0_visit_cases)
    then show ?thesis using Cons.IH Cons.prems(1) by auto
  next
    case False
    then have f: "foldl (r0_visit wr) (out \<union> set_option (wr p), insert p seen, if wr p = None then p # st else st) ps =
        (out', seen', st')"
      using Cons.prems by (simp add: r0_visit_cases)
    have "length st' + card (U - seen') \<le> length (if wr p = None then p # st else st) + card (U - insert p seen)"
      using Cons.IH [OF _ f] Cons.prems(1) by simp
    moreover have "Suc (card (U - insert p seen)) = card (U - seen)"
      using assms Cons.prems(1) False by (metis Diff_iff Diff_insert card_Suc_Diff1 finite_Diff list.set_intros(1) subsetD)
    ultimately show ?thesis by (simp split: if_splits)
  qed
qed simp

definition r0_inv :: "(nat \<Rightarrow> nat list) \<Rightarrow> (nat \<Rightarrow> r0_def option) \<Rightarrow> nat \<Rightarrow> r0_def set \<times> nat set \<times> nat list \<Rightarrow> bool" where
  "r0_inv preds wr pc s = (case s of (out, seen, st) \<Rightarrow>
     out \<subseteq> {d. r0_after preds wr pc d} \<and>
     (\<forall>q \<in> seen. \<forall>d. r0_after preds wr q d \<longrightarrow> r0_after preds wr pc d) \<and>
     set st \<subseteq> insert pc seen \<and> (\<forall>q \<in> set st. wr q = None) \<and>
     (\<forall>q \<in> insert pc seen. wr q = None \<longrightarrow> q \<in> set st \<or> set (preds q) \<subseteq> seen) \<and>
     (\<forall>q \<in> seen. \<forall>d. wr q = Some d \<longrightarrow> d \<in> out))"

lemma r0_inv_round:
  assumes inv: "r0_inv preds wr pc s" and ne: "snd (snd s) \<noteq> []"
  shows "r0_inv preds wr pc (r0_round preds wr s)"
proof -
  obtain out seen at st where s: "s = (out, seen, at # st)" using ne by (cases s) (auto simp: neq_Nil_conv)
  obtain out' seen' st' where f: "foldl (r0_visit wr) (out, seen, st) (preds at) = (out', seen', st')"
    by (metis prod_cases3)
  note vs = r0_visits [OF f]
  have at: "at = pc \<or> at \<in> seen" "wr at = None" using inv by (auto simp: r0_inv_def s)
  have via: "r0_after preds wr pc d" if "p \<in> set (preds at)" "r0_after preds wr p d" for p d
  proof -
    have "r0_after preds wr at d" using at(2) that by (rule r0_after.before)
    then show ?thesis using at(1) inv by (auto simp: r0_inv_def s)
  qed
  have "out' \<subseteq> out \<union> {d. \<exists>p \<in> set (preds at). r0_after preds wr p d}"
    using vs by (auto intro: r0_after.here)
  then have "out' \<subseteq> {d. r0_after preds wr pc d}" using inv via by (auto simp: r0_inv_def s)
  moreover have "\<forall>q \<in> seen'. \<forall>d. r0_after preds wr q d \<longrightarrow> r0_after preds wr pc d"
    using vs inv via by (auto simp: r0_inv_def s)
  moreover have "set st' \<subseteq> insert pc seen'" "\<forall>q \<in> set st'. wr q = None"
    using vs inv by (auto simp: r0_inv_def s)
  moreover have "q \<in> set st' \<or> set (preds q) \<subseteq> seen'" if q: "q \<in> insert pc seen'" "wr q = None" for q
  proof (cases "q \<in> insert pc seen")
    case True
    then have "q = at \<or> q \<in> set st \<or> set (preds q) \<subseteq> seen" using inv q(2) by (auto simp: r0_inv_def s)
    then show ?thesis using vs by auto
  next
    case False
    then show ?thesis using vs q by auto
  qed
  moreover have "d \<in> out'" if q: "q \<in> seen'" "wr q = Some d" for q d
  proof (cases "q \<in> seen")
    case True
    then show ?thesis using vs inv q(2) by (auto simp: r0_inv_def s)
  next
    case False
    then have "q \<in> set (preds at) - seen" using vs q(1) by auto
    then have "d \<in> (\<Union>p \<in> set (preds at) - seen. set_option (wr p))" using q(2) by force
    then show ?thesis using vs by auto
  qed
  ultimately show ?thesis unfolding r0_inv_def r0_round_def s using f by simp
qed

lemma r0_defs_exact:
  assumes fin: "finite U" and U: "\<And>q. set (preds q) \<subseteq> U" and pc: "wr pc = None"
  shows "r0_defs preds wr pc = Some {d. r0_after preds wr pc d}"
proof -
  let ?b = "\<lambda>(out :: r0_def set, seen :: nat set, st :: nat list). st \<noteq> []"
  have "\<exists>t. while_option ?b (r0_round preds wr) ({}, {}, [pc]) = Some t"
  proof (rule measure_while_option_Some [where P = "\<lambda>_. True" and f = "\<lambda>(out, seen, st). length st + card (U - seen)"])
    fix s assume "?b s"
    then obtain out seen at st where s: "s = (out, seen, at # st)" by (cases s) (auto simp: neq_Nil_conv)
    obtain out' seen' st' where f: "foldl (r0_visit wr) (out, seen, st) (preds at) = (out', seen', st')"
      by (metis prod_cases3)
    show "True \<and> (case r0_round preds wr s of (out, seen, st) \<Rightarrow> length st + card (U - seen))
            < (case s of (out, seen, st) \<Rightarrow> length st + card (U - seen))"
      using r0_visits_measure [OF fin U f] f by (simp add: r0_round_def s)
  qed simp
  then obtain out seen st where w: "while_option ?b (r0_round preds wr) ({}, {}, [pc]) = Some (out, seen, st)"
    by (metis prod_cases3)
  have "r0_inv preds wr pc (out, seen, st)"
    by (rule while_option_rule [OF _ w, where P = "r0_inv preds wr pc"])
       (use r0_inv_round [of preds wr pc] pc in \<open>auto simp: r0_inv_def [of _ _ _ "({}, _)"] split: prod.splits\<close>)
  moreover have "st = []" using while_option_stop [OF w] by simp
  ultimately have inv: "out \<subseteq> {d. r0_after preds wr pc d}"
    "\<And>q. q \<in> insert pc seen \<Longrightarrow> wr q = None \<Longrightarrow> set (preds q) \<subseteq> seen"
    "\<And>q d. q \<in> seen \<Longrightarrow> wr q = Some d \<Longrightarrow> d \<in> out"
    by (auto simp: r0_inv_def)
  have "r0_after preds wr q d \<Longrightarrow> q \<in> insert pc seen \<Longrightarrow> d \<in> out" for q d
  proof (induction rule: r0_after.induct)
    case (here q d)
    then show ?case using inv(3) pc by auto
  next
    case (before q p d)
    then show ?case using inv(2) by blast
  qed
  then have "out = {d. r0_after preds wr pc d}" using inv(1) by auto
  then show ?thesis by (simp add: r0_defs_def w)
qed

lemma set_preds_of: "set (preds_of fl nr bd s) = {p \<in> set bd. s \<in> set (successors fl nr p)}"
  by (auto simp: preds_of_def)

lemma edge_r0_exact:
  "edge_r0 c is bd f = Some {d. r0_after (preds_of (flows c) (noreturn c) bd) (r0_write (flows c) is) f d}"
proof (cases "r0_write (flows c) is f")
  case None
  then show ?thesis
    using r0_defs_exact [where U = "set bd" and preds = "preds_of (flows c) (noreturn c) bd"]
    by (auto simp: edge_r0_def set_preds_of)
next
  case (Some d)
  then have "{d'. r0_after (preds_of (flows c) (noreturn c) bd) (r0_write (flows c) is) f d'} = {d}"
    by (auto elim: r0_afterE intro: r0_after.here)
  then show ?thesis by (simp add: edge_r0_def Some)
qed


lemma build_funs:
  assumes "build im = Ok (Some c)"
  shows "flows c = decode_flow im" "map_of (funs c) (entry c) = Some (body (flows c) (noreturn c) (entry c))"
    "slot_to_logical (im_pc_map im) (im_entry_slot im) = Some (entry c)"
    "noreturn_loop (flows c) (function_entries (flows c) (entry c)) = Some (noreturn c)"
proof -
  obtain nr e where e: "slot_to_logical (im_pc_map im) (im_entry_slot im) = Some e"
    and nr: "noreturn_loop (decode_flow im) (function_entries (decode_flow im) e) = Some nr"
    and c: "c = \<lparr>flows = decode_flow im, entry = e,
       funs = map (\<lambda>f. (f, body (decode_flow im) nr f)) (function_entries (decode_flow im) e), noreturn = nr\<rparr>"
    using build_Ok [OF assms] by (metis option.inject)
  show "flows c = decode_flow im" "slot_to_logical (im_pc_map im) (im_entry_slot im) = Some (entry c)"
    "noreturn_loop (flows c) (function_entries (flows c) (entry c)) = Some (noreturn c)"
    by (simp_all add: c e nr)
  have "e \<in> set (function_entries (decode_flow im) e)" by (simp add: set_function_entries)
  then show "map_of (funs c) (entry c) = Some (body (flows c) (noreturn c) (entry c))"
    by (simp add: c map_of_map_restrict [of "body (decode_flow im) nr", unfolded comp_def])
qed

lemma outcomes_edges:
  assumes "build im = Ok (Some c)"
  defines "bd \<equiv> sorted_list_of_set (body (flows c) (noreturn c) (entry c))"
  shows "\<exists>oc. outcomes_of c im = Ok oc \<and>
    oc_edges oc = concat (map (\<lambda>x. map (\<lambda>f. \<lparr>ee_from = f, ee_r0 =
        {d. r0_after (preds_of (flows c) (noreturn c) bd) (r0_write (flows c) (im_insns im)) f d}\<rparr>)
        (preds_of (flows c) (noreturn c) bd x)) (filter (\<lambda>p. flows c ! p = FExit) bd))"
proof -
  obtain S where "reachable_functions c = Ok S" using reachable_functions_total [OF assms(1)] by blast
  then show ?thesis unfolding outcomes_of_def
    by (simp add: build_funs(2) [OF assms(1)] Let_def edge_r0_exact bd_def)
qed

subsection \<open>Properties\<close>

text \<open>A small image: a branch that either returns 0 or calls a function that aborts.\<close>

definition demo_image :: program_image where
  "demo_image = (let is = [\<lparr>opc = 0x15, dst = 1, src = 0, off = 2, imm = 0\<rparr>, \<lparr>opc = MOV64_IMM, dst = 0, src = 0, off = 0, imm = 0\<rparr>,
      \<lparr>opc = EXIT, dst = 0, src = 0, off = 0, imm = 0\<rparr>, \<lparr>opc = CALL_IMM, dst = 0, src = 0, off = 0, imm = 7\<rparr>,
      \<lparr>opc = EXIT, dst = 0, src = 0, off = 0, imm = 0\<rparr>, \<lparr>opc = CALL_IMM, dst = 0, src = 0, off = 0, imm = 9\<rparr>,
      \<lparr>opc = EXIT, dst = 0, src = 0, off = 0, imm = 0\<rparr>] in
    \<lparr>im_insns = is, im_version = V0, im_pc_map = from_insns is,
     im_registry = (\<lambda>h. if h = 7 then Some 5 else None), im_entry_slot = 0,
     im_hash = (\<lambda>n. if n = ''abort'' then 9 else 1)\<rparr>)"

definition demo_cfg :: cfg where
  "demo_cfg = \<lparr>flows = [Branch 3, Seq, FExit, FCall 5, FExit, FSyscall 9 (Some ''abort''), FExit], entry = 0,
     funs = [(0, {0, 1, 2, 3}), (5, {5})], noreturn = {5}\<rparr>"

lemma demo_build: "build demo_image = Ok (Some demo_cfg)"
  by code_simp

text \<open>C32: Building the control-flow graph succeeds exactly when the entry slot maps to an instruction;
  the noreturn iteration then ends, at a fixpoint of its step, and the functions collected from the
  entry are exactly those the call graph reaches.\<close>

theorem build_complete:
  "(build im = Err () \<longleftrightarrow> slot_to_logical (im_pc_map im) (im_entry_slot im) = None) \<and> build im \<noteq> Panic \<and>
   (\<forall>oc. build im = Ok oc \<longrightarrow> (\<exists>c. oc = Some c \<and>
      noreturn_step (flows c) (function_entries (flows c) (entry c)) (noreturn c) = noreturn c \<and>
      reachable_functions c = Ok (reachable (call_graph c) (entry c))))"
proof (intro conjI allI impI)
  show "build im = Err () \<longleftrightarrow> slot_to_logical (im_pc_map im) (im_entry_slot im) = None" "build im \<noteq> Panic"
    by (cases "slot_to_logical (im_pc_map im) (im_entry_slot im)"; simp add: build_def Let_def)+
  fix oc assume "build im = Ok oc"
  then obtain c where oc: "oc = Some c" "build im = Ok (Some c)" using build_Ok by metis
  then obtain S where "reachable_functions c = Ok S" using reachable_functions_total by blast
  moreover from this have "S = reachable (call_graph c) (entry c)"
    unfolding reachable_functions_def by (rule explore_reachable)
  ultimately show "\<exists>c. oc = Some c \<and>
      noreturn_step (flows c) (function_entries (flows c) (entry c)) (noreturn c) = noreturn c \<and>
      reachable_functions c = Ok (reachable (call_graph c) (entry c))"
    using oc noreturn_loop_fixpoint [OF build_funs(4)] by auto
qed

theorem build_complete_witness:
  "noreturn_step (flows demo_cfg) (function_entries (flows demo_cfg) 0) {5} = {5} \<and>
   reachable_functions demo_cfg = Ok (reachable (call_graph demo_cfg) 0)"
  using build_complete [of demo_image] by (simp add: demo_build demo_cfg_def)

text \<open>C17: A function in the noreturn set never returns: no run from its entry, with calls followed into
  their callees, reaches an \<open>exit\<close> of that frame.\<close>

theorem noreturn_sound:
  assumes "build im = Ok (Some c)" "f \<in> noreturn c"
  shows "\<not> returns (flows c) f"
  using noreturn_loop_sound [OF build_funs(4) [OF assms(1)]] assms(2) by blast

theorem noreturn_sound_witness: "\<not> returns (flows demo_cfg) 5"
  by (rule noreturn_sound [OF demo_build]) (simp add: demo_cfg_def)

text \<open>C31: For a built graph the outcome analysis always returns, its exit edges are exactly the
  control-flow edges of the entry function into an \<open>exit\<close>, and the definitions recorded on each edge are
  exactly the last writes of \<open>r0\<close> on some way to it; a success edge is reached with \<open>r0 = 0\<close> only.\<close>

theorem outcomes_exact:
  assumes "build im = Ok (Some c)"
  defines "bd \<equiv> body (flows c) (noreturn c) (entry c)"
  defines "after \<equiv> r0_after (preds_of (flows c) (noreturn c) (sorted_list_of_set bd)) (r0_write (flows c) (im_insns im))"
  shows "\<exists>oc. outcomes_of c im = Ok oc \<and>
    set (oc_edges oc) = {\<lparr>ee_from = f, ee_r0 = {d. after f d}\<rparr> | f. f \<in> bd \<and>
       (\<exists>x \<in> bd. flows c ! x = FExit \<and> x \<in> set (successors (flows c) (noreturn c) f))} \<and>
    (\<forall>f \<in> set (success_edges oc). after f Zero \<and> (\<forall>d. after f d \<longrightarrow> d = Zero))"
proof -
  obtain oc where oc: "outcomes_of c im = Ok oc" "oc_edges oc = concat (map (\<lambda>x. map (\<lambda>f. \<lparr>ee_from = f, ee_r0 = {d. after f d}\<rparr>)
        (preds_of (flows c) (noreturn c) (sorted_list_of_set bd) x)) (filter (\<lambda>p. flows c ! p = FExit) (sorted_list_of_set bd)))"
    using outcomes_edges [OF assms(1)] by (auto simp: bd_def after_def)
  have "finite bd" by (simp add: bd_def finite_body)
  then have edges: "set (oc_edges oc) = {\<lparr>ee_from = f, ee_r0 = {d. after f d}\<rparr> | f. f \<in> bd \<and>
       (\<exists>x \<in> bd. flows c ! x = FExit \<and> x \<in> set (successors (flows c) (noreturn c) f))}"
    by (auto simp: oc(2) set_preds_of)
  moreover have "after f Zero \<and> (\<forall>d. after f d \<longrightarrow> d = Zero)" if f: "f \<in> set (success_edges oc)" for f
  proof -
    obtain e where e: "e \<in> set (oc_edges oc)" "is_success e" "f = ee_from e"
      using f by (auto simp: success_edges_def)
    then have "ee_r0 e = {d. after f d}" using edges by auto
    then show ?thesis using e(2) by (auto simp: is_success_def)
  qed
  ultimately show ?thesis using oc(1) by blast
qed

theorem outcomes_exact_witness:
  "\<exists>oc. outcomes_of demo_cfg demo_image = Ok oc \<and> success_edges oc = [1] \<and>
     (\<forall>f \<in> set (success_edges oc). \<forall>d. r0_after (preds_of (flows demo_cfg) (noreturn demo_cfg)
        (sorted_list_of_set (body (flows demo_cfg) (noreturn demo_cfg) (entry demo_cfg))))
        (r0_write (flows demo_cfg) (im_insns demo_image)) f d \<longrightarrow> d = Zero)"
proof -
  have "map_res id success_edges (outcomes_of demo_cfg demo_image) = Ok [1]" by code_simp
  then show ?thesis using outcomes_exact [OF demo_build] by (auto simp: id_def)
qed

end
