(* ===== verification/Ordered_Map.thy ===== *)
theory Ordered_Map
  imports Prelude "HOL-Library.List_Lexorder" "HOL-Library.Char_ord"
begin

text \<open>
  \<open>BTreeMap\<close> as the association list of its entries in key order, for the lifter's environments and
  symbolic states: \<open>get\<close> is \<open>map_of\<close>, \<open>insert\<close> keeps the order, and iteration is the list itself.
  Strings are the list of their UTF-8 bytes, so the list order is the order of Rust's \<open>String\<close>.
\<close>

fun bt_insert :: "'k::linorder \<Rightarrow> 'v \<Rightarrow> ('k \<times> 'v) list \<Rightarrow> ('k \<times> 'v) list" where
  "bt_insert k v [] = [(k, v)]"
| "bt_insert k v ((k', v') # m) =
     (if k = k' then (k, v) # m else if k < k' then (k, v) # (k', v') # m else (k', v') # bt_insert k v m)"

definition or_insert :: "'k::linorder \<Rightarrow> 'v \<Rightarrow> ('k \<times> 'v) list \<Rightarrow> ('k \<times> 'v) list" where
  "or_insert k v m = (if map_of m k = None then bt_insert k v m else m)"

definition bt_map :: "('k::linorder \<times> 'v) list \<Rightarrow> bool" where
  "bt_map m \<longleftrightarrow> sorted (map fst m) \<and> distinct (map fst m)"

lemma map_of_bt_insert [simp]: "map_of (bt_insert k v m) = (map_of m)(k \<mapsto> v)"
  by (induction k v m rule: bt_insert.induct) (auto simp: fun_eq_iff)

lemma keys_bt_insert [simp]: "fst ` set (bt_insert k v m) = insert k (fst ` set m)"
  by (induction k v m rule: bt_insert.induct) auto

lemma bt_map_insert: "bt_map m \<Longrightarrow> bt_map (bt_insert k v m)"
proof (induction k v m rule: bt_insert.induct)
  case (2 k v k' v' m)
  have "fst ` set (bt_insert k v m) = insert k (fst ` set m)" by simp
  then show ?case using 2 by (force simp: bt_map_def)
qed (simp add: bt_map_def)

lemma map_of_or_insert: "map_of (or_insert k v m) = (\<lambda>x. if x = k \<and> map_of m k = None then Some v else map_of m x)"
  by (auto simp: or_insert_def)

lemma or_insert_le: "map_of m \<subseteq>\<^sub>m map_of (or_insert k v m)"
  by (auto simp: map_le_def map_of_or_insert)

lemma insert_fresh_le: "map_of m k = None \<Longrightarrow> map_of m \<subseteq>\<^sub>m map_of (bt_insert k v m)"
  by (auto simp: map_le_def)

subsection \<open>The map interface\<close>

text \<open>What the lifter uses of a map: reading back after an insertion, and the entries in key order.\<close>

locale ordered_map =
  fixes get :: "'m \<Rightarrow> 'k::linorder \<Rightarrow> 'v option"
    and ins :: "'k \<Rightarrow> 'v \<Rightarrow> 'm \<Rightarrow> 'm"
    and entries :: "'m \<Rightarrow> ('k \<times> 'v) list"
    and inv :: "'m \<Rightarrow> bool"
  assumes get_ins: "get (ins k v m) = (get m)(k \<mapsto> v)"
    and ins_inv: "inv m \<Longrightarrow> inv (ins k v m)"
    and entries_get: "inv m \<Longrightarrow> (k, v) \<in> set (entries m) \<longleftrightarrow> get m k = Some v"
    and entries_sorted: "inv m \<Longrightarrow> sorted_wrt (<) (map fst (entries m))"
begin

lemma inserts_inv: "inv m \<Longrightarrow> inv (foldl (\<lambda>m (k, v). ins k v m) m kvs)"
  by (induction kvs arbitrary: m) (auto intro: ins_inv)

lemma inserts_get: "get (foldl (\<lambda>m (k, v). ins k v m) m kvs) k = (case map_of (rev kvs) k of Some v \<Rightarrow> Some v | None \<Rightarrow> get m k)"
  by (induction kvs arbitrary: m) (auto simp: get_ins map_add_def split: option.splits)

end

interpretation bt: ordered_map map_of bt_insert "\<lambda>m. m" bt_map
proof unfold_locales
  fix m :: "('a \<times> 'b) list" and k v
  show "bt_map m \<Longrightarrow> bt_map (bt_insert k v m)" by (rule bt_map_insert)
qed (auto simp: bt_map_def strict_sorted_iff)

end
