(* ===== verification/Sym_Expr.thy ===== *)
theory Sym_Expr
  imports Isa Ordered_Map
begin

text \<open>
  The lifter's symbolic values (\<open>qedlift/src/core.rs\<close>): the expression tree, its Lean rendering,
  substitution, evaluation under a partial assignment, the one-variable solver the witness builder
  steers with, and the canonical form of an address.  An \<open>i64\<close> is an \<open>int\<close> in range, cast to \<open>u64\<close>
  by \<open>word_of_int\<close>; a string is the list of its UTF-8 bytes.
\<close>

unbundle bit_operations_syntax

type_synonym env = "(string \<times> u64) list"

datatype expr =
    InitReg string
  | InitMem string
  | Const int
  | ToU64 expr
  | Mod_u expr u64
  | WrapAdd expr expr
  | WrapSub expr expr
  | WrapMul expr expr
  | NatAdd expr expr
  | AndU64Imm expr int
  | LshU64Imm expr int
  | StHalfImm int
  | StWordImm int
  | StDwordImm int
  | RshU64Imm expr int
  | CleanSub expr expr
  | ByteCombo "expr list"
  | Raw string
  | RawConst string u64

fun substitute :: "(string \<times> expr) list \<Rightarrow> expr \<Rightarrow> expr" where
  "substitute m (InitReg n) = (case map_of m n of Some e \<Rightarrow> e | None \<Rightarrow> InitReg n)"
| "substitute m (InitMem n) = (case map_of m n of Some e \<Rightarrow> e | None \<Rightarrow> InitMem n)"
| "substitute m (ToU64 e) = ToU64 (substitute m e)"
| "substitute m (Mod_u e k) = Mod_u (substitute m e) k"
| "substitute m (WrapAdd a b) = WrapAdd (substitute m a) (substitute m b)"
| "substitute m (WrapSub a b) = WrapSub (substitute m a) (substitute m b)"
| "substitute m (WrapMul a b) = WrapMul (substitute m a) (substitute m b)"
| "substitute m (NatAdd a b) = NatAdd (substitute m a) (substitute m b)"
| "substitute m (AndU64Imm a i) = AndU64Imm (substitute m a) i"
| "substitute m (LshU64Imm a i) = LshU64Imm (substitute m a) i"
| "substitute m (RshU64Imm a i) = RshU64Imm (substitute m a) i"
| "substitute m (CleanSub a b) = CleanSub (substitute m a) (substitute m b)"
| "substitute m (ByteCombo es) = ByteCombo (map (substitute m) es)"
| "substitute m e = e"

subsection \<open>Rendering\<close>

definition paren :: "string \<Rightarrow> string" where
  "paren s = ''('' @ s @ '')''"

text \<open>The Horner fold over the reversed bytes; the innermost pair has no parentheses.\<close>

fun combo_fold :: "bool \<Rightarrow> string \<Rightarrow> string list \<Rightarrow> string" where
  "combo_fold first s [] = s"
| "combo_fold first s (b # bs) =
     combo_fold False (b @ '' + 256 * '' @ (if first then s else paren s)) bs"

definition combo_render :: "string list \<Rightarrow> string" where
  "combo_render atoms = (case rev atoms of [] \<Rightarrow> [] | a # rest \<Rightarrow> combo_fold True a rest)"

definition atomise :: "expr \<Rightarrow> string \<Rightarrow> string" where
  "atomise e s = (case e of
      Raw _ \<Rightarrow> paren s | RawConst _ _ \<Rightarrow> paren s
    | InitReg _ \<Rightarrow> s | InitMem _ \<Rightarrow> s
    | Const n \<Rightarrow> if n < 0 then paren s else s
    | _ \<Rightarrow> paren s)"

fun to_lean :: "expr \<Rightarrow> string" where
  "to_lean (Raw s) = s"
| "to_lean (RawConst s _) = s"
| "to_lean (InitReg n) = n"
| "to_lean (InitMem n) = n"
| "to_lean (Const n) = show_int n"
| "to_lean (ToU64 e) = ''toU64 '' @ atomise e (to_lean e)"
| "to_lean (Mod_u e m) = atomise e (to_lean e) @ '' % '' @ digits (unat m)"
| "to_lean (WrapAdd a b) = ''wrapAdd '' @ atomise a (to_lean a) @ '' '' @ atomise b (to_lean b)"
| "to_lean (WrapSub a b) = ''wrapSub '' @ atomise a (to_lean a) @ '' '' @ atomise b (to_lean b)"
| "to_lean (WrapMul a b) = ''wrapMul '' @ atomise a (to_lean a) @ '' '' @ atomise b (to_lean b)"
| "to_lean (NatAdd a b) = atomise a (to_lean a) @ '' + '' @ atomise b (to_lean b)"
| "to_lean (AndU64Imm a i) = ''('' @ atomise a (to_lean a) @ '' &&& toU64 '' @ lean_off i @ '') % U64_MODULUS''"
| "to_lean (LshU64Imm a i) = ''('' @ atomise a (to_lean a) @ '' <<< (toU64 '' @ lean_off i @ '' % 64)) % U64_MODULUS''"
| "to_lean (StHalfImm i) = ''toU64 '' @ lean_off i @ '' % 2 ^ (2 * 8)''"
| "to_lean (StWordImm i) = ''toU64 '' @ lean_off i @ '' % 2 ^ (4 * 8)''"
| "to_lean (StDwordImm i) = ''toU64 '' @ lean_off i @ '' % 2 ^ (8 * 8)''"
| "to_lean (RshU64Imm a i) = atomise a (to_lean a) @ '' >>> (toU64 '' @ lean_off i @ '' % 64)''"
| "to_lean (CleanSub a b) = atomise a (to_lean a) @ '' - '' @ atomise b (to_lean b)"
| "to_lean (ByteCombo bs) = combo_render (map (\<lambda>b. atomise b (to_lean b)) bs)"

definition atom_lean :: "expr \<Rightarrow> string" where
  "atom_lean e = atomise e (to_lean e)"

subsection \<open>Evaluation and solving\<close>

text \<open>\<open>acc.wrapping_mul(256).wrapping_add(b)\<close> from the last byte to the first, stopping at an unknown one.\<close>

fun horner :: "u64 option list \<Rightarrow> u64 option" where
  "horner [] = Some 0"
| "horner (b # bs) = Option.bind (horner bs) (\<lambda>acc. map_option (\<lambda>v. acc * 256 + v) b)"

definition checked_add :: "u64 \<Rightarrow> u64 \<Rightarrow> u64 option" where
  "checked_add a b = (if unat a + unat b < 2 ^ 64 then Some (a + b) else None)"

definition checked_sub :: "u64 \<Rightarrow> u64 \<Rightarrow> u64 option" where
  "checked_sub a b = (if b \<le> a then Some (a - b) else None)"

definition bind2 :: "'a option \<Rightarrow> 'b option \<Rightarrow> ('a \<Rightarrow> 'b \<Rightarrow> 'c option) \<Rightarrow> 'c option" where
  "bind2 x y f = Option.bind x (\<lambda>a. Option.bind y (f a))"

lemma bind2_Some [simp]: "bind2 x y f = Some z \<longleftrightarrow> (\<exists>a b. x = Some a \<and> y = Some b \<and> f a b = Some z)"
  by (cases x; cases y) (auto simp: bind2_def)

definition sh64 :: "int \<Rightarrow> nat" where
  "sh64 i = unat (word_of_int i :: u64) mod 64"

definition rem64 :: "u64 \<Rightarrow> u64 \<Rightarrow> u64" where
  "rem64 v m = (if m = 0 then v else v mod m)"

fun eval_expr :: "expr \<Rightarrow> env \<Rightarrow> u64 option" where
  "eval_expr (InitReg n) env = map_of env n"
| "eval_expr (InitMem n) env = map_of env n"
| "eval_expr (Const k) env = (if k \<ge> 0 then Some (word_of_int k) else None)"
| "eval_expr (ToU64 e) env = (case e of Const k \<Rightarrow> Some (word_of_int k) | _ \<Rightarrow> eval_expr e env)"
| "eval_expr (Mod_u a m) env = map_option (\<lambda>v. rem64 v m) (eval_expr a env)"
| "eval_expr (WrapAdd a b) env = bind2 (eval_expr a env) (eval_expr b env) (\<lambda>x y. Some (x + y))"
| "eval_expr (WrapSub a b) env = bind2 (eval_expr a env) (eval_expr b env) (\<lambda>x y. Some (x - y))"
| "eval_expr (WrapMul a b) env = bind2 (eval_expr a env) (eval_expr b env) (\<lambda>x y. Some (x * y))"
| "eval_expr (NatAdd a b) env = bind2 (eval_expr a env) (eval_expr b env) checked_add"
| "eval_expr (AndU64Imm a i) env = map_option (\<lambda>v. v AND word_of_int i) (eval_expr a env)"
| "eval_expr (LshU64Imm a i) env = map_option (push_bit (sh64 i)) (eval_expr a env)"
| "eval_expr (RshU64Imm a i) env = map_option (drop_bit (sh64 i)) (eval_expr a env)"
| "eval_expr (StHalfImm i) env = Some (word_of_int i mod 0x10000)"
| "eval_expr (StWordImm i) env = Some (word_of_int i mod 0x100000000)"
| "eval_expr (StDwordImm i) env = Some (word_of_int i)"
| "eval_expr (CleanSub a b) env = bind2 (eval_expr a env) (eval_expr b env) checked_sub"
| "eval_expr (ByteCombo bs) env = horner (map (\<lambda>b. eval_expr b env) bs)"
| "eval_expr (Raw _) env = None"
| "eval_expr (RawConst _ v) env = Some v"

text \<open>Every call first tries to evaluate: a known value can only be compared with the target.\<close>

definition known :: "expr \<Rightarrow> u64 \<Rightarrow> env \<Rightarrow> bool \<times> env \<Rightarrow> bool \<times> env" where
  "known e t env k = (case eval_expr e env of Some v \<Rightarrow> (v = t, env) | None \<Rightarrow> k)"

definition byte_of :: "nat \<Rightarrow> u64 \<Rightarrow> u64" where
  "byte_of i t = (if i < 8 then drop_bit (8 * i) t AND 0xFF else 0)"

fun solve_expr :: "expr \<Rightarrow> u64 \<Rightarrow> env \<Rightarrow> bool \<times> env"
and solve_bytes :: "nat \<Rightarrow> expr list \<Rightarrow> u64 \<Rightarrow> env \<Rightarrow> bool \<times> env" where
  "solve_expr (InitReg n) t env = known (InitReg n) t env (True, bt_insert n t env)"
| "solve_expr (InitMem n) t env = known (InitMem n) t env (True, bt_insert n t env)"
| "solve_expr (ToU64 e) t env = known (ToU64 e) t env (solve_expr e t env)"
| "solve_expr (Mod_u a m) t env = known (Mod_u a m) t env
     (if m \<noteq> 0 \<and> t \<ge> m then (False, env) else solve_expr a t env)"
| "solve_expr (WrapAdd a b) t env = known (WrapAdd a b) t env
     (case eval_expr a env of
        Some va \<Rightarrow> solve_expr b (t - va) env
      | None \<Rightarrow> (case eval_expr b env of Some vb \<Rightarrow> solve_expr a (t - vb) env | None \<Rightarrow> (False, env)))"
| "solve_expr (WrapSub a b) t env = known (WrapSub a b) t env
     (case eval_expr b env of
        Some vb \<Rightarrow> solve_expr a (t + vb) env
      | None \<Rightarrow> (case eval_expr a env of Some va \<Rightarrow> solve_expr b (va - t) env | None \<Rightarrow> (False, env)))"
| "solve_expr (NatAdd a b) t env = known (NatAdd a b) t env
     (case eval_expr a env of
        Some va \<Rightarrow> if va \<le> t then solve_expr b (t - va) env else (False, env)
      | None \<Rightarrow> (case eval_expr b env of
           Some vb \<Rightarrow> if vb \<le> t then solve_expr a (t - vb) env else (False, env)
         | None \<Rightarrow> (False, env)))"
| "solve_expr (AndU64Imm a i) t env = known (AndU64Imm a i) t env
     (if t AND word_of_int i \<noteq> t then (False, env) else solve_expr a t env)"
| "solve_expr (ByteCombo bs) t env = known (ByteCombo bs) t env
     (case solve_bytes 0 bs t env of
        (False, env') \<Rightarrow> (False, env')
      | (True, env') \<Rightarrow> (horner (map (\<lambda>b. eval_expr b env') bs) = Some t, env'))"
| "solve_expr e t env = known e t env (False, env)"
| "solve_bytes i [] t env = (True, env)"
| "solve_bytes i (b # bs) t env =
     (case solve_expr b (byte_of i t) env of
        (False, env') \<Rightarrow> (False, env')
      | (True, env') \<Rightarrow> solve_bytes (Suc i) bs t env')"

subsection \<open>Addresses\<close>

definition wrap_i64 :: "int \<Rightarrow> int" where
  "wrap_i64 k = signed_take_bit 63 k"

fun const_of_expr :: "expr \<Rightarrow> int option" where
  "const_of_expr (Const k) = Some k"
| "const_of_expr (ToU64 e) = const_of_expr e"
| "const_of_expr _ = None"

text \<open>The bytes of \<open>\<guillemotleft>absolute\<guillemotright>\<close>, the root of a constant address.\<close>

definition absolute_root :: string where
  "absolute_root = [CHR 0xC2, CHR 0xAB] @ ''absolute'' @ [CHR 0xC2, CHR 0xBB]"

fun canon_go :: "expr \<Rightarrow> int \<Rightarrow> (string \<times> int) option" where
  "canon_go (InitReg n) acc = Some (n, acc)"
| "canon_go (InitMem n) acc = Some (n, acc)"
| "canon_go (Const k) acc = Some (absolute_root, wrap_i64 (acc + k))"
| "canon_go (ToU64 e) acc = canon_go e acc"
| "canon_go (WrapAdd a b) acc =
     (case const_of_expr b of
        Some k \<Rightarrow> canon_go a (wrap_i64 (acc + k))
      | None \<Rightarrow> (case const_of_expr a of Some k \<Rightarrow> canon_go b (wrap_i64 (acc + k)) | None \<Rightarrow> None))"
| "canon_go (NatAdd a b) acc =
     (case const_of_expr b of
        Some k \<Rightarrow> canon_go a (wrap_i64 (acc + k))
      | None \<Rightarrow> (case const_of_expr a of Some k \<Rightarrow> canon_go b (wrap_i64 (acc + k)) | None \<Rightarrow> None))"
| "canon_go (WrapSub a b) acc =
     (case const_of_expr b of Some k \<Rightarrow> canon_go a (wrap_i64 (acc - k)) | None \<Rightarrow> None)"
| "canon_go _ acc = None"

definition canon_addr :: "expr \<Rightarrow> int \<Rightarrow> string \<times> int" where
  "canon_addr base d = (case canon_go base d of Some r \<Rightarrow> r | None \<Rightarrow> (to_lean base, d))"

fun canon_root_expr :: "expr \<Rightarrow> int \<Rightarrow> expr option \<times> int" where
  "canon_root_expr (InitReg n) acc = (Some (InitReg n), acc)"
| "canon_root_expr (InitMem n) acc = (Some (InitMem n), acc)"
| "canon_root_expr (Const k) acc = (None, wrap_i64 (acc + k))"
| "canon_root_expr (ToU64 e) acc = canon_root_expr e acc"
| "canon_root_expr (WrapAdd a b) acc =
     (case const_of_expr b of
        Some k \<Rightarrow> canon_root_expr a (wrap_i64 (acc + k))
      | None \<Rightarrow> (case const_of_expr a of
           Some k \<Rightarrow> canon_root_expr b (wrap_i64 (acc + k))
         | None \<Rightarrow> (Some (WrapAdd a b), acc)))"
| "canon_root_expr (NatAdd a b) acc =
     (case const_of_expr b of
        Some k \<Rightarrow> canon_root_expr a (wrap_i64 (acc + k))
      | None \<Rightarrow> (case const_of_expr a of
           Some k \<Rightarrow> canon_root_expr b (wrap_i64 (acc + k))
         | None \<Rightarrow> (Some (NatAdd a b), acc)))"
| "canon_root_expr (WrapSub a b) acc =
     (case const_of_expr b of Some k \<Rightarrow> canon_root_expr a (wrap_i64 (acc - k)) | None \<Rightarrow> (Some (WrapSub a b), acc))"
| "canon_root_expr e acc = (Some e, acc)"

subsection \<open>Names\<close>

definition reg_lit :: "nat \<Rightarrow> string" where
  "reg_lit n = (if n \<le> 10 then ''r'' @ digits n else ''r0'')"

definition reg_initial_name :: "nat \<Rightarrow> string" where
  "reg_initial_name n = (if n = 1 then ''baseAddr'' else ''vR'' @ digits n @ ''Old'')"

definition w_short :: "width \<Rightarrow> string" where
  "w_short w = (case w of Byte \<Rightarrow> ''B'' | Half \<Rightarrow> ''H'' | Word_w \<Rightarrow> ''W'' | Dword \<Rightarrow> ''D'')"

subsection \<open>Extending an assignment\<close>

lemma horner_mono:
  "horner (map f bs) = Some v \<Longrightarrow> (\<And>b w. b \<in> set bs \<Longrightarrow> f b = Some w \<Longrightarrow> g b = Some w) \<Longrightarrow> horner (map g bs) = Some v"
proof (induction bs arbitrary: v)
  case (Cons b bs)
  from Cons.prems(1) obtain acc w where "horner (map f bs) = Some acc" "f b = Some w" "v = acc * 256 + w"
    by (auto simp: Option.bind_eq_Some_conv)
  moreover from this have "horner (map g bs) = Some acc" using Cons.IH Cons.prems(2) by simp
  ultimately show ?case using Cons.prems(2) by simp
qed simp

lemma eval_mono: "eval_expr e env = Some v \<Longrightarrow> map_of env \<subseteq>\<^sub>m map_of env' \<Longrightarrow> eval_expr e env' = Some v"
proof (induction e arbitrary: v)
  case (InitReg n)
  then show ?case by (metis domI eval_expr.simps(1,2) map_le_def)
next
  case (InitMem n)
  then show ?case by (metis domI eval_expr.simps(1,2) map_le_def)
next
  case (ToU64 e)
  then show ?case by (cases e) auto
next
  case (ByteCombo bs)
  then show ?case using horner_mono [of "\<lambda>b. eval_expr b env" bs v "\<lambda>b. eval_expr b env'"] by simp
qed auto

lemma checked_add_sub: "v \<le> t \<Longrightarrow> checked_add v (t - v) = Some t \<and> checked_add (t - v) v = Some t"
  using unsigned_less [of t] by (auto simp: checked_add_def word_le_nat_alt unat_sub)

text \<open>A successful solve reaches the target, and a solve only adds bindings.\<close>

definition steered :: "expr \<Rightarrow> u64 \<Rightarrow> env \<Rightarrow> bool \<Rightarrow> env \<Rightarrow> bool" where
  "steered e t env ok env' \<longleftrightarrow> map_of env \<subseteq>\<^sub>m map_of env' \<and> (ok \<longrightarrow> eval_expr e env' = Some t)"

lemma steered_fail [simp]: "(False, env) = (ok, env') \<Longrightarrow> steered e t env ok env'"
  by (simp add: steered_def)

lemma known_steered:
  assumes "known e t env k = (ok, env')" "eval_expr e env = None \<Longrightarrow> k = (ok, env') \<Longrightarrow> steered e t env ok env'"
  shows "steered e t env ok env'"
  using assms by (cases "eval_expr e env") (auto simp: known_def steered_def)

lemma known_fail: "known e t env (False, env) = (ok, env') \<Longrightarrow> steered e t env ok env'"
  by (erule known_steered) simp

text \<open>Steering a sub-expression steers the whole, when its new value gives the whole its target.\<close>

lemma steered_sub:
  "steered b u env ok env' \<Longrightarrow> (\<And>env'. map_of env \<subseteq>\<^sub>m map_of env' \<Longrightarrow> eval_expr b env' = Some u \<Longrightarrow> eval_expr e env' = Some t) \<Longrightarrow>
   steered e t env ok env'"
  by (auto simp: steered_def)

text \<open>Evaluate one side, solve the other.\<close>

lemma steered_pair:
  assumes "(case eval_expr a env of Some va \<Rightarrow> s va | None \<Rightarrow>
             (case eval_expr b env of Some vb \<Rightarrow> r vb | None \<Rightarrow> (False, env))) = (ok, env')"
    and "\<And>va. eval_expr a env = Some va \<Longrightarrow> s va = (ok, env') \<Longrightarrow> steered e t env ok env'"
    and "\<And>vb. eval_expr a env = None \<Longrightarrow> eval_expr b env = Some vb \<Longrightarrow> r vb = (ok, env') \<Longrightarrow> steered e t env ok env'"
  shows "steered e t env ok env'"
  using assms by (simp split: option.splits)

lemma eval_ToU64_None: "eval_expr (ToU64 e) env = None \<Longrightarrow> eval_expr (ToU64 e) env' = eval_expr e env'"
  by (cases e) auto

lemma solve_steered:
  "solve_expr e t env = (ok, env') \<Longrightarrow> steered e t env ok env'"
  "solve_bytes i bs t env = (ok, env') \<Longrightarrow> map_of env \<subseteq>\<^sub>m map_of env'"
proof (induction e t env and i bs t env arbitrary: ok env' and ok env' rule: solve_expr_solve_bytes.induct)
  case (1 n t env)
  show ?case by (rule known_steered [OF "1.prems" [unfolded solve_expr.simps]]) (auto simp: steered_def map_le_def)
next
  case (2 n t env)
  show ?case by (rule known_steered [OF "2.prems" [unfolded solve_expr.simps]]) (auto simp: steered_def map_le_def)
next
  case (3 e t env)
  show ?case
  proof (rule known_steered [OF "3.prems" [unfolded solve_expr.simps(3)]])
    assume n: "eval_expr (ToU64 e) env = None" "solve_expr e t env = (ok, env')"
    show "steered (ToU64 e) t env ok env'"
      by (rule steered_sub [OF "3.IH" [OF n(2)]]) (simp only: eval_ToU64_None [OF n(1)])
  qed
next
  case (4 a m t env)
  show ?case
  proof (rule known_steered [OF "4.prems" [unfolded solve_expr.simps(4)]])
    assume k: "(if m \<noteq> 0 \<and> t \<ge> m then (False, env) else solve_expr a t env) = (ok, env')"
    have "\<not> (m \<noteq> 0 \<and> t \<ge> m) \<Longrightarrow> rem64 t m = t" by (auto simp: rem64_def mod_word_less)
    then show "steered (Mod_u a m) t env ok env'"
      using k "4.IH" by (cases "m \<noteq> 0 \<and> t \<ge> m") (auto intro!: steered_sub [of a t])
  qed
next
  case (5 a b t env)
  show ?case
  proof (rule known_steered [OF "5.prems" [unfolded solve_expr.simps(5)]], erule steered_pair)
    fix va assume va: "eval_expr a env = Some va" "solve_expr b (t - va) env = (ok, env')"
    show "steered (WrapAdd a b) t env ok env'"
      by (rule steered_sub [OF "5.IH"(2) [OF va]]) (simp add: eval_mono [OF va(1)])
  next
    fix vb assume vb: "eval_expr a env = None" "eval_expr b env = Some vb" "solve_expr a (t - vb) env = (ok, env')"
    show "steered (WrapAdd a b) t env ok env'"
      by (rule steered_sub [OF "5.IH"(1) [OF vb]]) (simp add: eval_mono [OF vb(2)])
  qed
next
  case (6 a b t env)
  show ?case
  proof (rule known_steered [OF "6.prems" [unfolded solve_expr.simps(6)]], erule steered_pair)
    fix vb assume vb: "eval_expr b env = Some vb" "solve_expr a (t + vb) env = (ok, env')"
    show "steered (WrapSub a b) t env ok env'"
      by (rule steered_sub [OF "6.IH"(2) [OF vb]]) (simp add: eval_mono [OF vb(1)])
  next
    fix va assume va: "eval_expr b env = None" "eval_expr a env = Some va" "solve_expr b (va - t) env = (ok, env')"
    show "steered (WrapSub a b) t env ok env'"
      by (rule steered_sub [OF "6.IH"(1) [OF va]]) (simp add: eval_mono [OF va(2)])
  qed
next
  case (7 a b t env)
  show ?case
  proof (rule known_steered [OF "7.prems" [unfolded solve_expr.simps(7)]], erule steered_pair)
    fix va assume va: "eval_expr a env = Some va" "(if va \<le> t then solve_expr b (t - va) env else (False, env)) = (ok, env')"
    show "steered (NatAdd a b) t env ok env'"
    proof (cases "va \<le> t")
      case True
      show ?thesis by (rule steered_sub [OF "7.IH"(2) [OF va(1) True]])
        (use va(2) True in \<open>simp_all add: eval_mono [OF va(1)] checked_add_sub\<close>)
    qed (use va(2) in simp)
  next
    fix vb assume vb: "eval_expr a env = None" "eval_expr b env = Some vb"
      "(if vb \<le> t then solve_expr a (t - vb) env else (False, env)) = (ok, env')"
    show "steered (NatAdd a b) t env ok env'"
    proof (cases "vb \<le> t")
      case True
      show ?thesis by (rule steered_sub [OF "7.IH"(1) [OF vb(1,2) True]])
        (use vb(3) True in \<open>simp_all add: eval_mono [OF vb(2)] checked_add_sub\<close>)
    qed (use vb(3) in simp)
  qed
next
  case (8 a i t env)
  show ?case
    by (rule known_steered [OF "8.prems" [unfolded solve_expr.simps(8)]])
       (use "8.IH" in \<open>auto split: if_splits elim!: steered_sub\<close>)
next
  case (9 bs t env)
  show ?case
    by (rule known_steered [OF "9.prems" [unfolded solve_expr.simps(9)]])
       (use "9.IH" in \<open>auto simp: steered_def split: prod.splits bool.splits\<close>)
next
  case (12 i b bs t env)
  obtain ok1 env1 where s: "solve_expr b (byte_of i t) env = (ok1, env1)" by fastforce
  have m1: "map_of env \<subseteq>\<^sub>m map_of env1" using "12.IH"(1) [OF s] by (simp add: steered_def)
  show ?case
  proof (cases ok1)
    case True
    then have "map_of env1 \<subseteq>\<^sub>m map_of env'" using "12.IH"(2) [OF s [symmetric]] "12.prems" s by simp
    then show ?thesis using m1 map_le_trans by blast
  qed (use "12.prems" s m1 in auto)
next
  case (11 i t env)
  then show ?case by simp
qed (simp only: solve_expr.simps, erule known_fail)+

subsection \<open>The rendered term\<close>

text \<open>
  The natural number the rendered Lean term denotes, with \<open>toU64\<close>, \<open>wrapAdd\<close>, \<open>wrapSub\<close> and \<open>wrapMul\<close>
  as \<open>SVM/SBPF\<close> defines them.  The meaning of a pre-rendered term is an argument.  A negative literal
  is a term of type \<open>Int\<close>, so it only occurs under \<open>toU64\<close>.
\<close>

definition toU64 :: "int \<Rightarrow> nat" where
  "toU64 k = nat (k mod 2 ^ 64)"

fun combo_sem :: "nat list \<Rightarrow> nat" where
  "combo_sem [] = 0"
| "combo_sem (b # bs) = b + 256 * combo_sem bs"

fun sem :: "(string \<Rightarrow> nat) \<Rightarrow> (string \<Rightarrow> nat) \<Rightarrow> expr \<Rightarrow> nat" where
  "sem rv \<rho> (InitReg n) = \<rho> n"
| "sem rv \<rho> (InitMem n) = \<rho> n"
| "sem rv \<rho> (Const k) = nat k"
| "sem rv \<rho> (ToU64 e) = (case e of Const k \<Rightarrow> toU64 k | _ \<Rightarrow> toU64 (int (sem rv \<rho> e)))"
| "sem rv \<rho> (Mod_u a m) = sem rv \<rho> a mod unat m"
| "sem rv \<rho> (WrapAdd a b) = (sem rv \<rho> a + sem rv \<rho> b) mod 2 ^ 64"
| "sem rv \<rho> (WrapSub a b) = (sem rv \<rho> a + 2 ^ 64 - sem rv \<rho> b mod 2 ^ 64) mod 2 ^ 64"
| "sem rv \<rho> (WrapMul a b) = (sem rv \<rho> a * sem rv \<rho> b) mod 2 ^ 64"
| "sem rv \<rho> (NatAdd a b) = sem rv \<rho> a + sem rv \<rho> b"
| "sem rv \<rho> (AndU64Imm a i) = (sem rv \<rho> a AND toU64 i) mod 2 ^ 64"
| "sem rv \<rho> (LshU64Imm a i) = push_bit (toU64 i mod 64) (sem rv \<rho> a) mod 2 ^ 64"
| "sem rv \<rho> (StHalfImm i) = toU64 i mod 2 ^ (2 * 8)"
| "sem rv \<rho> (StWordImm i) = toU64 i mod 2 ^ (4 * 8)"
| "sem rv \<rho> (StDwordImm i) = toU64 i mod 2 ^ (8 * 8)"
| "sem rv \<rho> (RshU64Imm a i) = drop_bit (toU64 i mod 64) (sem rv \<rho> a)"
| "sem rv \<rho> (CleanSub a b) = sem rv \<rho> a - sem rv \<rho> b"
| "sem rv \<rho> (ByteCombo bs) = combo_sem (map (sem rv \<rho>) bs)"
| "sem rv \<rho> (Raw s) = rv s"
| "sem rv \<rho> (RawConst s v) = rv s"

text \<open>
  What the evaluator relies on: a literal is an \<open>i64\<close>, a closed pre-rendered term carries its value,
  and a byte combination has at most eight parts that evaluate to bytes.
\<close>

fun evaluable :: "(string \<Rightarrow> nat) \<Rightarrow> env \<Rightarrow> expr \<Rightarrow> bool" where
  "evaluable rv env (RawConst s v) \<longleftrightarrow> rv s = unat v"
| "evaluable rv env (Const k) \<longleftrightarrow> k < 2 ^ 63"
| "evaluable rv env (ByteCombo bs) \<longleftrightarrow> length bs \<le> 8 \<and> list_all (\<lambda>b. evaluable rv env b \<and>
     (case eval_expr b env of None \<Rightarrow> True | Some v \<Rightarrow> v < 256)) bs"
| "evaluable rv env (ToU64 e) \<longleftrightarrow> evaluable rv env e"
| "evaluable rv env (Mod_u e _) \<longleftrightarrow> evaluable rv env e"
| "evaluable rv env (AndU64Imm e _) \<longleftrightarrow> evaluable rv env e"
| "evaluable rv env (LshU64Imm e _) \<longleftrightarrow> evaluable rv env e"
| "evaluable rv env (RshU64Imm e _) \<longleftrightarrow> evaluable rv env e"
| "evaluable rv env (WrapAdd a b) \<longleftrightarrow> evaluable rv env a \<and> evaluable rv env b"
| "evaluable rv env (WrapSub a b) \<longleftrightarrow> evaluable rv env a \<and> evaluable rv env b"
| "evaluable rv env (WrapMul a b) \<longleftrightarrow> evaluable rv env a \<and> evaluable rv env b"
| "evaluable rv env (NatAdd a b) \<longleftrightarrow> evaluable rv env a \<and> evaluable rv env b"
| "evaluable rv env (CleanSub a b) \<longleftrightarrow> evaluable rv env a \<and> evaluable rv env b"
| "evaluable rv env _ \<longleftrightarrow> True"

definition assigns :: "env \<Rightarrow> (string \<Rightarrow> nat) \<Rightarrow> bool" where
  "assigns env \<rho> \<longleftrightarrow> (\<forall>n v. map_of env n = Some v \<longrightarrow> \<rho> n = unat v)"

named_theorems unat_simps "machine operations read as operations on naturals"

lemma unat_of_int64 [unat_simps]: "unat (word_of_int i :: u64) = toU64 i"
  by (simp add: toU64_def unsigned_of_int take_bit_eq_mod)

lemma unat_lt64: "unat (w :: u64) < 2 ^ 64"
  by (rule order_less_le_trans [OF unsigned_less]) simp

lemma toU64_int: "toU64 (int n) = n mod 2 ^ 64"
  by (simp add: toU64_def nat_mod_as_int)

lemma toU64_uint [unat_simps]: "toU64 (uint (w :: u64)) = unat w"
  using unat_lt64 [of w] toU64_int [of "unat w"] by simp

lemma unat_add64 [unat_simps]: "unat (a + b :: u64) = (unat a + unat b) mod 2 ^ 64"
  by (simp add: unat_word_ariths)

lemma unat_mul64 [unat_simps]: "unat (a * b :: u64) = (unat a * unat b) mod 2 ^ 64"
  by (simp add: unat_word_ariths)

lemma unat_sub64 [unat_simps]: "unat (a - b :: u64) = (unat a + 2 ^ 64 - unat b mod 2 ^ 64) mod 2 ^ 64"
proof -
  have b: "unat b < 2 ^ 64" by (rule unat_lt64)
  have "(word_of_nat (unat a + 2 ^ 64 - unat b) :: u64) = word_of_nat (unat a + 2 ^ 64) - word_of_nat (unat b)"
    by (rule of_nat_diff) (use b in linarith)
  also have "\<dots> = a - b" by simp
  finally have "(word_of_nat (unat a + 2 ^ 64 - unat b) :: u64) = a - b" .
  then have "unat (a - b) = unat (word_of_nat (unat a + 2 ^ 64 - unat b) :: u64)" by simp
  then show ?thesis using b by (simp add: unsigned_of_nat take_bit_eq_mod)
qed

lemma unat_rem64 [unat_simps]: "unat (rem64 v m) = unat v mod unat m"
  by (simp add: rem64_def unat_mod)

lemma unat_push64 [unat_simps]: "unat (push_bit n (v :: u64)) = push_bit n (unat v) mod 2 ^ 64"
  by (simp add: unsigned_push_bit_eq take_bit_eq_mod)

lemma combo_horner:
  "horner (map f bs) = Some v \<Longrightarrow> length bs \<le> 8 \<Longrightarrow> (\<And>b. b \<in> set bs \<Longrightarrow> \<exists>w. f b = Some w \<and> w < 256 \<and> g b = unat w) \<Longrightarrow>
   combo_sem (map g bs) = unat v \<and> unat v < 256 ^ length bs"
proof (induction bs arbitrary: v)
  case (Cons b bs)
  from Cons.prems(1) obtain acc where acc: "horner (map f bs) = Some acc" by (auto simp: Option.bind_eq_Some_conv)
  obtain w where w: "f b = Some w" "w < 256" "g b = unat w" using Cons.prems(3) [of b] by auto
  have v: "v = acc * 256 + w" using Cons.prems(1) acc w by simp
  have IH: "combo_sem (map g bs) = unat acc" "unat acc < 256 ^ length bs" using Cons.IH [OF acc] Cons.prems by auto
  have w8: "unat w < 256" using w(2) by (simp add: word_less_nat_alt)
  have "unat acc + 1 \<le> 256 ^ length bs" using IH(2) by simp
  then have "(unat acc + 1) * 256 \<le> 256 ^ length bs * 256" by (rule mult_right_mono) simp
  then have lt: "unat acc * 256 + unat w < 256 ^ Suc (length bs)" using w8 by simp
  also have "(256 :: nat) ^ Suc (length bs) \<le> 256 ^ 8" by (rule power_increasing) (use Cons.prems(2) in auto)
  finally have "unat acc * 256 + unat w < 2 ^ 64" by simp
  then have "unat v = unat acc * 256 + unat w" by (simp add: v unat_simps)
  then show ?case using IH w lt by simp
qed simp

lemma horner_all: "horner (map f bs) = Some v \<Longrightarrow> b \<in> set bs \<Longrightarrow> \<exists>w. f b = Some w"
  by (induction bs arbitrary: v) (auto simp: Option.bind_eq_Some_conv)

lemma eval_expr_sem:
  assumes "assigns env \<rho>"
  shows "eval_expr e env = Some v \<Longrightarrow> evaluable rv env e \<Longrightarrow> sem rv \<rho> e = unat v"
proof (induction e arbitrary: v)
  case (Const k)
  then have "v = word_of_int k" "0 \<le> k" "k < 2 ^ 63" by (auto split: if_splits)
  then show ?case by (simp add: unat_simps toU64_def)
next
  case (ToU64 e)
  then show ?case by (cases e) (auto simp: unat_simps toU64_int)
next
  case (ByteCombo bs)
  have "\<exists>w. eval_expr b env = Some w \<and> w < 256 \<and> sem rv \<rho> b = unat w" if b: "b \<in> set bs" for b
  proof -
    obtain w where w: "eval_expr b env = Some w" using horner_all [OF ByteCombo.prems(1) [simplified]] b by auto
    then show ?thesis using ByteCombo.IH [OF b w] ByteCombo.prems(2) b by (auto simp: list_all_iff)
  qed
  then show ?case using combo_horner [of "\<lambda>b. eval_expr b env" bs v "sem rv \<rho>"] ByteCombo.prems by simp
next
  case (StHalfImm i)
  then show ?case by (auto simp: unat_simps unat_mod)
next
  case (StWordImm i)
  then show ?case by (auto simp: unat_simps unat_mod)
next
  case (StDwordImm i)
  then show ?case by (auto simp: unat_simps toU64_def nat_mod_as_int)
next
  case (AndU64Imm a i)
  then obtain w where w: "eval_expr a env = Some w" "v = w AND word_of_int i" by auto
  have "unat v < 2 ^ 64" by (rule unat_lt64)
  then show ?case using AndU64Imm.IH [OF w(1)] AndU64Imm.prems(2) by (simp add: w(2) unsigned_and_eq unat_simps)
next
  case (NatAdd a b)
  then show ?case by (auto simp: checked_add_def unat_simps split: if_splits)
next
  case (CleanSub a b)
  then show ?case by (auto simp: checked_sub_def unat_sub word_le_nat_alt split: if_splits)
qed (use assms in \<open>auto simp: assigns_def unat_simps sh64_def unat_drop_bit_eq\<close>)

subsection \<open>Canonical addresses\<close>

lemma wrap_i64_word [simp]: "(word_of_int (wrap_i64 k) :: u64) = word_of_int k"
proof -
  have "take_bit 64 (signed_take_bit 63 k) = take_bit 64 k"
    using take_bit_signed_take_bit [of 64 63 k] by simp
  then show ?thesis by (simp add: wrap_i64_def word_of_int_eq_iff)
qed

lemma eval_ToU64E:
  assumes "eval_expr (ToU64 e) env = Some v"
  obtains k where "e = Const k" "v = word_of_int k" | "eval_expr e env = Some v"
  using assms by (cases e) simp_all

lemma const_of_expr_eval: "const_of_expr e = Some k \<Longrightarrow> eval_expr e env = Some v \<Longrightarrow> v = word_of_int k"
proof (induction e arbitrary: v)
  case (ToU64 e)
  from ToU64.prems(2) show ?case
  proof (cases rule: eval_ToU64E)
    case (1 k')
    then show ?thesis using ToU64.prems(1) by simp
  next
    case 2
    then show ?thesis using ToU64.IH ToU64.prems(1) by (simp del: eval_expr.simps)
  qed
qed (auto split: if_splits)

text \<open>The value of the root of a canonical address; a constant address has none.\<close>

definition root_value :: "expr option \<Rightarrow> env \<Rightarrow> u64 option" where
  "root_value r env = (case r of None \<Rightarrow> Some 0 | Some e \<Rightarrow> eval_expr e env)"

definition rooted :: "expr option \<times> int \<Rightarrow> env \<Rightarrow> u64 \<Rightarrow> bool" where
  "rooted rd env w \<longleftrightarrow> (\<exists>u. root_value (fst rd) env = Some u \<and> w = u + word_of_int (snd rd))"

lemma rooted_self: "eval_expr e env = Some v \<Longrightarrow> rooted (Some e, acc) env (v + word_of_int acc)"
  by (simp add: rooted_def root_value_def)

text \<open>Both sums fold a constant operand into the displacement.\<close>

lemma rooted_sum:
  assumes ab: "eval_expr a env = Some va" "eval_expr b env = Some vb" and e: "eval_expr e env = Some (va + vb)"
    and A: "\<And>k. const_of_expr b = Some k \<Longrightarrow> rooted (f (wrap_i64 (acc + k))) env (va + word_of_int (wrap_i64 (acc + k)))"
    and B: "\<And>k. const_of_expr b = None \<Longrightarrow> const_of_expr a = Some k \<Longrightarrow>
              rooted (g (wrap_i64 (acc + k))) env (vb + word_of_int (wrap_i64 (acc + k)))"
  shows "rooted (case const_of_expr b of Some k \<Rightarrow> f (wrap_i64 (acc + k))
           | None \<Rightarrow> (case const_of_expr a of Some k \<Rightarrow> g (wrap_i64 (acc + k)) | None \<Rightarrow> (Some e, acc))) env (va + vb + word_of_int acc)"
proof (cases "const_of_expr b")
  case (Some k)
  have "va + vb + word_of_int acc = va + word_of_int (wrap_i64 (acc + k))"
    using const_of_expr_eval [OF Some ab(2)] by simp
  then show ?thesis unfolding Some option.case using A [OF Some] by (simp only:)
next
  case None
  show ?thesis
  proof (cases "const_of_expr a")
    case (Some k)
    have "va + vb + word_of_int acc = vb + word_of_int (wrap_i64 (acc + k))"
      using const_of_expr_eval [OF Some ab(1)] by simp
    then show ?thesis unfolding None Some option.case using B [OF None Some] by (simp only:)
  qed (simp add: None rooted_self [OF e])
qed

lemma canon_root_value: "eval_expr e env = Some v \<Longrightarrow> rooted (canon_root_expr e acc) env (v + word_of_int acc)"
proof (induction e acc arbitrary: v rule: canon_root_expr.induct)
  case (3 k acc)
  then show ?case by (auto simp: rooted_def root_value_def split: if_splits)
next
  case (4 e acc)
  from "4.prems" show ?case
  proof (cases rule: eval_ToU64E)
    case (1 k)
    then show ?thesis by (simp add: rooted_def root_value_def)
  qed (use "4.IH" in simp)
next
  case (5 a b acc)
  then obtain va vb where "eval_expr a env = Some va" "eval_expr b env = Some vb" "v = va + vb" by auto
  then show ?case unfolding canon_root_expr.simps
    using rooted_sum [of a env va b vb "WrapAdd a b" "canon_root_expr a"] "5.IH" by simp
next
  case (6 a b acc)
  then obtain va vb where "eval_expr a env = Some va" "eval_expr b env = Some vb" "checked_add va vb = Some v" by auto
  moreover from this(3) have "v = va + vb" by (simp add: checked_add_def split: if_splits)
  ultimately show ?case unfolding canon_root_expr.simps
    using rooted_sum [of a env va b vb "NatAdd a b" "canon_root_expr a"] "6.IH" by simp
next
  case (7 a b acc)
  then obtain va vb where v: "eval_expr a env = Some va" "eval_expr b env = Some vb" "v = va - vb" by auto
  show ?case
  proof (cases "const_of_expr b")
    case (Some k)
    have "v + word_of_int acc = va + word_of_int (wrap_i64 (acc - k))"
      using const_of_expr_eval [OF Some v(2)] v(3) by simp
    then show ?thesis unfolding canon_root_expr.simps Some option.case using "7.IH" [OF Some v(1)] by (simp only:)
  qed (simp add: rooted_self [OF "7.prems"] del: eval_expr.simps)
qed (auto simp only: canon_root_expr.simps intro!: rooted_self)

text \<open>A rendered root stands for the root expression.\<close>

lemma canon_go_root:
  "canon_go e acc = Some (s, d) \<Longrightarrow>
   \<exists>r. canon_root_expr e acc = (r, d) \<and> (case r of None \<Rightarrow> s = absolute_root | Some x \<Rightarrow> x = InitReg s \<or> x = InitMem s)"
  by (induction e acc rule: canon_go.induct) (auto split: option.splits)

subsection \<open>Substitution\<close>

lemma eval_ToU64I: "eval_expr e env = Some v \<Longrightarrow> eval_expr (ToU64 e) env = Some v"
  by (cases e) (simp_all split: if_splits)

lemma substitute_eval_le:
  assumes "\<And>n w. map_of env' n = Some w \<Longrightarrow>
             (case map_of \<sigma> n of Some e \<Rightarrow> eval_expr e env = Some w | None \<Rightarrow> map_of env n = Some w)"
  shows "eval_expr e env' = Some v \<Longrightarrow> eval_expr (substitute \<sigma> e) env = Some v"
proof (induction e arbitrary: v)
  case (InitReg n)
  then show ?case using assms [of n v] by (cases "map_of \<sigma> n") simp_all
next
  case (InitMem n)
  then show ?case using assms [of n v] by (cases "map_of \<sigma> n") simp_all
next
  case (ToU64 e)
  from ToU64.prems show ?case
  proof (cases rule: eval_ToU64E)
    case 2
    show ?thesis unfolding substitute.simps by (rule eval_ToU64I [OF ToU64.IH [OF 2]])
  qed simp
next
  case (ByteCombo bs)
  then show ?case using horner_mono [of "\<lambda>b. eval_expr b env'" bs v "\<lambda>b. eval_expr (substitute \<sigma> b) env"]
    by (simp add: comp_def)
qed auto

subsection \<open>Properties\<close>

text \<open>C37: The solver is sound: when it reports success the expression evaluates to the target under the
  extended assignment, and whatever it reports it only adds variables, so every earlier value stands.\<close>

theorem solve_expr_sound:
  assumes "solve_expr e t env = (ok, env')"
  shows "map_of env \<subseteq>\<^sub>m map_of env' \<and> (ok \<longrightarrow> eval_expr e env' = Some t) \<and>
    (\<forall>e' v. eval_expr e' env = Some v \<longrightarrow> eval_expr e' env' = Some v)"
  using solve_steered(1) [OF assms] eval_mono unfolding steered_def by blast

theorem solve_expr_sound_witness:
  "\<exists>env'. solve_expr (ByteCombo [InitMem ''b0'', WrapSub (InitMem ''b1'') (InitReg ''x'')]) 0x205 [(''x'', 3)] = (True, env') \<and>
     map_of [(''x'', 3)] \<subseteq>\<^sub>m map_of env' \<and>
     eval_expr (ByteCombo [InitMem ''b0'', WrapSub (InitMem ''b1'') (InitReg ''x'')]) env' = Some 0x205"
proof -
  have s: "solve_expr (ByteCombo [InitMem ''b0'', WrapSub (InitMem ''b1'') (InitReg ''x'')]) 0x205 [(''x'', 3)] =
      (True, [(''b0'', 5), (''b1'', 5), (''x'', 3)])" by code_simp
  show ?thesis using solve_expr_sound [OF s] s by auto
qed



text \<open>Canonical addresses decide aliasing: two accesses that canonicalise to the same root are apart,
  modulo \<open>2 ^ 64\<close>, by exactly the difference of their displacements.\<close>

theorem canon_addr_distance:
  assumes "canon_go e1 o1 = Some (s, d1)" "canon_go e2 o2 = Some (s, d2)"
    and "eval_expr e1 env = Some v1" "eval_expr e2 env = Some v2" "map_of env absolute_root = None"
  shows "canon_addr e1 o1 = (s, d1) \<and> canon_addr e2 o2 = (s, d2) \<and>
    (v1 + word_of_int o1) - (v2 + word_of_int o2) = word_of_int (d1 - d2)"
proof -
  obtain r1 where r1: "canon_root_expr e1 o1 = (r1, d1)"
    "case r1 of None \<Rightarrow> s = absolute_root | Some x \<Rightarrow> x = InitReg s \<or> x = InitMem s" using canon_go_root [OF assms(1)] by blast
  obtain r2 where r2: "canon_root_expr e2 o2 = (r2, d2)"
    "case r2 of None \<Rightarrow> s = absolute_root | Some x \<Rightarrow> x = InitReg s \<or> x = InitMem s" using canon_go_root [OF assms(2)] by blast
  obtain u1 where u1: "root_value r1 env = Some u1" "v1 + word_of_int o1 = u1 + word_of_int d1"
    using canon_root_value [OF assms(3), of o1] r1(1) by (auto simp: rooted_def)
  obtain u2 where u2: "root_value r2 env = Some u2" "v2 + word_of_int o2 = u2 + word_of_int d2"
    using canon_root_value [OF assms(4), of o2] r2(1) by (auto simp: rooted_def)
  have "u1 = u2" using r1(2) r2(2) u1(1) u2(1) assms(5) by (auto simp: root_value_def split: option.splits)
  then show ?thesis using u1(2) u2(2) assms(1,2) by (simp add: canon_addr_def)
qed

theorem canon_addr_distance_witness:
  "canon_addr (InitReg ''x'') 8 = (''x'', 8) \<and> canon_addr (WrapAdd (InitReg ''x'') (ToU64 (Const 8))) 4 = (''x'', 12) \<and>
   (5 + word_of_int 8) - (13 + word_of_int 4) = (word_of_int (8 - 12) :: u64)"
proof (rule canon_addr_distance)
  show "canon_go (InitReg ''x'') 8 = Some (''x'', 8)" by simp
  show "canon_go (WrapAdd (InitReg ''x'') (ToU64 (Const 8))) 4 = Some (''x'', 12)" by code_simp
  show "eval_expr (InitReg ''x'') [(''x'', 5)] = Some 5" by simp
  show "eval_expr (WrapAdd (InitReg ''x'') (ToU64 (Const 8))) [(''x'', 5)] = Some 13" by code_simp
  show "map_of [(''x'', 5 :: u64)] absolute_root = None" by (simp add: absolute_root_def)
qed

text \<open>Substitution composes symbolic states: when an assignment gives every replaced variable the value of
  its replacement, the substituted expression evaluates as the original one did.\<close>

theorem substitute_eval:
  assumes "\<forall>n w. map_of env' n = Some w \<longrightarrow>
             (case map_of \<sigma> n of Some e \<Rightarrow> eval_expr e env = Some w | None \<Rightarrow> map_of env n = Some w)"
    and "eval_expr e env' = Some v"
  shows "eval_expr (substitute \<sigma> e) env = Some v"
  using substitute_eval_le [OF _ assms(2)] assms(1) by blast

theorem substitute_eval_witness:
  "eval_expr (substitute [(''x'', WrapAdd (InitReg ''y'') (Const 1))] (Mod_u (InitReg ''x'') 4)) [(''y'', 6)] = Some 3"
  by (rule substitute_eval [where env' = "[(''x'', 7)]"]) (simp_all add: rem64_def)

end
