(* ===== verification/Branch.thy ===== *)
theory Branch
  imports Sym_Expr
begin

text \<open>
  Path conditions of the lifter (\<open>qedlift/src/branch.rs\<close>): the kinds of conditional jump, the
  hypothesis each contributes to the theorem signature, and (from \<open>witness.rs\<close>) its evaluation under a
  concrete assignment.  \<open>hyp_holds\<close> is the proposition the rendered hypothesis states.
\<close>

datatype branch_kind =
    JeqImm | Jmp32_k string | JneImm | JgtImm | JsgtImm | JsleImm | JltImm | JleImm | JsltImm | JgeImm
  | JsgeImm | JsetImm | JeqReg | JneReg | JltReg | JsleReg | JgtReg | JleReg | JsgeReg | JgeReg
  | JsgtReg | JsltReg | JsetReg

record branch_hyp =
  bh_kind :: branch_kind
  dst_value :: expr
  src_value :: "expr option"
  bh_imm :: int
  taken :: bool

abbreviation ne_sign :: string where "ne_sign \<equiv> [CHR 0xE2, CHR 0x89, CHR 0xA0]"
abbreviation le_sign :: string where "le_sign \<equiv> [CHR 0xE2, CHR 0x89, CHR 0xA4]"
abbreviation ge_sign :: string where "ge_sign \<equiv> [CHR 0xE2, CHR 0x89, CHR 0xA5]"
abbreviation not_sign :: string where "not_sign \<equiv> [CHR 0xC2, CHR 0xAC]"

text \<open>A hypothesis of a jump that is not taken is the negation of the taken one, except that an
  (in)equality is written as its dual.\<close>

definition rel_text :: "bool \<Rightarrow> string \<Rightarrow> string \<Rightarrow> string \<Rightarrow> string" where
  "rel_text tk a r b = (if tk then [] else not_sign @ '' '') @ a @ '' '' @ r @ '' '' @ b"

definition lean_hyp :: "branch_hyp \<Rightarrow> string" where
  "lean_hyp bh =
     (let v = to_lean (dst_value bh);
          s = (case src_value bh of Some e \<Rightarrow> to_lean e | None \<Rightarrow> []);
          sgn = (\<lambda>a. ''toSigned64 '' @ a);
          va = sgn (atom_lean (dst_value bh));
          sa = (case src_value bh of Some e \<Rightarrow> atom_lean e | None \<Rightarrow> []);
          iu = ''toU64 '' @ lean_off (bh_imm bh);
          si = sgn (paren iu);
          ss = sgn sa;
          tk = taken bh
      in case bh_kind bh of
           JeqImm \<Rightarrow> v @ '' '' @ (if tk then ''='' else ne_sign) @ '' '' @ iu
         | Jmp32_k c \<Rightarrow> ''jump32Holds .'' @ c @ '' '' @ atom_lean (dst_value bh) @ '' ''
              @ (if src_value bh \<noteq> None then sa else paren iu) @ '' = '' @ (if tk then ''true'' else ''false'')
         | JneImm \<Rightarrow> v @ '' '' @ (if tk then ne_sign else ''='') @ '' '' @ iu
         | JgtImm \<Rightarrow> rel_text tk v ''>'' iu
         | JsgtImm \<Rightarrow> rel_text tk va ''>'' si
         | JsleImm \<Rightarrow> rel_text tk va le_sign si
         | JltImm \<Rightarrow> rel_text tk v ''<'' iu
         | JleImm \<Rightarrow> rel_text tk v le_sign iu
         | JsltImm \<Rightarrow> rel_text tk va ''<'' si
         | JgeImm \<Rightarrow> rel_text tk v ge_sign iu
         | JsgeImm \<Rightarrow> rel_text tk va ge_sign si
         | JsetImm \<Rightarrow> rel_text tk (v @ '' &&& '' @ iu) ne_sign ''0''
         | JeqReg \<Rightarrow> v @ '' '' @ (if tk then ''='' else ne_sign) @ '' '' @ s
         | JneReg \<Rightarrow> v @ '' '' @ (if tk then ne_sign else ''='') @ '' '' @ s
         | JltReg \<Rightarrow> rel_text tk v ''<'' s
         | JgtReg \<Rightarrow> rel_text tk v ''>'' s
         | JleReg \<Rightarrow> rel_text tk v le_sign s
         | JsgeReg \<Rightarrow> rel_text tk va ge_sign ss
         | JgeReg \<Rightarrow> rel_text tk v ge_sign s
         | JsgtReg \<Rightarrow> rel_text tk va ''>'' ss
         | JsltReg \<Rightarrow> rel_text tk va ''<'' ss
         | JsetReg \<Rightarrow> rel_text tk (v @ '' &&& '' @ s) ne_sign ''0''
         | JsleReg \<Rightarrow> rel_text tk va le_sign ss)"

definition hyp_name :: "nat \<Rightarrow> string" where
  "hyp_name idx = ''h_branch'' @ digits idx"

definition jmp32_cond :: "u8 \<Rightarrow> string option" where
  "jmp32_cond b = map_of [(0x16, ''eq''), (0x26, ''gt''), (0x36, ''ge''), (0x46, ''set''), (0x56, ''ne''),
     (0x66, ''sgt''), (0x76, ''sge''), (0xA6, ''lt''), (0xB6, ''le''), (0xC6, ''slt''), (0xD6, ''sle'')] (clear_x b)"

definition jump32_holds :: "string \<Rightarrow> u64 \<Rightarrow> u64 \<Rightarrow> bool" where
  "jump32_holds c x y = (let a = ucast x :: u32; b = ucast y :: u32 in
     if c = ''eq'' then a = b else if c = ''ne'' then a \<noteq> b
     else if c = ''gt'' then a > b else if c = ''ge'' then a \<ge> b
     else if c = ''lt'' then a < b else if c = ''le'' then a \<le> b
     else if c = ''sgt'' then sint a > sint b else if c = ''sge'' then sint a \<ge> sint b
     else if c = ''slt'' then sint a < sint b else if c = ''sle'' then sint a \<le> sint b
     else a AND b \<noteq> 0)"

text \<open>The condition of a jump on known operands; a register form needs its source value.\<close>

definition kind_holds :: "branch_kind \<Rightarrow> u64 \<Rightarrow> u64 \<Rightarrow> u64 option \<Rightarrow> bool option" where
  "kind_holds k dv iv sv = (case k of
      JeqImm \<Rightarrow> Some (dv = iv) | JneImm \<Rightarrow> Some (dv \<noteq> iv)
    | Jmp32_k c \<Rightarrow> Some (jump32_holds c dv (case sv of Some s \<Rightarrow> s | None \<Rightarrow> iv))
    | JgtImm \<Rightarrow> Some (dv > iv) | JltImm \<Rightarrow> Some (dv < iv) | JleImm \<Rightarrow> Some (dv \<le> iv) | JgeImm \<Rightarrow> Some (dv \<ge> iv)
    | JsetImm \<Rightarrow> Some (dv AND iv \<noteq> 0)
    | JeqReg \<Rightarrow> map_option (\<lambda>s. dv = s) sv | JneReg \<Rightarrow> map_option (\<lambda>s. dv \<noteq> s) sv
    | JltReg \<Rightarrow> map_option (\<lambda>s. dv < s) sv | JgtReg \<Rightarrow> map_option (\<lambda>s. dv > s) sv
    | JleReg \<Rightarrow> map_option (\<lambda>s. dv \<le> s) sv | JgeReg \<Rightarrow> map_option (\<lambda>s. dv \<ge> s) sv
    | JsetReg \<Rightarrow> map_option (\<lambda>s. dv AND s \<noteq> 0) sv
    | JsgtImm \<Rightarrow> Some (sint dv > sint iv) | JsltImm \<Rightarrow> Some (sint dv < sint iv)
    | JsleImm \<Rightarrow> Some (sint dv \<le> sint iv) | JsgeImm \<Rightarrow> Some (sint dv \<ge> sint iv)
    | JsgtReg \<Rightarrow> map_option (\<lambda>s. sint dv > sint s) sv | JsltReg \<Rightarrow> map_option (\<lambda>s. sint dv < sint s) sv
    | JsleReg \<Rightarrow> map_option (\<lambda>s. sint dv \<le> sint s) sv | JsgeReg \<Rightarrow> map_option (\<lambda>s. sint dv \<ge> sint s) sv)"

definition eval_branch :: "branch_hyp \<Rightarrow> env \<Rightarrow> bool option" where
  "eval_branch bh env =
     Option.bind (eval_expr (dst_value bh) env) (\<lambda>dv.
     Option.bind (case src_value bh of None \<Rightarrow> Some None | Some s \<Rightarrow> map_option Some (eval_expr s env)) (\<lambda>sv.
     map_option (\<lambda>b. b = taken bh) (kind_holds (bh_kind bh) dv (word_of_int (bh_imm bh)) sv)))"

subsection \<open>The stated proposition\<close>

definition toSigned64 :: "nat \<Rightarrow> int" where
  "toSigned64 v = (if v < 2 ^ 64 div 2 then int v else int v - 2 ^ 64)"

definition jump32Holds :: "string \<Rightarrow> nat \<Rightarrow> nat \<Rightarrow> bool" where
  "jump32Holds c lhs rhs =
     (let a = lhs mod 2 ^ 32; b = rhs mod 2 ^ 32;
          sa = (if a < 2 ^ 32 div 2 then int a else int a - 2 ^ 32);
          sb = (if b < 2 ^ 32 div 2 then int b else int b - 2 ^ 32) in
      if c = ''eq'' then a = b else if c = ''ne'' then a \<noteq> b
      else if c = ''gt'' then a > b else if c = ''ge'' then a \<ge> b
      else if c = ''lt'' then a < b else if c = ''le'' then a \<le> b
      else if c = ''sgt'' then sa > sb else if c = ''sge'' then sa \<ge> sb
      else if c = ''slt'' then sa < sb else if c = ''sle'' then sa \<le> sb
      else a AND b \<noteq> 0)"

definition prop_holds :: "branch_kind \<Rightarrow> nat \<Rightarrow> nat \<Rightarrow> nat option \<Rightarrow> bool" where
  "prop_holds k v i so =
     (let s = (case so of Some s \<Rightarrow> s | None \<Rightarrow> 0); sg = toSigned64 in case k of
        JeqImm \<Rightarrow> v = i | JneImm \<Rightarrow> v \<noteq> i
      | Jmp32_k c \<Rightarrow> jump32Holds c v (case so of Some s \<Rightarrow> s | None \<Rightarrow> i)
      | JgtImm \<Rightarrow> v > i | JltImm \<Rightarrow> v < i | JleImm \<Rightarrow> v \<le> i | JgeImm \<Rightarrow> v \<ge> i | JsetImm \<Rightarrow> v AND i \<noteq> 0
      | JeqReg \<Rightarrow> v = s | JneReg \<Rightarrow> v \<noteq> s | JltReg \<Rightarrow> v < s | JgtReg \<Rightarrow> v > s | JleReg \<Rightarrow> v \<le> s | JgeReg \<Rightarrow> v \<ge> s
      | JsetReg \<Rightarrow> v AND s \<noteq> 0
      | JsgtImm \<Rightarrow> sg v > sg i | JsltImm \<Rightarrow> sg v < sg i | JsleImm \<Rightarrow> sg v \<le> sg i | JsgeImm \<Rightarrow> sg v \<ge> sg i
      | JsgtReg \<Rightarrow> sg v > sg s | JsltReg \<Rightarrow> sg v < sg s | JsleReg \<Rightarrow> sg v \<le> sg s | JsgeReg \<Rightarrow> sg v \<ge> sg s)"

text \<open>What \<open>lean_hyp\<close> states of an assignment of naturals to the variables.\<close>

definition hyp_holds :: "(string \<Rightarrow> nat) \<Rightarrow> (string \<Rightarrow> nat) \<Rightarrow> branch_hyp \<Rightarrow> bool" where
  "hyp_holds rv \<rho> bh \<longleftrightarrow>
     prop_holds (bh_kind bh) (sem rv \<rho> (dst_value bh)) (toU64 (bh_imm bh)) (map_option (sem rv \<rho>) (src_value bh)) = taken bh"

definition hyp_evaluable :: "(string \<Rightarrow> nat) \<Rightarrow> env \<Rightarrow> branch_hyp \<Rightarrow> bool" where
  "hyp_evaluable rv env bh \<longleftrightarrow> evaluable rv env (dst_value bh) \<and>
     (case src_value bh of None \<Rightarrow> True | Some s \<Rightarrow> evaluable rv env s)"

lemma shift_mod:
  fixes n m :: int
  assumes "0 \<le> n" "n < 2 * m"
  shows "(n + m) mod (2 * m) - m = (if n < m then n else n - 2 * m)"
proof (cases "n < m")
  case True
  then have "(n + m) mod (2 * m) = n + m" using assms by (intro mod_pos_pos_trivial) auto
  then show ?thesis using True by simp
next
  case False
  have "(n + m) mod (2 * m) = (n - m) mod (2 * m)" using mod_add_self2 [of "n - m" "2 * m"] by (simp add: add.commute)
  also have "\<dots> = n - m" using assms False by (intro mod_pos_pos_trivial) auto
  finally show ?thesis using False by simp
qed

lemma unat_less_uint: "unat w < numeral n \<longleftrightarrow> uint w < numeral n"
  by (simp add: unat_eq_nat_uint nat_less_iff del: nat_uint_eq)

lemma signed64: "toSigned64 (unat (w :: u64)) = sint w"
proof -
  have "sint w = (uint w + 2 ^ 63) mod (2 * 2 ^ 63) - 2 ^ 63"
    by (simp add: sint_uint signed_take_bit_eq_take_bit_shift take_bit_eq_mod)
  also have "\<dots> = (if uint w < 2 ^ 63 then uint w else uint w - 2 * 2 ^ 63)"
    by (rule shift_mod) (use uint_lt2p [of w] in auto)
  finally show ?thesis by (simp add: toSigned64_def unat_less_uint)
qed

lemma signed32: "(if unat (w :: u32) < 2 ^ 32 div 2 then int (unat w) else int (unat w) - 2 ^ 32) = sint w"
proof -
  have "sint w = (uint w + 2 ^ 31) mod (2 * 2 ^ 31) - 2 ^ 31"
    by (simp add: sint_uint signed_take_bit_eq_take_bit_shift take_bit_eq_mod)
  also have "\<dots> = (if uint w < 2 ^ 31 then uint w else uint w - 2 * 2 ^ 31)"
    by (rule shift_mod) (use uint_lt2p [of w] in auto)
  finally show ?thesis by (simp add: unat_less_uint)
qed

lemma jump32_agrees: "jump32Holds c (unat x) (unat y) = jump32_holds c x y"
proof -
  have a: "unat x mod 2 ^ 32 = unat (ucast x :: u32)" for x :: u64
    by (simp add: unsigned_ucast_eq take_bit_eq_mod)
  show ?thesis unfolding jump32Holds_def jump32_holds_def Let_def a signed32
    by (simp add: word_less_nat_alt word_le_nat_alt word_unat_eq_iff unsigned_and_eq)
qed

lemma kind_agrees:
  "kind_holds k dv iv sv = Some b \<Longrightarrow> prop_holds k (unat dv) (unat iv) (map_option unat sv) = b"
  by (cases k; cases sv)
     (auto simp: kind_holds_def prop_holds_def Let_def signed64 jump32_agrees word_less_nat_alt word_le_nat_alt
       word_unat_eq_iff unsigned_and_eq)

lemma eval_branch_hyp:
  assumes "assigns env \<rho>" "hyp_evaluable rv env bh" "eval_branch bh env = Some b"
  shows "hyp_holds rv \<rho> bh = b"
proof -
  from assms(3) obtain dv sv c where dv: "eval_expr (dst_value bh) env = Some dv"
    and sv: "(case src_value bh of None \<Rightarrow> Some None | Some s \<Rightarrow> map_option Some (eval_expr s env)) = Some sv"
    and c: "kind_holds (bh_kind bh) dv (word_of_int (bh_imm bh)) sv = Some c" "b = (c = taken bh)"
    by (auto simp: eval_branch_def Option.bind_eq_Some_conv)
  have d: "sem rv \<rho> (dst_value bh) = unat dv"
    using eval_expr_sem [OF assms(1) dv] assms(2) by (simp add: hyp_evaluable_def)
  have s: "map_option (sem rv \<rho>) (src_value bh) = map_option unat sv"
  proof (cases "src_value bh")
    case (Some e)
    then obtain w where "eval_expr e env = Some w" "sv = Some w" using sv by auto
    then show ?thesis using eval_expr_sem [OF assms(1)] assms(2) Some by (simp add: hyp_evaluable_def)
  qed (use sv in simp)
  show ?thesis using kind_agrees [OF c(1)] c(2) by (simp add: hyp_holds_def d s unat_simps)
qed

lemma eval_branch_mono:
  assumes "eval_branch bh env = Some b" "map_of env \<subseteq>\<^sub>m map_of env'"
  shows "eval_branch bh env' = Some b"
  using assms(1) eval_mono [OF _ assms(2)]
  by (cases "src_value bh") (force simp: eval_branch_def Option.bind_eq_Some_conv)+

end
