(* ===== verification/Branch_Witness.thy ===== *)
theory Branch_Witness
  imports Branch "HOL-Library.While_Combinator"
begin

text \<open>
  The branch-satisfiability witness (\<open>qedlift/src/witness.rs\<close>): a greedy steering pass, a repair pass over
  union-find classes of equated variables, hill climbing, and the final verification that decides
  whether a witness is emitted.  The loops of \<open>uf_find\<close> are \<open>while_option\<close>s, so \<open>None\<close> stands for a search
  that never ends; it is shown not to occur.
\<close>

subsection \<open>Candidates\<close>

definition branch_candidates :: "branch_hyp \<Rightarrow> env \<Rightarrow> (u64 \<times> u64 option) list" where
  "branch_candidates bh env =
     (let iv = word_of_int (bh_imm bh) :: u64;
          sv = Option.bind (src_value bh) (\<lambda>s. eval_expr s env);
          dv = eval_expr (dst_value bh) env;
          only = map (\<lambda>t. (t, None));
          coupled = (\<lambda>f other. case sv of Some v \<Rightarrow> only (f v) | None \<Rightarrow> other);
          below = (if iv > 0 then only [0, iv - 1] else []);
          below_src = (case sv of Some v \<Rightarrow> if v > 0 then only [v - 1, 0] else [(0, Some 1)] | None \<Rightarrow> [(0, Some 1)]);
          ne_imm = only (filter (\<lambda>t. t \<noteq> iv) [iv + 1, iv - 1, 0, 1, 2, 3]);
          eq_reg = (case sv of Some v \<Rightarrow> [(v, None)]
                    | None \<Rightarrow> (case dv of Some v \<Rightarrow> [(v, Some v)] | None \<Rightarrow> [(0, Some 0)]));
          ne_reg = coupled (\<lambda>v. [v + 1, v - 1]) [(1, Some 0), (0, Some 1)];
          tk = taken bh
      in case bh_kind bh of
        JeqImm \<Rightarrow> if tk then only [iv] else ne_imm
      | JneImm \<Rightarrow> if tk then ne_imm else only [iv]
      | Jmp32_k _ \<Rightarrow>
          (let rhs = (case sv of Some v \<Rightarrow> v | None \<Rightarrow> iv);
               near = [rhs, rhs + 1, rhs - 1, 0, 1, 2, 0xFFFFFFFF] in
           if src_value bh \<noteq> None \<and> sv = None then concat (map (\<lambda>d. map (\<lambda>s. (d, Some s)) near) near)
           else only near)
      | JgtImm \<Rightarrow> if tk then only [iv + 1] else only [0, iv]
      | JltImm \<Rightarrow> if tk then below else only [iv, iv + 1]
      | JleImm \<Rightarrow> if tk then only [0, iv] else only [iv + 1]
      | JgeImm \<Rightarrow> if tk then only [iv, iv + 1] else below
      | JsetImm \<Rightarrow> if tk then (if iv \<noteq> 0 then only [iv] else []) else only [0]
      | JeqReg \<Rightarrow> if tk then eq_reg else ne_reg
      | JneReg \<Rightarrow> if tk then ne_reg else eq_reg
      | JltReg \<Rightarrow> if tk then below_src else coupled (\<lambda>v. [v, v + 1]) [(1, Some 0), (0, Some 0)]
      | JgtReg \<Rightarrow> if tk then coupled (\<lambda>v. [v + 1]) [(1, Some 0)] else coupled (\<lambda>v. [v, 0]) [(0, Some 1), (0, Some 0)]
      | JleReg \<Rightarrow> if tk then coupled (\<lambda>v. [v, 0]) [(0, Some 0), (0, Some 1)] else coupled (\<lambda>v. [v + 1]) [(1, Some 0)]
      | JgeReg \<Rightarrow> if tk then coupled (\<lambda>v. [v, v + 1]) [(0, Some 0), (1, Some 0)] else below_src
      | JsetReg \<Rightarrow> if tk then (case sv of Some v \<Rightarrow> if v \<noteq> 0 then only [v] else [(1, Some 1)] | None \<Rightarrow> [(1, Some 1)])
                   else only [0]
      | JsgtImm \<Rightarrow> if tk then only [iv + 1, 256, 65536] else only [0, iv]
      | JsleImm \<Rightarrow> if tk then only [0, iv] else only [iv + 1, 256, 65536]
      | JsltImm \<Rightarrow> if tk then below else only [iv, iv + 1]
      | JsgeImm \<Rightarrow> if tk then only [iv, iv + 1, 256] else below
      | JsgtReg \<Rightarrow> if tk then coupled (\<lambda>v. [v + 1]) [(1, Some 0)] else coupled (\<lambda>v. [v, 0]) [(0, Some 1), (0, Some 0)]
      | JsltReg \<Rightarrow> if tk then below_src else coupled (\<lambda>v. [v, v + 1]) [(1, Some 0), (0, Some 0)]
      | JsleReg \<Rightarrow> if tk then coupled (\<lambda>v. [v, 0]) [(0, Some 0), (0, Some 1)] else coupled (\<lambda>v. [v + 1]) [(1, Some 0)]
      | JsgeReg \<Rightarrow> if tk then coupled (\<lambda>v. [v, v + 1]) [(0, Some 0), (1, Some 0)] else below_src)"

fun expr_vars :: "expr \<Rightarrow> string list" where
  "expr_vars (InitReg n) = [n]"
| "expr_vars (InitMem n) = [n]"
| "expr_vars (ToU64 a) = expr_vars a"
| "expr_vars (Mod_u a _) = expr_vars a"
| "expr_vars (AndU64Imm a _) = expr_vars a"
| "expr_vars (LshU64Imm a _) = expr_vars a"
| "expr_vars (RshU64Imm a _) = expr_vars a"
| "expr_vars (WrapAdd a b) = expr_vars a @ expr_vars b"
| "expr_vars (WrapSub a b) = expr_vars a @ expr_vars b"
| "expr_vars (WrapMul a b) = expr_vars a @ expr_vars b"
| "expr_vars (NatAdd a b) = expr_vars a @ expr_vars b"
| "expr_vars (CleanSub a b) = expr_vars a @ expr_vars b"
| "expr_vars (ByteCombo bs) = concat (map expr_vars bs)"
| "expr_vars _ = []"

definition src_vars :: "branch_hyp \<Rightarrow> string list" where
  "src_vars bh = (case src_value bh of None \<Rightarrow> [] | Some s \<Rightarrow> expr_vars s)"

definition branch_vars :: "branch_hyp \<Rightarrow> string list" where
  "branch_vars bh = expr_vars (dst_value bh) @ src_vars bh"

definition is_combo :: "expr \<Rightarrow> bool" where
  "is_combo e = (case e of ByteCombo _ \<Rightarrow> True | _ \<Rightarrow> False)"

definition branch_priority :: "branch_hyp \<Rightarrow> nat" where
  "branch_priority bh =
     (let eq = (if is_combo (dst_value bh) then 0 else 1); tk = taken bh in
      case bh_kind bh of
        JeqImm \<Rightarrow> if tk then eq else 3
      | JneImm \<Rightarrow> if tk then 3 else eq
      | JeqReg \<Rightarrow> if tk then eq else 3
      | JneReg \<Rightarrow> if tk then 3 else eq
      | Jmp32_k c \<Rightarrow> if c = ''eq'' then (if tk then 1 else 3) else if c = ''ne'' then (if tk then 3 else 1) else 2
      | _ \<Rightarrow> 2)"

subsection \<open>The greedy pass\<close>

definition zero_fill :: "string list \<Rightarrow> env \<Rightarrow> env" where
  "zero_fill vs env = foldl (\<lambda>e v. or_insert v 0 e) env vs"

definition solve_src :: "branch_hyp \<Rightarrow> u64 option \<Rightarrow> env \<Rightarrow> bool \<times> env" where
  "solve_src bh st env = (case (src_value bh, st) of (Some s, Some t) \<Rightarrow> solve_expr s t env | _ \<Rightarrow> (True, env))"

definition try_candidate :: "branch_hyp \<Rightarrow> env \<Rightarrow> (u64 \<times> u64 option) \<times> bool \<Rightarrow> env option" where
  "try_candidate bh env c = (case c of ((dt, st), src_first) \<Rightarrow>
     (let (ok1, t1) = (if src_first then solve_src bh st env else solve_expr (dst_value bh) dt env);
          (ok, trial) = (if \<not> ok1 then (False, t1)
                         else if src_first then solve_expr (dst_value bh) dt t1 else solve_src bh st t1)
      in if ok \<and> eval_branch bh trial = Some True then Some trial else None))"

fun first_some :: "('a \<Rightarrow> 'b option) \<Rightarrow> 'a list \<Rightarrow> 'b option" where
  "first_some f [] = None"
| "first_some f (x # xs) = (case f x of Some y \<Rightarrow> Some y | None \<Rightarrow> first_some f xs)"

definition steer :: "env \<Rightarrow> branch_hyp \<Rightarrow> env" where
  "steer env bh =
     (if eval_branch bh env = Some True then env
      else if branch_priority bh = 3 \<and> eval_branch bh (zero_fill (branch_vars bh) env) = Some True then env
      else (case first_some (try_candidate bh env)
                   (concat (map (\<lambda>c. [(c, False), (c, True)]) (branch_candidates bh env))) of
              Some trial \<Rightarrow> trial | None \<Rightarrow> env))"

definition greedy :: "branch_hyp list \<Rightarrow> env" where
  "greedy bs = foldl steer [] (sort_key branch_priority bs)"

subsection \<open>Union-find\<close>

type_synonym parents = "(string \<times> string) list"

definition uf_root :: "parents \<Rightarrow> string \<Rightarrow> string option" where
  "uf_root parent x = while_option (\<lambda>r. case map_of parent r of Some p \<Rightarrow> p \<noteq> r | None \<Rightarrow> False)
     (\<lambda>r. case map_of parent r of Some p \<Rightarrow> p | None \<Rightarrow> r) x"

definition compress_step :: "string \<Rightarrow> string \<times> parents \<Rightarrow> string \<times> parents" where
  "compress_step root s = (case s of (cur, parent) \<Rightarrow>
     (case map_of parent cur of Some p \<Rightarrow> p | None \<Rightarrow> root, bt_insert cur root parent))"

definition uf_find :: "parents \<Rightarrow> string \<Rightarrow> (string \<times> parents) option" where
  "uf_find parent x = Option.bind (uf_root parent x) (\<lambda>root.
     map_option (\<lambda>s. (root, snd s)) (while_option (\<lambda>s. fst s \<noteq> root) (compress_step root) (x, parent)))"

definition uf_union :: "parents \<Rightarrow> string \<times> string \<Rightarrow> parents option" where
  "uf_union parent e = Option.bind (uf_find parent (fst e)) (\<lambda>(ra, p1).
     map_option (\<lambda>(rb, p2). if ra \<noteq> rb then bt_insert ra rb p2 else p2) (uf_find p1 (snd e)))"

fun uf_unions :: "parents \<Rightarrow> (string \<times> string) list \<Rightarrow> parents option" where
  "uf_unions parent [] = Some parent"
| "uf_unions parent (e # es) = Option.bind (uf_union parent e) (\<lambda>p. uf_unions p es)"

text \<open>\<open>classes.entry(r).or_default().push(v)\<close> over the variables in order.\<close>

fun uf_classes :: "parents \<Rightarrow> string list \<Rightarrow> (string \<times> string list) list \<Rightarrow> (string \<times> string list) list option" where
  "uf_classes parent [] cs = Some cs"
| "uf_classes parent (v # vs) cs = Option.bind (uf_find parent v) (\<lambda>(r, p).
     uf_classes p vs (bt_insert r ((case map_of cs r of Some ms \<Rightarrow> ms | None \<Rightarrow> []) @ [v]) cs))"

definition equalities :: "branch_hyp list \<Rightarrow> (string \<times> string) list" where
  "equalities bs = concat (map (\<lambda>bh.
     let is_eq = (bh_kind bh = JeqReg \<and> taken bh \<or> bh_kind bh = JneReg \<and> \<not> taken bh);
         dv = expr_vars (dst_value bh); sv = src_vars bh in
     if is_eq \<and> length dv = 1 \<and> length sv = 1 then [(hd dv, hd sv)] else []) bs)"

definition all_vars :: "branch_hyp list \<Rightarrow> string list" where
  "all_vars bs = remdups (sort (concat (map branch_vars bs)))"

definition var_classes :: "branch_hyp list \<Rightarrow> (string \<times> string list) list option" where
  "var_classes bs = Option.bind (uf_unions (foldl (\<lambda>m v. bt_insert v v m) [] (all_vars bs)) (equalities bs))
     (\<lambda>p. uf_classes p (all_vars bs) [])"

subsection \<open>The repair pass\<close>

definition repair_pool :: "branch_hyp list \<Rightarrow> u64 list" where
  "repair_pool bs = map word_of_nat [0..<257] @
     concat (map (\<lambda>bh. let im = word_of_int (bh_imm bh) in [im, im + 1, im - 1]) bs)"

definition assign_all :: "string list \<Rightarrow> u64 \<Rightarrow> env \<Rightarrow> env" where
  "assign_all ms v env = foldl (\<lambda>e m. bt_insert m v e) env ms"

definition all_hold :: "branch_hyp list \<Rightarrow> env \<Rightarrow> bool" where
  "all_hold bs env \<longleftrightarrow> list_all (\<lambda>bh. eval_branch bh env = Some True) bs"

definition repair_class :: "branch_hyp list \<Rightarrow> env \<Rightarrow> string list \<Rightarrow> env" where
  "repair_class bs env members =
     (let internal = filter (\<lambda>bh. branch_vars bh \<noteq> [] \<and> set (branch_vars bh) \<subseteq> set members) bs in
      if internal = [] \<or> all_hold internal env then env
      else (case find (\<lambda>c. all_hold internal (assign_all members c env)) (repair_pool bs) of
              Some c \<Rightarrow> assign_all members c env | None \<Rightarrow> env))"

definition repair :: "branch_hyp list \<Rightarrow> (string \<times> string list) list \<Rightarrow> env \<Rightarrow> env" where
  "repair bs classes env = foldl (repair_class bs) env (map snd classes)"

subsection \<open>Hill climbing\<close>

definition satisfied :: "branch_hyp list \<Rightarrow> env \<Rightarrow> nat" where
  "satisfied bs env = length (filter (\<lambda>bh. eval_branch bh env = Some True) bs)"

definition climb_pool :: "branch_hyp list \<Rightarrow> u64 list" where
  "climb_pool bs = remdups (sort (repair_pool bs))"

definition climb_var :: "branch_hyp list \<Rightarrow> env \<Rightarrow> string \<Rightarrow> env" where
  "climb_var bs env v =
     (let best = foldl (\<lambda>best c. let score = satisfied bs (bt_insert v c env) in
                          if score > fst best then (score, c) else best)
                   (satisfied bs env, case map_of env v of Some x \<Rightarrow> x | None \<Rightarrow> 0) (climb_pool bs)
      in bt_insert v (snd best) env)"

fun climb :: "nat \<Rightarrow> branch_hyp list \<Rightarrow> env \<Rightarrow> env" where
  "climb 0 bs env = env"
| "climb (Suc n) bs env = (if satisfied bs env = length bs then env
     else climb n bs (foldl (climb_var bs) env (all_vars bs)))"

subsection \<open>Emission\<close>

definition is_word :: "char \<Rightarrow> bool" where
  "is_word c = (let b = of_char c :: nat in (48 \<le> b \<and> b \<le> 57) \<or> (65 \<le> b \<and> b \<le> 90) \<or> (97 \<le> b \<and> b \<le> 122) \<or> b = 95)"

text \<open>The length of the UTF-8 character that a first byte opens.\<close>

definition utf8_len :: "char \<Rightarrow> nat" where
  "utf8_len c = (let b = of_char c :: nat in if b < 0x80 then 1 else if b < 0xE0 then 2 else if b < 0xF0 then 3 else 4)"

function replace_from :: "char option \<Rightarrow> string \<Rightarrow> string \<Rightarrow> string \<Rightarrow> string" where
  "replace_from prev nb repl hb =
     (if hb = [] \<or> nb = [] then hb
      else if take (length nb) hb = nb \<and> (case prev of None \<Rightarrow> True | Some c \<Rightarrow> \<not> is_word c) \<and>
           (length hb \<le> length nb \<or> \<not> is_word (hb ! length nb))
      then repl @ replace_from (Some (last nb)) nb repl (drop (length nb) hb)
      else let n = utf8_len (hd hb) in
           take n hb @ replace_from (Some (last (take n hb))) nb repl (drop n hb))"
  by pat_completeness auto
termination
  by (relation "measure (\<lambda>(prev, nb, repl, hb). length hb)") (auto simp: utf8_len_def Let_def)

definition replace_token :: "string \<Rightarrow> string \<Rightarrow> string \<Rightarrow> string" where
  "replace_token hb nb repl = replace_from None nb repl hb"

definition sub_env :: "env \<Rightarrow> string \<Rightarrow> string" where
  "sub_env env s = foldl (\<lambda>out (k, v). replace_token out k (digits (unat v))) s env"

definition conjuncts :: "branch_hyp list \<Rightarrow> (string \<times> nat) list \<Rightarrow> env \<Rightarrow> string list" where
  "conjuncts bs load_vars env =
     map (\<lambda>bh. paren (sub_env env (lean_hyp bh))) bs @
     map (\<lambda>(v, k). paren (digits (unat (case map_of env v of Some x \<Rightarrow> x | None \<Rightarrow> 0)) @ '' < 2 ^ '' @ digits k)) load_vars"

definition witness_header :: string where
  "witness_header = ''/-! ## Branch-satisfiability witness (Phase 7 sub-item 1)'' @ [CHR 0x0A] @ [CHR 0x0A]
      @ ''The triple'' @ [CHR 0x27] @ ''s value-level path hypotheses ('' @ [CHR 0x60] @ ''h_branch*''
      @ [CHR 0x60] @ '') and load'' @ [CHR 0x0A] @ ''bounds ('' @ [CHR 0x60] @ ''h*_lt'' @ [CHR 0x60]
      @ '') are uncertified parameters '' @ [CHR 0xE2, CHR 0x80, CHR 0x94] @ '' an UNSATISFIABLE''
      @ [CHR 0x0A] @ ''conjunction of them would make the triple vacuously true. The'' @ [CHR 0x0A]
      @ ''assignment below satisfies every (modeled) path hypothesis'' @ [CHR 0x0A] @ ''SIMULTANEOUSLY; ''
      @ [CHR 0x60] @ ''native_decide'' @ [CHR 0x60] @ '' machine-checks it, so a'' @ [CHR 0x0A]
      @ ''contradictory path-constraint set cannot ship silently. This'' @ [CHR 0x0A]
      @ ''complements the H8 footprint witness above (disjoint variable'' @ [CHR 0x0A]
      @ ''sets: address roots vs. discriminant/flag cells). -/'' @ [CHR 0x0A] @ [CHR 0x0A]"

definition witness_text :: "string list \<Rightarrow> string" where
  "witness_text cs = witness_header @
     (let body = join ('' '' @ [CHR 0xE2, CHR 0x88, CHR 0xA7, CHR 0x0A] @ ''      '') cs in
      if length cs = 1 then ''example :'' @ [CHR 0x0A] @ ''      '' @ body @ '' := by native_decide'' @ [CHR 0x0A, CHR 0x0A]
      else ''example :'' @ [CHR 0x0A] @ ''      '' @ body @ '' := by'' @ [CHR 0x0A] @ ''  refine '' @ [CHR 0xE2, CHR 0x9F, CHR 0xA8]
        @ join '', '' (map (\<lambda>_. ''?_'') cs) @ [CHR 0xE2, CHR 0x9F, CHR 0xA9] @ '' <;> native_decide'' @ [CHR 0x0A, CHR 0x0A])"

text \<open>The assignment the passes arrive at; the outer option is the union-find loops'.\<close>

definition search_env :: "branch_hyp list \<Rightarrow> string list \<Rightarrow> env option" where
  "search_env bs vars = map_option (\<lambda>classes.
     let env = repair bs classes (zero_fill vars (greedy bs)) in
     if satisfied bs env < length bs then climb 8 bs env else env) (var_classes bs)"

definition build_branch_witness :: "branch_hyp list \<Rightarrow> (string \<times> nat) list \<Rightarrow> string list \<Rightarrow> string option option" where
  "build_branch_witness bs load_vars vars =
     (if bs = [] then Some None
      else map_option (\<lambda>env. if all_hold bs env then Some (witness_text (conjuncts bs load_vars env)) else None)
             (search_env bs vars))"

subsection \<open>Union-find: the loops end and compute the partition\<close>

definition uf_edges :: "parents \<Rightarrow> (string \<times> string) set" where
  "uf_edges parent = {(x, p). map_of parent x = Some p \<and> p \<noteq> x}"

definition uf_ok :: "parents \<Rightarrow> bool" where
  "uf_ok parent \<longleftrightarrow> acyclic (uf_edges parent)"

text \<open>The representative: the end of the parent chain.\<close>

definition rep :: "parents \<Rightarrow> string \<Rightarrow> string \<Rightarrow> bool" where
  "rep parent x r \<longleftrightarrow> (x, r) \<in> (uf_edges parent)\<^sup>* \<and> r \<notin> Domain (uf_edges parent)"

lemma finite_uf_edges: "finite (uf_edges parent)"
proof -
  have "uf_edges parent \<subseteq> set parent" by (auto simp: uf_edges_def dest: map_of_SomeD)
  then show ?thesis by (rule finite_subset) simp
qed

lemma uf_wf: "uf_ok parent \<Longrightarrow> wf ((uf_edges parent)\<inverse>)"
  by (simp add: uf_ok_def finite_acyclic_wf_converse finite_uf_edges)

lemma single_valued_uf: "single_valued (uf_edges parent)"
  by (auto simp: single_valued_def uf_edges_def)

lemma rep_unique: "rep parent x r \<Longrightarrow> rep parent x s \<Longrightarrow> r = s"
proof -
  assume rs: "rep parent x r" "rep parent x s"
  then have "(r, s) \<in> (uf_edges parent)\<^sup>* \<or> (s, r) \<in> (uf_edges parent)\<^sup>*"
    using single_valued_confluent [OF single_valued_uf] by (auto simp: rep_def)
  then show ?thesis using rs by (auto simp: rep_def elim: converse_rtranclE)
qed

lemma rep_step: "(x, p) \<in> uf_edges parent \<Longrightarrow> rep parent x r \<longleftrightarrow> rep parent p r"
proof
  assume e: "(x, p) \<in> uf_edges parent" and r: "rep parent x r"
  then have "x \<noteq> r" by (auto simp: rep_def)
  then obtain q where "(x, q) \<in> uf_edges parent" "(q, r) \<in> (uf_edges parent)\<^sup>*"
    using r by (auto simp: rep_def elim: converse_rtranclE)
  then show "rep parent p r" using single_valuedD [OF single_valued_uf e] r by (simp add: rep_def)
qed (auto simp: rep_def intro: converse_rtrancl_into_rtrancl)

lemma uf_root_rep:
  assumes "uf_ok parent"
  shows "\<exists>r. uf_root parent x = Some r \<and> rep parent x r"
proof -
  let ?b = "\<lambda>r. case map_of parent r of Some p \<Rightarrow> p \<noteq> r | None \<Rightarrow> False"
    and ?c = "\<lambda>r. case map_of parent r of Some p \<Rightarrow> p | None \<Rightarrow> r"
  have edge: "?b r \<longleftrightarrow> (r, ?c r) \<in> uf_edges parent" "?b r \<longleftrightarrow> r \<in> Domain (uf_edges parent)" for r
    by (auto simp: uf_edges_def split: option.splits)
  have "\<exists>r. while_option ?b ?c x = Some r"
  proof (rule wf_while_option_Some [where P = "\<lambda>_. True"])
    show "wf {(t, s). (True \<and> ?b s) \<and> t = ?c s}" by (rule wf_subset [OF uf_wf [OF assms]]) (use edge(1) in auto)
  qed auto
  then obtain r where r: "while_option ?b ?c x = Some r" by blast
  have "(x, r) \<in> (uf_edges parent)\<^sup>*"
    by (rule while_option_rule [OF _ r, where P = "\<lambda>r. (x, r) \<in> (uf_edges parent)\<^sup>*"])
       (use edge(1) in \<open>auto intro: rtrancl_into_rtrancl\<close>)
  moreover have "r \<notin> Domain (uf_edges parent)" using while_option_stop [OF r] edge(2) by blast
  ultimately show ?thesis using r by (auto simp: uf_root_def rep_def)
qed

text \<open>Redirecting a node to its representative keeps every representative.\<close>

lemma compress_edges:
  assumes "cur \<noteq> root"
  shows "uf_edges (bt_insert cur root parent) = {(x, p) \<in> uf_edges parent. x \<noteq> cur} \<union> {(cur, root)}"
  using assms by (auto simp: uf_edges_def split: if_splits)

lemma compress_rep:
  assumes ok: "uf_ok parent" and r: "rep parent cur root" and ne: "cur \<noteq> root"
  shows "uf_ok (bt_insert cur root parent)" "rep (bt_insert cur root parent) x s \<longleftrightarrow> rep parent x s"
proof -
  let ?E = "uf_edges parent" and ?E' = "uf_edges (bt_insert cur root parent)"
  have plus: "(cur, root) \<in> ?E\<^sup>+" using r ne by (auto simp: rep_def rtrancl_eq_or_trancl)
  then have sub: "?E' \<subseteq> ?E\<^sup>+" unfolding compress_edges [OF ne] by auto
  have "acyclic (?E\<^sup>+)" using ok by (simp add: uf_ok_def acyclic_def)
  then show ok': "uf_ok (bt_insert cur root parent)" unfolding uf_ok_def by (rule acyclic_subset [OF _ sub])
  have dom: "Domain ?E' = Domain ?E" unfolding compress_edges [OF ne] using tranclD [OF plus] by auto
  have *: "rep parent x s" if "rep (bt_insert cur root parent) x s" for x s
  proof -
    have "?E'\<^sup>* \<subseteq> ?E\<^sup>*" using rtrancl_mono [OF sub] by simp
    then show ?thesis using that dom by (auto simp: rep_def)
  qed
  obtain s' where "rep (bt_insert cur root parent) x s'" using uf_root_rep [OF ok'] by blast
  then show "rep (bt_insert cur root parent) x s \<longleftrightarrow> rep parent x s" using * rep_unique by blast
qed

lemma uf_find_rep:
  assumes ok: "uf_ok parent"
  shows "\<exists>r p. uf_find parent x = Some (r, p) \<and> rep parent x r \<and> uf_ok p \<and> rep p = rep parent"
proof -
  obtain root where root: "uf_root parent x = Some root" "rep parent x root" using uf_root_rep [OF ok] by blast
  let ?E = "uf_edges parent"
  let ?I = "\<lambda>s. uf_ok (snd s) \<and> rep (snd s) = rep parent \<and> rep parent (fst s) root \<and>
    (\<forall>y. (fst s, y) \<in> ?E\<^sup>* \<longrightarrow> map_of (snd s) y = map_of parent y)"
  have step: "?I (compress_step root s)" "(fst s, fst (compress_step root s)) \<in> ?E" if I: "?I s" and ne: "fst s \<noteq> root" for s
  proof -
    obtain cur q where s: "s = (cur, q)" by fastforce
    obtain n where n: "(cur, n) \<in> ?E" using I ne by (auto simp: s rep_def elim: converse_rtranclE)
    then have c: "compress_step root s = (n, bt_insert cur root q)" "map_of q cur = Some n"
      using I by (auto simp: s compress_step_def uf_edges_def)
    show "(fst s, fst (compress_step root s)) \<in> ?E" using n c by (simp add: s)
    have q: "uf_ok q" "rep q cur root" "cur \<noteq> root" using I ne by (simp_all add: s)
    have "cur \<noteq> y" if "(n, y) \<in> ?E\<^sup>*" for y
      using that n ok by (auto simp: uf_ok_def acyclic_def dest: rtrancl_into_trancl2)
    moreover have "rep parent n root" using rep_step [OF n] I by (simp add: s)
    moreover have "rep (bt_insert cur root q) = rep parent"
      using compress_rep(2) [OF q] I by (intro ext) (simp add: s)
    ultimately show "?I (compress_step root s)"
      using I n compress_rep(1) [OF q] by (auto simp: s c(1) [unfolded s] intro: converse_rtrancl_into_rtrancl)
  qed
  have "\<exists>s. while_option (\<lambda>s. fst s \<noteq> root) (compress_step root) (x, parent) = Some s"
  proof (rule wf_while_option_Some [where P = ?I])
    show "wf {(t, s). (?I s \<and> fst s \<noteq> root) \<and> t = compress_step root s}"
      by (rule wf_subset [OF wf_inv_image [OF uf_wf [OF ok], of fst]]) (use step(2) in \<open>auto simp: inv_image_def\<close>)
    show "?I (compress_step root s)" if "?I s" "fst s \<noteq> root" for s using step(1) that by blast
  qed (use ok root in simp)
  then obtain s where s: "while_option (\<lambda>s. fst s \<noteq> root) (compress_step root) (x, parent) = Some s" by blast
  have "?I s" by (rule while_option_rule [OF _ s, where P = ?I]) (use step(1) ok root in auto)
  then show ?thesis using s root by (simp add: uf_find_def)
qed

text \<open>Linking two different representatives merges their classes.\<close>

lemma link_rep:
  assumes ok: "uf_ok parent" and roots: "ra \<notin> Domain (uf_edges parent)" "rb \<notin> Domain (uf_edges parent)" "ra \<noteq> rb"
  shows "uf_ok (bt_insert ra rb parent)"
    "rep parent x r \<Longrightarrow> rep (bt_insert ra rb parent) x (if r = ra then rb else r)"
proof -
  let ?E = "uf_edges parent"
  have "{(x, p) \<in> ?E. x \<noteq> ra} = ?E" using roots(1) by auto
  then have E': "uf_edges (bt_insert ra rb parent) = insert (ra, rb) ?E" using compress_edges [OF roots(3)] by simp
  have "(rb, ra) \<notin> ?E\<^sup>*" using roots by (auto elim: converse_rtranclE)
  then show "uf_ok (bt_insert ra rb parent)" using ok by (simp add: uf_ok_def E' acyclic_insert)
  assume r: "rep parent x r"
  then have "(x, r) \<in> (insert (ra, rb) ?E)\<^sup>*" using rtrancl_mono [of ?E "insert (ra, rb) ?E"] by (auto simp: rep_def)
  then show "rep (bt_insert ra rb parent) x (if r = ra then rb else r)"
    using r roots by (auto simp: rep_def E' intro: rtrancl_into_rtrancl)
qed

definition same_rep :: "parents \<Rightarrow> (string \<times> string) set" where
  "same_rep parent = {(x, y). \<exists>r. rep parent x r \<and> rep parent y r}"

definition eqv :: "(string \<times> string) list \<Rightarrow> (string \<times> string) set" where
  "eqv es = (set es \<union> (set es)\<inverse>)\<^sup>*"

lemma eqv_sym: "(x, y) \<in> eqv es \<Longrightarrow> (y, x) \<in> eqv es"
proof -
  have "sym (set es \<union> (set es)\<inverse>)" by (auto simp: sym_def)
  then show "(x, y) \<in> eqv es \<Longrightarrow> (y, x) \<in> eqv es" unfolding eqv_def by (rule symD [OF sym_rtrancl])
qed

lemma eqv_snoc_mono: "eqv es \<subseteq> eqv (es @ [e])"
  unfolding eqv_def by (rule rtrancl_mono) auto

lemma eqv_least:
  assumes ok: "uf_ok p" and es: "set es \<subseteq> same_rep p"
  shows "eqv es \<subseteq> same_rep p"
proof (rule subrelI, unfold eqv_def)
  fix x y assume "(x, y) \<in> (set es \<union> (set es)\<inverse>)\<^sup>*"
  then show "(x, y) \<in> same_rep p"
  proof (induction rule: rtrancl_induct)
    case base
    then show ?case using uf_root_rep [OF ok, of x] by (auto simp: same_rep_def)
  next
    case (step y z)
    then have "(y, z) \<in> same_rep p" using es by (auto simp: same_rep_def)
    then obtain r s where "rep p y r" "rep p z r" "rep p x s" "rep p y s" using step.IH by (auto simp: same_rep_def)
    then show ?case using rep_unique [of p y r s] by (auto simp: same_rep_def)
  qed
qed

lemma uf_union_eqv:
  assumes ok: "uf_ok parent" and inv: "same_rep parent = eqv es"
  shows "\<exists>p. uf_union parent (a, b) = Some p \<and> uf_ok p \<and> same_rep p = eqv (es @ [(a, b)])"
proof -
  obtain ra p1 where f1: "uf_find parent a = Some (ra, p1)" "rep parent a ra" "uf_ok p1" "rep p1 = rep parent"
    using uf_find_rep [OF ok] by blast
  obtain rb p2 where f2: "uf_find p1 b = Some (rb, p2)" "rep parent b rb" "uf_ok p2" "rep p2 = rep parent"
    using uf_find_rep [OF f1(3)] f1(4) by metis
  define p where "p = (if ra \<noteq> rb then bt_insert ra rb p2 else p2)"
  have roots: "ra \<notin> Domain (uf_edges p2)" "rb \<notin> Domain (uf_edges p2)"
    using f1(2) f2(2) unfolding f2(4) [symmetric] by (simp_all add: rep_def)
  have ok': "uf_ok p" using f2(3) link_rep(1) [OF f2(3) roots] by (simp add: p_def)
  have map: "rep p x (if r = ra then rb else r)" if "rep parent x r" for x r
    using link_rep(2) [OF f2(3) roots, of x r] that f2(4) by (auto simp: p_def split: if_splits)
  have "same_rep p \<subseteq> eqv (es @ [(a, b)])"
  proof (clarsimp simp: same_rep_def)
    fix x y s assume s: "rep p x s" "rep p y s"
    obtain rx ry where r: "rep parent x rx" "rep parent y ry" using uf_root_rep [OF ok] by blast
    then have eq: "(if rx = ra then rb else rx) = (if ry = ra then rb else ry)"
      using rep_unique [OF map s(1)] rep_unique [OF map s(2)] by simp
    have near: "(x, y) \<in> eqv (es @ [(a, b)])" if "rep parent x r" "rep parent y r" for x y r
    proof -
      have "(x, y) \<in> eqv es" unfolding inv [symmetric] same_rep_def using that by blast
      then show ?thesis using eqv_snoc_mono by blast
    qed
    have ab: "(a, b) \<in> eqv (es @ [(a, b)])" "(b, a) \<in> eqv (es @ [(a, b)])" by (auto simp: eqv_def)
    have tr: "(x, z) \<in> eqv es'" if "(x, y) \<in> eqv es'" "(y, z) \<in> eqv es'" for x y z es'
      using that unfolding eqv_def by (rule rtrancl_trans)
    show "(x, y) \<in> eqv (es @ [(a, b)])"
    proof (cases "rx = ra")
      case True
      note xa = near [OF r(1) [unfolded True] f1(2)]
      show ?thesis
      proof (cases "ry = ra")
        case False
        then have "ry = rb" using eq True by simp
        then show ?thesis using tr [OF tr [OF xa ab(1)] near [OF f2(2)]] r(2) by simp
      qed (use near r True in blast)
    next
      case False
      show ?thesis
      proof (cases "ry = ra")
        case True
        then have "rx = rb" using eq False by simp
        then show ?thesis using tr [OF tr [OF near [OF _ f2(2)] ab(2)] near [OF f1(2)]] r True by simp
      qed (use near r eq False in metis)
    qed
  qed
  moreover have "eqv (es @ [(a, b)]) \<subseteq> same_rep p"
  proof (rule eqv_least [OF ok'])
    have "rep p a rb" "rep p b rb" using map [OF f1(2)] map [OF f2(2)] by (simp_all split: if_splits)
    moreover have "set es \<subseteq> same_rep parent" unfolding inv eqv_def by auto
    ultimately show "set (es @ [(a, b)]) \<subseteq> same_rep p" using map by (fastforce simp: same_rep_def)
  qed
  ultimately show ?thesis using ok' f1(1) f2(1) by (auto simp: uf_union_def p_def)
qed

lemma uf_unions_eqv:
  "uf_ok parent \<Longrightarrow> same_rep parent = eqv ds \<Longrightarrow>
   \<exists>p. uf_unions parent es = Some p \<and> uf_ok p \<and> same_rep p = eqv (ds @ es)"
proof (induction es arbitrary: parent ds)
  case (Cons e es)
  obtain a b where e: "e = (a, b)" by fastforce
  obtain p where p: "uf_union parent (a, b) = Some p" "uf_ok p" "same_rep p = eqv (ds @ [(a, b)])"
    using uf_union_eqv [OF Cons.prems] by blast
  then show ?case using Cons.IH [OF p(2,3)] by (simp add: e)
qed simp

text \<open>Grouping the variables by representative.\<close>

definition class_of :: "(string \<times> string list) list \<Rightarrow> string \<Rightarrow> string list" where
  "class_of cs r = (case map_of cs r of Some ms \<Rightarrow> ms | None \<Rightarrow> [])"

lemma uf_classes_rep:
  "uf_ok p \<Longrightarrow> bt_map cs \<Longrightarrow> (\<And>r. set (class_of cs r) = {v \<in> D. rep p v r}) \<Longrightarrow>
   \<exists>cs'. uf_classes p vs cs = Some cs' \<and> bt_map cs' \<and> (\<forall>r. set (class_of cs' r) = {v \<in> D \<union> set vs. rep p v r})"
proof (induction vs arbitrary: p cs D)
  case (Cons v vs)
  obtain r q where q: "uf_find p v = Some (r, q)" "rep p v r" "uf_ok q" "rep q = rep p"
    using uf_find_rep [OF Cons.prems(1)] by blast
  define cs1 where "cs1 = bt_insert r (class_of cs r @ [v]) cs"
  have "set (class_of cs1 r') = {u \<in> insert v D. rep q u r'}" for r'
  proof (cases "r' = r")
    case True
    have "set (class_of cs1 r) = insert v {u \<in> D. rep p u r}"
      unfolding Cons.prems(3) [symmetric] by (simp add: cs1_def class_of_def)
    also have "\<dots> = {u \<in> insert v D. rep q u r}" using q(2) by (auto simp: q(4))
    finally show ?thesis by (simp only: True)
  next
    case False
    have "\<not> rep p v r'" using False rep_unique [OF q(2)] by blast
    moreover have "class_of cs1 r' = class_of cs r'" using False by (simp add: cs1_def class_of_def)
    ultimately show ?thesis using Cons.prems(3) [of r'] by (auto simp: q(4))
  qed
  moreover have "bt_map cs1" unfolding cs1_def by (rule bt_map_insert [OF Cons.prems(2)])
  ultimately obtain cs' where "uf_classes q vs cs1 = Some cs'" "bt_map cs'"
    "\<forall>r. set (class_of cs' r) = {u \<in> insert v D \<union> set vs. rep q u r}"
    using Cons.IH [OF q(3)] by blast
  then show ?case using q(1,4) by (simp add: cs1_def class_of_def)
qed auto

lemma init_parents: "map_of (foldl (\<lambda>m v. bt_insert v v m) m vs) x = (if x \<in> set vs then Some x else map_of m x)"
  by (induction vs arbitrary: m) auto

lemma var_classes_partition:
  "\<exists>cs. var_classes bs = Some cs \<and> bt_map cs \<and> (\<Union>ms \<in> snd ` set cs. set ms) = set (all_vars bs) \<and>
     (\<forall>x \<in> set (all_vars bs). \<forall>y. (\<exists>ms \<in> snd ` set cs. x \<in> set ms \<and> y \<in> set ms) \<longleftrightarrow>
        y \<in> set (all_vars bs) \<and> (x, y) \<in> eqv (equalities bs))"
proof -
  let ?V = "set (all_vars bs)"
  define p0 where "p0 = foldl (\<lambda>m v. bt_insert v v m) [] (all_vars bs)"
  have "uf_edges p0 = {}" by (auto simp: uf_edges_def p0_def init_parents split: if_splits)
  then have "uf_ok p0" "same_rep p0 = eqv []" by (auto simp: uf_ok_def same_rep_def rep_def eqv_def acyclic_def)
  then obtain p where p: "uf_unions p0 (equalities bs) = Some p" "uf_ok p" "same_rep p = eqv (equalities bs)"
    using uf_unions_eqv [of p0 "[]" "equalities bs"] by auto
  have "bt_map ([] :: (string \<times> string list) list)" by (simp add: bt_map_def)
  then obtain cs where cs: "uf_classes p (all_vars bs) [] = Some cs" "bt_map cs"
    "\<And>r. set (class_of cs r) = {v \<in> ?V. rep p v r}"
    using uf_classes_rep [OF p(2), of "[]" "{}" "all_vars bs"] by (auto simp: class_of_def)
  have entry: "ms = class_of cs r" if "(r, ms) \<in> set cs" for r ms
    using bt.entries_get [OF cs(2)] that by (simp add: class_of_def)
  have at_rep: "\<exists>r. (r, class_of cs r) \<in> set cs \<and> x \<in> set (class_of cs r) \<and> rep p x r" if "x \<in> ?V" for x
  proof -
    obtain r where r: "rep p x r" using uf_root_rep [OF p(2)] by blast
    then have x: "x \<in> set (class_of cs r)" using cs(3) that by simp
    then have "map_of cs r = Some (class_of cs r)" by (cases "map_of cs r") (simp_all add: class_of_def)
    then show ?thesis using r x bt.entries_get [OF cs(2)] by blast
  qed
  have "(\<exists>ms \<in> snd ` set cs. x \<in> set ms \<and> y \<in> set ms) \<longleftrightarrow> y \<in> ?V \<and> (x, y) \<in> same_rep p" if x: "x \<in> ?V" for x y
  proof
    assume "\<exists>ms \<in> snd ` set cs. x \<in> set ms \<and> y \<in> set ms"
    then obtain r where "x \<in> set (class_of cs r)" "y \<in> set (class_of cs r)" using entry by fastforce
    then show "y \<in> ?V \<and> (x, y) \<in> same_rep p" unfolding cs(3) by (auto simp: same_rep_def)
  next
    assume y: "y \<in> ?V \<and> (x, y) \<in> same_rep p"
    obtain r where r: "(r, class_of cs r) \<in> set cs" "x \<in> set (class_of cs r)" "rep p x r" using at_rep [OF x] by blast
    obtain s where s: "rep p x s" "rep p y s" using y by (auto simp: same_rep_def)
    then have "y \<in> set (class_of cs r)" using y rep_unique [OF r(3) s(1)] unfolding cs(3) by simp
    then show "\<exists>ms \<in> snd ` set cs. x \<in> set ms \<and> y \<in> set ms" using r(1,2) by (intro bexI [of _ "class_of cs r"]) force+
  qed
  moreover have "(\<Union>ms \<in> snd ` set cs. set ms) = ?V"
  proof
    show "(\<Union>ms \<in> snd ` set cs. set ms) \<subseteq> ?V"
    proof clarsimp
      fix r ms v assume "(r, ms) \<in> set cs" "v \<in> set ms"
      then show "v \<in> ?V" using entry cs(3) by blast
    qed
    show "?V \<subseteq> (\<Union>ms \<in> snd ` set cs. set ms)" using at_rep by force
  qed
  moreover have "var_classes bs = Some cs" using p(1) cs(1) by (simp add: var_classes_def p0_def)
  ultimately show ?thesis using cs(2) p(3) by auto
qed

subsection \<open>The passes\<close>

lemma solve_src_le: "solve_src bh st env = (ok, env') \<Longrightarrow> map_of env \<subseteq>\<^sub>m map_of env'"
  using solve_steered(1) by (auto simp: solve_src_def steered_def split: option.splits)

lemma solve_expr_le: "solve_expr e t env = (ok, env') \<Longrightarrow> map_of env \<subseteq>\<^sub>m map_of env'"
  using solve_steered(1) by (auto simp: steered_def)

lemma first_some_SomeD: "first_some f xs = Some y \<Longrightarrow> \<exists>x \<in> set xs. f x = Some y"
  by (induction xs) (auto split: option.splits)

lemma try_candidate_le:
  assumes "try_candidate bh env c = Some trial"
  shows "map_of env \<subseteq>\<^sub>m map_of trial \<and> eval_branch bh trial = Some True"
proof -
  obtain dt st sf where c: "c = ((dt, st), sf)" by (metis prod.exhaust)
  obtain ok1 t1 where s1: "(if sf then solve_src bh st env else solve_expr (dst_value bh) dt env) = (ok1, t1)" by fastforce
  obtain ok t2 where s2: "(if \<not> ok1 then (False, t1) else if sf then solve_expr (dst_value bh) dt t1 else solve_src bh st t1) = (ok, t2)"
    by fastforce
  have "map_of env \<subseteq>\<^sub>m map_of t1" using s1 solve_src_le solve_expr_le by (cases sf) auto
  moreover have "map_of t1 \<subseteq>\<^sub>m map_of t2" using s2 solve_src_le solve_expr_le by (cases ok1; cases sf) auto
  moreover have "t2 = trial \<and> eval_branch bh trial = Some True"
    using assms unfolding try_candidate_def c by (simp add: s1 s2 split: if_splits)
  ultimately show ?thesis using map_le_trans by blast
qed

lemma steer_le: "map_of env \<subseteq>\<^sub>m map_of (steer env bh)"
proof (cases "first_some (try_candidate bh env) (concat (map (\<lambda>c. [(c, False), (c, True)]) (branch_candidates bh env)))")
  case (Some trial)
  then show ?thesis using first_some_SomeD [OF Some] try_candidate_le by (auto simp: steer_def)
qed (simp add: steer_def)

lemma steers_le: "map_of env \<subseteq>\<^sub>m map_of (foldl steer env bs)"
proof (induction bs arbitrary: env)
  case (Cons b bs)
  show ?case using map_le_trans [OF steer_le Cons.IH] by simp
qed simp

lemma length_filter_mono: "(\<And>x. P x \<Longrightarrow> Q x) \<Longrightarrow> length (filter P xs) \<le> length (filter Q xs)"
  by (induction xs) (auto intro: le_SucI)

lemma satisfied_mono: "map_of env \<subseteq>\<^sub>m map_of env' \<Longrightarrow> satisfied bs env \<le> satisfied bs env'"
  unfolding satisfied_def by (rule length_filter_mono) (rule eval_branch_mono)

lemma climb_best:
  fixes bs env v
  defines "score \<equiv> \<lambda>c. satisfied bs (bt_insert v c env)"
  shows "fst b \<le> score (snd b) \<Longrightarrow>
    (let r = foldl (\<lambda>best c. if score c > fst best then (score c, c) else best) b cs in fst b \<le> fst r \<and> fst r \<le> score (snd r))"
proof (induction cs arbitrary: b)
  case (Cons c cs)
  let ?b = "if score c > fst b then (score c, c) else b"
  have "fst b \<le> fst ?b" "fst ?b \<le> score (snd ?b)" using Cons.prems by auto
  then show ?case using Cons.IH [of ?b] by (simp add: Let_def split del: if_split)
qed simp

lemma climb_var_mono: "satisfied bs env \<le> satisfied bs (climb_var bs env v)"
proof -
  let ?x = "case map_of env v of Some x \<Rightarrow> x | None \<Rightarrow> 0"
  have "map_of env \<subseteq>\<^sub>m map_of (bt_insert v ?x env)" by (auto simp: map_le_def split: option.splits)
  then have "satisfied bs env \<le> satisfied bs (bt_insert v ?x env)" by (rule satisfied_mono)
  then show ?thesis using climb_best [of "(satisfied bs env, ?x)" bs v env "climb_pool bs"]
    by (simp add: climb_var_def Let_def)
qed

lemma climb_mono: "satisfied bs env \<le> satisfied bs (climb n bs env)"
proof (induction n bs env rule: climb.induct)
  case (2 n bs env)
  have "satisfied bs e \<le> satisfied bs (foldl (climb_var bs) e vs)" for e vs
    by (induction vs arbitrary: e) (auto intro: order_trans [OF climb_var_mono])
  then show ?case using 2 by (auto intro: order_trans)
qed simp

lemma search_env_total: "\<exists>env. search_env bs vars = Some env"
  using var_classes_partition [of bs] by (auto simp: search_env_def)

subsection \<open>Properties\<close>

text \<open>The witness builder always ends: the union-find loops of the repair pass terminate on every set of
  path conditions.\<close>

theorem build_branch_witness_ends: "\<exists>w. build_branch_witness bs load_vars vars = Some w"
  using search_env_total [of bs vars] by (auto simp: build_branch_witness_def)


definition demo_branches :: "branch_hyp list" where
  "demo_branches = [\<lparr>bh_kind = JneImm, dst_value = InitMem ''b'', src_value = None, bh_imm = 0, taken = True\<rparr>,
     \<lparr>bh_kind = JeqReg, dst_value = InitMem ''a'', src_value = Some (InitMem ''b''), bh_imm = 0, taken = True\<rparr>,
     \<lparr>bh_kind = JgtImm, dst_value = WrapAdd (InitMem ''c'') (Const 1), src_value = None, bh_imm = 6, taken = True\<rparr>]"


text \<open>The search never loses ground: greedy steering keeps every condition that already holds, and hill
  climbing never lowers the number of conditions that hold.\<close>

lemma search_keeps_ground:
  "(eval_branch bh env = Some True \<longrightarrow> eval_branch bh (foldl steer env bs) = Some True) \<and>
   satisfied bs env \<le> satisfied bs (climb n bs env)"
  by (intro conjI impI eval_branch_mono [OF _ steers_le] climb_mono)

text \<open>C39: The classes of the repair pass are the equivalence classes of the variables under the register
  equalities of the path: each variable is in a class, and two share one exactly when a chain of
  equalities links them.\<close>

theorem repair_classes_exact:
  "\<exists>cs. var_classes bs = Some cs \<and> bt_map cs \<and> (\<Union>ms \<in> snd ` set cs. set ms) = set (all_vars bs) \<and>
     (\<forall>x \<in> set (all_vars bs). \<forall>y. (\<exists>ms \<in> snd ` set cs. x \<in> set ms \<and> y \<in> set ms) \<longleftrightarrow>
        y \<in> set (all_vars bs) \<and> (x, y) \<in> eqv (equalities bs))"
  by (rule var_classes_partition)

theorem repair_classes_exact_witness:
  "\<exists>cs. var_classes demo_branches = Some cs \<and> (\<exists>ms \<in> snd ` set cs. ''a'' \<in> set ms \<and> ''b'' \<in> set ms)"
proof (rule exE [OF repair_classes_exact [of demo_branches]], elim conjE)
  fix cs assume cs: "var_classes demo_branches = Some cs" and eq:
    "\<forall>x \<in> set (all_vars demo_branches). \<forall>y. (\<exists>ms \<in> snd ` set cs. x \<in> set ms \<and> y \<in> set ms) \<longleftrightarrow>
        y \<in> set (all_vars demo_branches) \<and> (x, y) \<in> eqv (equalities demo_branches)"
  have e: "equalities demo_branches = [(''a'', ''b'')]" "all_vars demo_branches = [''a'', ''b'', ''c'']" by code_simp+
  have "(''a'', ''b'') \<in> eqv [(''a'', ''b'')]" by (auto simp: eqv_def)
  moreover have "''a'' \<in> set (all_vars demo_branches)" "''b'' \<in> set (all_vars demo_branches)" by (simp_all add: e)
  ultimately have "\<exists>ms \<in> snd ` set cs. ''a'' \<in> set ms \<and> ''b'' \<in> set ms" using eq e(1) by simp
  then show ?thesis using cs by (intro exI conjI)
qed

text \<open>Load bounds are not verified: for a cell loaded as one byte and a path condition that pins it to
  300, the builder emits a witness whose conjunct \<open>300 < 2 ^ 8\<close> is false.\<close>

theorem load_bound_not_verified:
  "\<exists>w. build_branch_witness [\<lparr>bh_kind = JeqImm, dst_value = InitMem ''m'', src_value = None, bh_imm = 300, taken = True\<rparr>]
         [(''m'', 8)] [''m''] = Some (Some (witness_text [w, ''(300 < 2 ^ 8)'']))"
proof -
  let ?b = "\<lparr>bh_kind = JeqImm, dst_value = InitMem ''m'', src_value = None, bh_imm = 300, taken = True\<rparr>"
  have "search_env [?b] [''m''] = Some [(''m'', 300)]" by code_simp
  moreover have "all_hold [?b] [(''m'', 300)]" by code_simp
  moreover have "conjuncts [?b] [(''m'', 8)] [(''m'', 300)] = [''(300 = toU64 300)'', ''(300 < 2 ^ 8)'']" by code_simp
  ultimately show ?thesis by (auto simp: build_branch_witness_def)
qed

end
