(* ===== verification/Decimal.thy ===== *)
theory Decimal
  imports Isa
begin

text \<open>
  Reading back generated names: the decimal numerals printed into keys and hypothesis names are
  injective and contain only digits and a sign, so a separator that is neither splits a key uniquely.
\<close>

lemma last_sep: "xs @ c # ys = xs' @ c # ys' \<Longrightarrow> c \<notin> set ys \<Longrightarrow> c \<notin> set ys' \<Longrightarrow> xs = xs' \<and> ys = ys'"
proof (induction ys arbitrary: ys' rule: rev_induct)
  case Nil
  then show ?case by (cases ys' rule: rev_cases) auto
next
  case (snoc y ys)
  then show ?case
  proof (cases ys' rule: rev_cases)
    case Nil
    then show ?thesis using snoc.prems by (metis append_is_Nil_conv last_ConsR last_appendR last_snoc list.distinct(1)
          append_Cons in_set_conv_decomp)
  next
    case (snoc zs z)
    then show ?thesis using snoc.prems snoc.IH by auto
  qed
qed

definition digit_char :: "char \<Rightarrow> bool" where
  "digit_char c \<longleftrightarrow> 48 \<le> (of_char c :: nat) \<and> of_char c < (58 :: nat)"

lemma of_digit: "k < 10 \<Longrightarrow> of_char (char_of (k + 48 :: nat) :: char) = (k + 48 :: nat)"
  by (simp add: of_char_of take_bit_eq_mod)

lemma digits_chars: "c \<in> set (digits n) \<Longrightarrow> digit_char c"
proof (induction n rule: digits.induct)
  case (1 n)
  have d: "digit_char (char_of (k + 48 :: nat))" if "k < 10" for k :: nat
    unfolding digit_char_def of_digit [OF that] using that by simp
  show ?case
  proof (cases "n < 10")
    case True
    then have "c = char_of (n + 48)" using "1.prems" by (subst (asm) digits.simps) simp
    then show ?thesis using d [OF True] by simp
  next
    case False
    then have "c \<in> set (digits (n div 10)) \<or> c = char_of (n mod 10 + 48)"
      using "1.prems" by (subst (asm) digits.simps) (simp, blast)
    then show ?thesis using "1.IH" [OF False] d [of "n mod 10"] by auto
  qed
qed

lemma digits_value: "foldl (\<lambda>a c. 10 * a + (of_char c - 48)) 0 (digits n) = (n :: nat)"
proof (induction n rule: digits.induct)
  case (1 n)
  show ?case
  proof (cases "n < 10")
    case True
    then show ?thesis using of_digit [OF True] by (subst digits.simps) simp
  next
    case False
    have "foldl (\<lambda>a c. 10 * a + (of_char c - 48)) 0 (digits n) = 10 * (n div 10) + (n mod 10 + 48 - 48)"
      using "1.IH" [OF False] of_digit [of "n mod 10"] by (subst digits.simps) (simp add: False)
    then show ?thesis by simp
  qed
qed

lemma digits_inj: "digits m = digits n \<Longrightarrow> m = n"
  by (metis digits_value)

lemma show_int_chars: "c \<in> set (show_int i) \<Longrightarrow> c = CHR ''-'' \<or> digit_char c"
  using digits_chars by (auto simp: show_int_def split: if_splits)

lemma no_sep: "CHR ''@'' \<notin> set (show_int i)" "CHR '':'' \<notin> set (show_int i)" "CHR ''+'' \<notin> set (show_int i)"
  using show_int_chars [of "CHR ''@''" i] show_int_chars [of "CHR '':''" i] show_int_chars [of "CHR ''+''" i]
  by (auto simp: digit_char_def of_char_Char)

lemma sign_not_digit: "CHR ''-'' # ds \<noteq> digits n"
proof
  assume "CHR ''-'' # ds = digits n"
  then have "CHR ''-'' \<in> set (digits n)" by (metis list.set_intros(1))
  then have "digit_char CHR ''-''" by (rule digits_chars)
  then show False by (simp add: digit_char_def)
qed

lemma show_int_inj: "show_int a = show_int b \<Longrightarrow> a = b"
  using sign_not_digit sign_not_digit [symmetric] digits_inj [of "nat a" "nat b"] digits_inj [of "nat (- a)" "nat (- b)"]
  by (auto simp: show_int_def split: if_splits)

end
