(* ===== verification/Canon_Addr.thy ===== *)
theory Canon_Addr
  imports Sym_Expr
begin

text \<open>
  The arithmetic of canonical addresses (\<open>canon_addr\<close> of \<open>core.rs\<close>): \<open>i64\<close> wrap-around, and how the
  displacement follows the offset of the access.
\<close>

lemma wrap_eq: "wrap_i64 a = wrap_i64 b \<longleftrightarrow> (word_of_int a :: u64) = word_of_int b"
  using signed_take_bit_eq_iff_take_bit_eq [of 63 a b] by (simp add: wrap_i64_def word_of_int_eq_iff)

lemma wrap_small: "- (2 ^ 63) \<le> a \<Longrightarrow> a < 2 ^ 63 \<Longrightarrow> wrap_i64 a = a"
  by (simp add: wrap_i64_def signed_take_bit_int_eq_self)

lemma wrap_range: "- (2 ^ 63) \<le> wrap_i64 a \<and> wrap_i64 a < 2 ^ 63"
  unfolding wrap_i64_def using signed_take_bit_int_less_exp [of 63 a] signed_take_bit_int_greater_eq_minus_exp [of 63 a] by blast

lemma wrap_suc: "- (2 ^ 63) \<le> a \<Longrightarrow> a < 2 ^ 63 \<Longrightarrow> wrap_i64 (a + 1) \<le> a + 1"
  using wrap_small [of "a + 1"] wrap_range [of "a + 1"] by (cases "a + 1 < 2 ^ 63") auto

lemma wrap_wrap: "wrap_i64 (wrap_i64 a + b) = wrap_i64 (a + b)"
  by (simp add: wrap_eq)

definition i64 :: "int \<Rightarrow> bool" where
  "i64 d \<longleftrightarrow> - (2 ^ 63) \<le> d \<and> d < 2 ^ 63"

lemma i64_wrap [simp]: "i64 (wrap_i64 a)"
  using wrap_range by (simp add: i64_def)

lemma wrap_id: "i64 d \<Longrightarrow> wrap_i64 d = d"
  by (simp add: i64_def wrap_small)

text \<open>The root does not depend on the offset; the displacement is the offset plus a constant of the base.\<close>

definition shifts :: "(int \<Rightarrow> (string \<times> int) option) \<Rightarrow> bool" where
  "shifts f \<longleftrightarrow> (\<forall>d. f d = None) \<or> (\<exists>r k. \<forall>d. i64 d \<longrightarrow> f d = Some (r, wrap_i64 (d + k)))"

lemma shifts_wrap: "shifts f \<Longrightarrow> shifts (\<lambda>d. f (wrap_i64 (d + k)))"
proof -
  assume "shifts f"
  then consider "\<forall>d. f d = None" | r j where "\<forall>d. i64 d \<longrightarrow> f d = Some (r, wrap_i64 (d + j))" by (auto simp: shifts_def)
  then show ?thesis
  proof cases
    case (2 r j)
    then have "\<forall>d. f (wrap_i64 (d + k)) = Some (r, wrap_i64 (d + (k + j)))" by (simp add: wrap_wrap add.assoc)
    then show ?thesis unfolding shifts_def by blast
  qed (simp add: shifts_def)
qed

lemma shifts_leaf: "shifts (\<lambda>d. Some (r, d))" "shifts (\<lambda>d. Some (r, wrap_i64 (d + k)))" "shifts (\<lambda>d. None)"
proof -
  have "\<forall>d. i64 d \<longrightarrow> Some (r, d) = Some (r, wrap_i64 (d + 0))" by (simp add: wrap_id)
  then show "shifts (\<lambda>d. Some (r, d))" unfolding shifts_def by blast
qed (auto simp: shifts_def)

lemma canon_go_shifts: "shifts (canon_go e)"
proof (induction e)
  case (WrapAdd a b)
  then show ?case by (cases "const_of_expr b"; cases "const_of_expr a") (simp_all add: shifts_wrap shifts_leaf)
next
  case (NatAdd a b)
  then show ?case by (cases "const_of_expr b"; cases "const_of_expr a") (simp_all add: shifts_wrap shifts_leaf)
next
  case (WrapSub a b)
  then show ?case using shifts_wrap [of "canon_go a" "- the (const_of_expr b)"]
    by (cases "const_of_expr b") (simp_all add: shifts_leaf)
qed (simp_all add: shifts_leaf)

lemma canon_addr_shift: "\<exists>r k. \<forall>d. i64 d \<longrightarrow> canon_addr e d = (r, wrap_i64 (d + k))"
  using canon_go_shifts [of e] unfolding shifts_def
proof
  assume "\<forall>d. canon_go e d = None"
  then have "\<forall>d. i64 d \<longrightarrow> canon_addr e d = (to_lean e, wrap_i64 (d + 0))" by (simp add: canon_addr_def wrap_id)
  then show ?thesis by blast
next
  assume "\<exists>r k. \<forall>d. i64 d \<longrightarrow> canon_go e d = Some (r, wrap_i64 (d + k))"
  then obtain r k where "\<forall>d. i64 d \<longrightarrow> canon_go e d = Some (r, wrap_i64 (d + k))" by blast
  then have "\<forall>d. i64 d \<longrightarrow> canon_addr e d = (r, wrap_i64 (d + k))" by (simp add: canon_addr_def)
  then show ?thesis by blast
qed

lemma canon_addr_i64: "i64 d \<Longrightarrow> i64 (snd (canon_addr e d))"
  using canon_addr_shift [of e] by auto

text \<open>Two bases on one root that disagree at an offset disagree at every offset.\<close>

lemma canon_addr_differ:
  assumes "i64 d" "i64 d'" "fst (canon_addr e d) = fst (canon_addr e' d)" "snd (canon_addr e d) \<noteq> snd (canon_addr e' d)"
  shows "fst (canon_addr e d') = fst (canon_addr e' d') \<and> snd (canon_addr e d') \<noteq> snd (canon_addr e' d')"
proof -
  obtain r k where e: "\<forall>d. i64 d \<longrightarrow> canon_addr e d = (r, wrap_i64 (d + k))" using canon_addr_shift by blast
  obtain r' k' where e': "\<forall>d. i64 d \<longrightarrow> canon_addr e' d = (r', wrap_i64 (d + k'))" using canon_addr_shift by blast
  show ?thesis using assms e e' by (simp add: wrap_eq)
qed

lemma canon_addr_root: "i64 d \<Longrightarrow> i64 d' \<Longrightarrow> fst (canon_addr e d) = fst (canon_addr e d')"
  using canon_addr_shift [of e] by auto

end
