(* ===== verification/Sym_State.thy ===== *)
theory Sym_State
  imports Branch Decimal Canon_Addr
begin

text \<open>
  The symbolic state of the lifter (\<open>qedlift/src/state.rs\<close> and the data types of \<open>core.rs\<close> it holds):
  registers, memory cells, precondition atoms, region requirements, the footprint ledger that guards
  against overlapping atoms, and the demotion and split requests of the retry loop.  A method that
  mutates the state returns it.  Displacements are integers: the plain \<open>i64\<close> additions of the code are
  taken not to overflow, the \<open>wrapping_add\<close> of the ledger is kept.
\<close>

subsection \<open>Fresh names\<close>

record fresh_names =
  fn_next :: nat
  fn_reserved :: "nat list"

definition reserve :: "fresh_names \<Rightarrow> nat \<times> fresh_names" where
  "reserve f = (fn_next f, f\<lparr>fn_next := fn_next f + 1, fn_reserved := fn_reserved f @ [fn_next f]\<rparr>)"

definition allocate :: "fresh_names \<Rightarrow> nat \<times> fresh_names" where
  "allocate f = (case fn_reserved f of
      r # rs \<Rightarrow> (r, f\<lparr>fn_reserved := rs\<rparr>)
    | [] \<Rightarrow> (fn_next f, f\<lparr>fn_next := fn_next f + 1\<rparr>))"

definition finish_prepared_step :: "fresh_names \<Rightarrow> (diagnostic_kind, unit) res" where
  "finish_prepared_step f = (if fn_reserved f = [] then Ok () else Err Other)"

subsection \<open>Cells, atoms and clauses\<close>

datatype bytes_val = Sym string | Replicate expr expr

definition bytes_to_lean :: "bytes_val \<Rightarrow> string" where
  "bytes_to_lean b = (case b of
      Sym n \<Rightarrow> n
    | Replicate f c \<Rightarrow> ''replicateByte ('' @ atom_lean f @ '' % 256).toUInt8 '' @ atom_lean c)"

datatype atom =
    Atom_Reg nat expr
  | Atom_Mem expr int width expr int
  | Atom_Bytes expr bytes_val
  | Atom_Bytes32 expr string
  | Atom_ReturnData bytes_val

record mem_cell =
  addr_base :: expr
  addr_off :: int
  mc_width :: width
  mc_value :: expr
  mc_delta :: int

definition cell_key :: "mem_cell \<Rightarrow> string \<times> int \<times> int \<times> width" where
  "cell_key c = (to_lean (addr_base c), addr_off c, mc_delta c, mc_width c)"

datatype region_clause =
    Access expr int width bool "(expr \<times> expr) option"
  | Callx_clause expr nat
  | Sysvars_clause string

datatype retry_plan = BlobSplits "(string \<times> int \<times> int) list" | HotRegions "(string \<times> int \<times> int) list" | Ready

type_synonym frame = "nat \<times> expr list"
type_synonym side_hyp = "string \<times> string"

record sym_state =
  regs :: "(nat \<times> expr) list"
  pre :: "atom list"
  mem :: "mem_cell list"
  names :: fresh_names
  u64_load_vars :: "(string \<times> nat) list"
  branch_hyps :: "branch_hyp list"
  call_stack :: "frame list"
  saw_call :: bool
  rr_walk :: "region_clause list"
  side_hyps :: "side_hyp list"
  atom_spans :: "(string \<times> int \<times> int \<times> string) list"
  overlap_errors :: "string list"
  pending_alias :: "(string \<times> string) option"
  hot_regions :: "(string \<times> (int \<times> int) list) list"
  new_hot :: "(string \<times> int \<times> int) list"
  blobs :: "(string \<times> int \<times> int \<times> nat option) list"
  blob_splits :: "((string \<times> int) \<times> int) list"
  new_blob_splits :: "(string \<times> int \<times> int) list"
  pending_slot_aliases :: "(string \<times> string) list"
  byte_blob_post :: "(string \<times> bytes_val) list"
  syscall_pcs :: "(nat \<times> string) list"
  syscall_cu_vars :: "(string \<times> string \<times> string) list"
  memset_blobs :: "(string \<times> string) list"
  bytearray_vars :: "string list"
  returndata_post :: "bytes_val option"
  bytes32_post :: "(string \<times> string) list"
  gen_exclude :: "string list"
  rr_continuations :: "nat set"
  blob_side_hyps :: "side_hyp list"

text \<open>\<open>SymState::default()\<close> with the retry plans.\<close>

definition with_retry_plans :: "(string \<times> (int \<times> int) list) list \<Rightarrow> ((string \<times> int) \<times> int) list \<Rightarrow> sym_state" where
  "with_retry_plans hot splits =
     \<lparr>regs = [], pre = [], mem = [], names = \<lparr>fn_next = 0, fn_reserved = []\<rparr>, u64_load_vars = [], branch_hyps = [],
      call_stack = [], saw_call = False, rr_walk = [], side_hyps = [], atom_spans = [], overlap_errors = [],
      pending_alias = None, hot_regions = hot, new_hot = [], blobs = [], blob_splits = splits, new_blob_splits = [],
      pending_slot_aliases = [], byte_blob_post = [], syscall_pcs = [], syscall_cu_vars = [], memset_blobs = [],
      bytearray_vars = [], returndata_post = None, bytes32_post = [], gen_exclude = [], rr_continuations = {},
      blob_side_hyps = []\<rparr>"

subsection \<open>Small operations\<close>

definition record_branch :: "branch_hyp \<Rightarrow> sym_state \<Rightarrow> sym_state" where
  "record_branch b s = s\<lparr>branch_hyps := branch_hyps s @ [b]\<rparr>"

definition push_call_frame :: "nat \<Rightarrow> expr list \<Rightarrow> sym_state \<Rightarrow> sym_state" where
  "push_call_frame pc saved s = s\<lparr>saw_call := True, call_stack := call_stack s @ [(pc, saved)]\<rparr>"

definition pop_call_frame :: "sym_state \<Rightarrow> frame option \<times> sym_state" where
  "pop_call_frame s = (if call_stack s = [] then (None, s)
     else (Some (last (call_stack s)), s\<lparr>call_stack := butlast (call_stack s)\<rparr>))"

definition push_access :: "region_clause \<Rightarrow> sym_state \<Rightarrow> sym_state" where
  "push_access c s = s\<lparr>rr_walk := rr_walk s @ [c]\<rparr>"

definition record_side_hypothesis :: "string \<Rightarrow> string \<Rightarrow> sym_state \<Rightarrow> sym_state" where
  "record_side_hypothesis n p s = s\<lparr>side_hyps := side_hyps s @ [(n, p)]\<rparr>"

definition push_error :: "string \<Rightarrow> sym_state \<Rightarrow> sym_state" where
  "push_error e s = s\<lparr>overlap_errors := overlap_errors s @ [e]\<rparr>"

definition alloc_fresh_name :: "sym_state \<Rightarrow> nat \<times> sym_state" where
  "alloc_fresh_name s = (let (i, f) = allocate (names s) in (i, s\<lparr>names := f\<rparr>))"

definition register_blob :: "string \<Rightarrow> int \<Rightarrow> int \<Rightarrow> nat option \<Rightarrow> sym_state \<Rightarrow> sym_state" where
  "register_blob root o1 len fill s = s\<lparr>blobs := blobs s @ [(root, o1, len, fill)]\<rparr>"

definition blob_split :: "string \<Rightarrow> int \<Rightarrow> sym_state \<Rightarrow> int option" where
  "blob_split root o1 s = map_of (blob_splits s) (root, o1)"

definition alloc_syscall :: "string \<Rightarrow> sym_state \<Rightarrow> (nat \<times> string \<times> string) \<times> sym_state" where
  "alloc_syscall tag s = (let (i, s') = alloc_fresh_name s in ((i, ''nCu'' @ tag @ digits i, ''hCu'' @ tag @ digits i), s'))"

definition take_alias_hypotheses :: "nat \<Rightarrow> sym_state \<Rightarrow> side_hyp list \<times> sym_state" where
  "take_alias_hypotheses pc s =
     (let eq = (\<lambda>(l, r). l @ '' = '' @ r) in
      ((case pending_alias s of None \<Rightarrow> [] | Some a \<Rightarrow> [(''h_alias_'' @ digits pc, eq a)]) @
       map (\<lambda>(i, a). (''h_alias_'' @ digits pc @ ''_'' @ digits i, eq a)) (List.enumerate 0 (pending_slot_aliases s)),
       s\<lparr>pending_alias := None, pending_slot_aliases := []\<rparr>))"

definition take_retry_plan :: "sym_state \<Rightarrow> retry_plan \<times> sym_state" where
  "take_retry_plan s =
     (if new_blob_splits s \<noteq> [] then (BlobSplits (new_blob_splits s), s\<lparr>new_blob_splits := []\<rparr>)
      else if new_hot s \<noteq> [] then (HotRegions (new_hot s), s\<lparr>new_hot := []\<rparr>)
      else (Ready, s))"

subsection \<open>Footprints\<close>

text \<open>A new atom's byte span is recorded, or reported when it meets a different atom on the same root.\<close>

definition conflicts :: "string \<Rightarrow> int \<Rightarrow> int \<Rightarrow> string \<Rightarrow> string \<times> int \<times> int \<times> string \<Rightarrow> bool" where
  "conflicts root lo hi key sp = (case sp of (er, el, eh, ek) \<Rightarrow> er = root \<and> ek \<noteq> key \<and> lo < eh \<and> el < hi)"

abbreviation bq :: string where "bq \<equiv> [CHR 0x60]"

definition overlap_message :: "string \<Rightarrow> string \<Rightarrow> int \<Rightarrow> int \<Rightarrow> string \<times> int \<times> int \<times> string \<Rightarrow> string" where
  "overlap_message key root lo hi sp = (case sp of (er, el, eh, ek) \<Rightarrow>
     ''atom '' @ bq @ key @ bq @ '' (root '' @ bq @ root @ bq @ '', bytes ['' @ show_int lo @ '', '' @ show_int hi @
     '')) overlaps existing atom '' @ bq @ ek @ bq @ '' (bytes ['' @ show_int el @ '', '' @ show_int eh @ ''))'')"

definition note_access :: "expr \<Rightarrow> int \<Rightarrow> int \<Rightarrow> string \<Rightarrow> sym_state \<Rightarrow> sym_state" where
  "note_access base d len key s =
     (let (root, lo) = canon_addr base d; hi = wrap_i64 (lo + len) in
      case find (conflicts root lo hi key) (atom_spans s) of
        Some sp \<Rightarrow> push_error (overlap_message key root lo hi sp) s
      | None \<Rightarrow> s\<lparr>atom_spans := atom_spans s @ [(root, lo, hi, key)]\<rparr>)"

subsection \<open>Registers\<close>

text \<open>The first touch of a register binds its initial name in the precondition.\<close>

definition first_touch :: "nat \<Rightarrow> sym_state \<Rightarrow> sym_state" where
  "first_touch r s = (if map_of (regs s) r = None
     then s\<lparr>regs := bt_insert r (InitReg (reg_initial_name r)) (regs s),
            pre := pre s @ [Atom_Reg r (InitReg (reg_initial_name r))]\<rparr>
     else s)"

definition read_reg :: "nat \<Rightarrow> sym_state \<Rightarrow> expr \<times> sym_state" where
  "read_reg r s = (case map_of (regs s) r of
      Some v \<Rightarrow> (v, s)
    | None \<Rightarrow> (InitReg (reg_initial_name r), first_touch r s))"

definition write_reg :: "nat \<Rightarrow> expr \<Rightarrow> sym_state \<Rightarrow> sym_state" where
  "write_reg r v s = (let s1 = first_touch r s in s1\<lparr>regs := bt_insert r v (regs s1)\<rparr>)"

subsection \<open>Hot regions\<close>

definition hot_of :: "sym_state \<Rightarrow> string \<Rightarrow> (int \<times> int) list" where
  "hot_of s root = (case map_of (hot_regions s) root of Some v \<Rightarrow> v | None \<Rightarrow> [])"

definition hot_covers :: "sym_state \<Rightarrow> string \<Rightarrow> int \<Rightarrow> int \<Rightarrow> bool" where
  "hot_covers s root lo hi \<longleftrightarrow> list_ex (\<lambda>(l, h). l \<le> lo \<and> hi \<le> h) (hot_of s root)"

definition hot_intersects :: "sym_state \<Rightarrow> string \<Rightarrow> int \<Rightarrow> int \<Rightarrow> bool" where
  "hot_intersects s root lo hi \<longleftrightarrow> list_ex (\<lambda>(l, h). lo < h \<and> l < hi) (hot_of s root)"

definition wbytes :: "width \<Rightarrow> int" where
  "wbytes w = (case w of Byte \<Rightarrow> 1 | Half \<Rightarrow> 2 | Word_w \<Rightarrow> 4 | Dword \<Rightarrow> 8)"

definition width_debug :: "width \<Rightarrow> string" where
  "width_debug w = (case w of Byte \<Rightarrow> ''Byte'' | Half \<Rightarrow> ''Halfword'' | Word_w \<Rightarrow> ''Word'' | Dword \<Rightarrow> ''Dword'')"

definition addr_render :: "expr \<Rightarrow> int \<Rightarrow> string" where
  "addr_render b d = ''effectiveAddr ('' @ to_lean b @ '') ('' @ show_int d @ '')''"

definition cell_render :: "mem_cell \<Rightarrow> string" where
  "cell_render c = addr_render (addr_base c) (addr_off c) @
     (if mc_delta c \<noteq> 0 then '' + '' @ show_int (mc_delta c) else [])"

definition cell_span :: "mem_cell \<Rightarrow> string \<times> int \<times> int" where
  "cell_span c = (let (r, d) = canon_addr (addr_base c) (addr_off c); l = d + mc_delta c in (r, l, l + wbytes (mc_width c)))"

definition demotion_step :: "string \<Rightarrow> int \<Rightarrow> int \<Rightarrow> width \<Rightarrow> int \<times> int \<times> bool \<Rightarrow> mem_cell \<Rightarrow> int \<times> int \<times> bool" where
  "demotion_step root lo wlen w acc c = (case acc of (nlo, nhi, conflict) \<Rightarrow>
     (let (cr, cl, ch) = cell_span c in
      if cr \<noteq> root then acc
      else if \<not> (cl = lo \<and> ch = lo + wlen \<and> mc_width c = w) \<and> lo < ch \<and> cl < lo + wlen
      then (min nlo cl, max nhi ch, True) else acc))"

definition request_demotion_on_conflict :: "string \<Rightarrow> int \<Rightarrow> int \<Rightarrow> width \<Rightarrow> sym_state \<Rightarrow> sym_state" where
  "request_demotion_on_conflict root lo wlen w s =
     (let (nlo, nhi, conflict) = foldl (demotion_step root lo wlen w) (lo, lo + wlen, False) (mem s) in
      if conflict \<or> hot_intersects s root lo (lo + wlen) then s\<lparr>new_hot := new_hot s @ [(root, nlo, nhi)]\<rparr> else s)"

definition slot_expected_render :: "expr \<Rightarrow> int \<Rightarrow> int \<Rightarrow> string" where
  "slot_expected_render b d k = addr_render b d @ (if k = 0 then [] else '' + '' @ show_int k)"

definition index_of :: "('a \<Rightarrow> bool) \<Rightarrow> 'a list \<Rightarrow> nat option" where
  "index_of P xs = (let i = length (takeWhile (\<lambda>x. \<not> P x) xs) in if i < length xs then Some i else None)"

definition bound_byte_var :: "expr \<Rightarrow> sym_state \<Rightarrow> sym_state" where
  "bound_byte_var v s = (case v of
      InitMem n \<Rightarrow> if list_ex (\<lambda>(m, _). m = n) (u64_load_vars s) then s else s\<lparr>u64_load_vars := u64_load_vars s @ [(n, 8)]\<rparr>
    | _ \<Rightarrow> s)"

definition add_cell :: "mem_cell \<Rightarrow> sym_state \<Rightarrow> sym_state" where
  "add_cell c s = s\<lparr>mem := mem s @ [c],
     pre := pre s @ [Atom_Mem (addr_base c) (addr_off c) (mc_width c) (mc_value c) (mc_delta c)]\<rparr>"

definition add_load_var :: "string \<times> nat \<Rightarrow> sym_state \<Rightarrow> sym_state" where
  "add_load_var v s = s\<lparr>u64_load_vars := u64_load_vars s @ [v]\<rparr>"

definition hot_slot :: "expr \<Rightarrow> int \<Rightarrow> int \<Rightarrow> sym_state \<Rightarrow> nat \<times> sym_state" where
  "hot_slot b d k s =
     (let (root, lo) = canon_addr b d in
      case index_of (\<lambda>c. mc_width c = Byte \<and> (let (cr, cd) = canon_addr (addr_base c) (addr_off c) in
                          cr = root \<and> cd + mc_delta c = lo + k)) (mem s) of
        Some i \<Rightarrow>
          (let c = mem s ! i;
               ok = (to_lean (addr_base c) = to_lean b \<and> addr_off c = d \<and> (k = 0 \<and> mc_delta c = 0 \<or> mc_delta c = k));
               s1 = (if ok then s else s\<lparr>pending_slot_aliases := pending_slot_aliases s @ [(cell_render c, slot_expected_render b d k)]\<rparr>)
           in (i, bound_byte_var (mc_value c) s1))
      | None \<Rightarrow>
          (let (idx, s1) = alloc_fresh_name s;
               name = ''oldMemB_'' @ digits idx;
               s2 = add_load_var (name, 8) s1;
               s3 = add_cell \<lparr>addr_base = b, addr_off = d, mc_width = Byte, mc_value = InitMem name, mc_delta = k\<rparr> s2;
               s4 = note_access b (d + k) 1 (to_lean b @ ''@'' @ show_int d @ ''+'' @ show_int k @ '':HotByte'') s3
           in (length (mem s4) - 1, s4)))"

definition set_cell :: "nat \<Rightarrow> expr \<Rightarrow> sym_state \<Rightarrow> sym_state" where
  "set_cell i v s = s\<lparr>mem := (mem s)[i := (mem s ! i)\<lparr>mc_value := v\<rparr>]\<rparr>"

definition hot_store_byte :: "expr \<Rightarrow> int \<Rightarrow> u32 \<Rightarrow> sym_state \<Rightarrow> nat \<Rightarrow> sym_state" where
  "hot_store_byte b d w s k = (let (i, s1) = hot_slot b d (int k) s in
     set_cell i (Const (uint (le_bytes 4 (unat w) ! k))) s1)"

definition write_hot_word_imm :: "expr \<Rightarrow> int \<Rightarrow> int \<Rightarrow> sym_state \<Rightarrow> sym_state" where
  "write_hot_word_imm b d i s = push_access (Access b d Word_w True None)
     (foldl (hot_store_byte b d (word_of_int i)) s [0..<4])"

definition hot_load_byte :: "expr \<Rightarrow> int \<Rightarrow> expr list \<times> sym_state \<Rightarrow> nat \<Rightarrow> expr list \<times> sym_state" where
  "hot_load_byte b d acc k = (case acc of (vs, s) \<Rightarrow>
     (let (i, s1) = hot_slot b d (int k) s in (vs @ [mc_value (mem s1 ! i)], s1)))"

abbreviation em_dash :: string where "em_dash \<equiv> [CHR 0xE2, CHR 0x80, CHR 0x94]"

definition read_hot_wide :: "expr \<Rightarrow> int \<Rightarrow> width \<Rightarrow> sym_state \<Rightarrow> expr \<times> sym_state" where
  "read_hot_wide b d w s =
     (if w \<noteq> Dword
      then (Raw ''hotUnsupported'', push_error (''hot-region '' @ width_debug w @ '' access at ('' @ to_lean b @ '')+'' @
              show_int d @ '' '' @ em_dash @ '' only dword LOADS are byte-demoted so far (H8 Phase B-1)'') s)
      else (let (vs, s1) = foldl (hot_load_byte b d) ([], s) [0..<8] in
            (ByteCombo vs, push_access (Access b d Dword False None) s1)))"

subsection \<open>Memory\<close>

definition lookup_cell_aliased :: "expr \<Rightarrow> int \<Rightarrow> width \<Rightarrow> sym_state \<Rightarrow> (nat \<times> bool) option" where
  "lookup_cell_aliased b d w s =
     (case index_of (\<lambda>c. cell_key c = (to_lean b, d, 0, w)) (mem s) of
        Some i \<Rightarrow> Some (i, False)
      | None \<Rightarrow>
          (let (root, disp) = canon_addr b d in
           map_option (\<lambda>i. (i, True)) (index_of (\<lambda>c. mc_width c = w \<and>
             (let (cr, cd) = canon_addr (addr_base c) (addr_off c) in cr = root \<and> cd + mc_delta c = disp)) (mem s))))"

definition plan_tail_split :: "string \<Rightarrow> int \<Rightarrow> sym_state \<Rightarrow> sym_state" where
  "plan_tail_split root lo s =
     (case find (\<lambda>(br, bl, bn, _). br = root \<and> bl \<le> lo \<and> lo + 8 \<le> bl + bn) (blobs s) of
        None \<Rightarrow> s
      | Some (br, bl, bn, _) \<Rightarrow>
          if lo - bl + 8 = bn \<and> map_of (blob_splits s) (br, bl) = None
          then s\<lparr>new_blob_splits := new_blob_splits s @ [(br, bl, lo - bl)]\<rparr> else s)"

text \<open>A hit: the clause and, for an aliased cell, the pending equation use the canonical rendering.\<close>

definition touch_cell :: "expr \<Rightarrow> int \<Rightarrow> width \<Rightarrow> bool \<Rightarrow> nat \<times> bool \<Rightarrow> sym_state \<Rightarrow> sym_state" where
  "touch_cell b d w writes hit s = (case hit of (i, aliased) \<Rightarrow>
     (let c = mem s ! i in
      if aliased then push_access (Access (addr_base c) (addr_off c) w writes None)
                        (s\<lparr>pending_alias := Some (addr_render b d, cell_render c)\<rparr>)
      else push_access (Access b d w writes None) s))"

definition load_bound :: "width \<Rightarrow> nat option" where
  "load_bound w = (case w of Dword \<Rightarrow> Some 64 | Word_w \<Rightarrow> Some 32 | Half \<Rightarrow> Some 16 | Byte \<Rightarrow> None)"

definition fresh_cell :: "expr \<Rightarrow> int \<Rightarrow> width \<Rightarrow> sym_state \<Rightarrow> expr \<times> sym_state" where
  "fresh_cell b d w s =
     (let (idx, s1) = alloc_fresh_name s;
          name = ''oldMem'' @ w_short w @ ''_'' @ digits idx;
          s2 = (case load_bound w of Some k \<Rightarrow> add_load_var (name, k) s1 | None \<Rightarrow> s1);
          s3 = note_access b d (wbytes w) (to_lean b @ ''@'' @ show_int d @ '':'' @ width_debug w) s2;
          s4 = add_cell \<lparr>addr_base = b, addr_off = d, mc_width = w, mc_value = InitMem name, mc_delta = 0\<rparr> s3
      in (InitMem name, push_access (Access b d w False None) s4))"

definition load_cell :: "expr \<Rightarrow> int \<Rightarrow> width \<Rightarrow> sym_state \<Rightarrow> expr \<times> sym_state" where
  "load_cell b d w s = (case lookup_cell_aliased b d w s of
      Some hit \<Rightarrow> (mc_value (mem s ! fst hit), touch_cell b d w False hit s)
    | None \<Rightarrow> fresh_cell b d w s)"

definition read_mem :: "nat \<Rightarrow> int \<Rightarrow> width \<Rightarrow> sym_state \<Rightarrow> expr \<times> sym_state" where
  "read_mem base d w s =
     (let (b, s0) = read_reg base s in
      if wbytes w > 1 then
        (let (root, lo) = canon_addr b d;
             s1 = (if w = Dword then plan_tail_split root lo s0 else s0) in
         if hot_covers s1 root lo (lo + wbytes w) then read_hot_wide b d w s1
         else load_cell b d w (request_demotion_on_conflict root lo (wbytes w) w s1))
      else load_cell b d w s0)"

definition materialize :: "nat \<Rightarrow> expr \<Rightarrow> int \<Rightarrow> width \<Rightarrow> sym_state \<Rightarrow> sym_state" where
  "materialize base b d w s =
     (if lookup_cell_aliased b d w s = None
      then (let s' = snd (read_mem base d w s) in s'\<lparr>rr_walk := butlast (rr_walk s')\<rparr>) else s)"

definition overwrite_cell :: "expr \<Rightarrow> int \<Rightarrow> width \<Rightarrow> expr \<Rightarrow> sym_state \<Rightarrow> sym_state" where
  "overwrite_cell b d w v s = (case lookup_cell_aliased b d w s of
      Some hit \<Rightarrow> touch_cell b d w True hit (set_cell (fst hit) v s)
    | None \<Rightarrow> s)"

definition store_cell :: "nat \<Rightarrow> expr \<Rightarrow> int \<Rightarrow> width \<Rightarrow> expr \<Rightarrow> sym_state \<Rightarrow> sym_state" where
  "store_cell base b d w v s = overwrite_cell b d w v (materialize base b d w s)"

definition write_mem :: "nat \<Rightarrow> int \<Rightarrow> width \<Rightarrow> expr \<Rightarrow> sym_state \<Rightarrow> sym_state" where
  "write_mem base d w v s =
     (let (b, s0) = read_reg base s in
      if wbytes w > 1 then
        (let (root, lo) = canon_addr b d in
         if hot_covers s0 root lo (lo + wbytes w) then
           (case (w, v) of
              (Word_w, StWordImm i) \<Rightarrow> write_hot_word_imm b d i s0
            | _ \<Rightarrow> push_error (''wide '' @ width_debug w @ '' STORE at ('' @ to_lean b @ '')+'' @ show_int d @
                     '' into a hot (byte-demoted) region '' @ em_dash @
                     '' only word-immediate stores and dword loads are supported so far (H8 Phase B)'') s0)
         else
           (let s1 = request_demotion_on_conflict root lo (wbytes w) w s0 in
            if hot_intersects s1 root lo (lo + wbytes w) then s1 else store_cell base b d w v s1))
      else store_cell base b d w v s0)"

subsection \<open>Fresh names are used once\<close>

text \<open>A run of the allocator, with the indices handed out so far.\<close>

inductive name_run :: "fresh_names \<Rightarrow> nat list \<Rightarrow> bool" where
  start: "name_run \<lparr>fn_next = 0, fn_reserved = []\<rparr> []"
| reserves: "name_run f out \<Longrightarrow> name_run (snd (reserve f)) out"
| allocates: "name_run f out \<Longrightarrow> name_run (snd (allocate f)) (out @ [fst (allocate f)])"

lemma name_run_inv:
  "name_run f out \<Longrightarrow> distinct (out @ fn_reserved f) \<and> (\<forall>i \<in> set (out @ fn_reserved f). i < fn_next f) \<and> sorted (fn_reserved f)"
proof (induction rule: name_run.induct)
  case (reserves f out)
  then show ?case by (auto simp: reserve_def sorted_append less_imp_le less_SucI)
next
  case (allocates f out)
  then show ?case by (cases "fn_reserved f") (auto simp: allocate_def)
qed simp

subsection \<open>The register file\<close>

definition reg_atoms :: "atom list \<Rightarrow> (nat \<times> expr) list" where
  "reg_atoms as = concat (map (\<lambda>a. case a of Atom_Reg r v \<Rightarrow> [(r, v)] | _ \<Rightarrow> []) as)"

lemma reg_atoms_append [simp]: "reg_atoms (as @ bs) = reg_atoms as @ reg_atoms bs"
  by (simp add: reg_atoms_def)

lemma reg_atoms_simps [simp]: "reg_atoms [] = []" "reg_atoms [Atom_Reg r v] = [(r, v)]" "reg_atoms [Atom_Mem b d w x k] = []"
  by (simp_all add: reg_atoms_def)

text \<open>The precondition binds each touched register once, to its initial name.\<close>

definition regs_ok :: "sym_state \<Rightarrow> bool" where
  "regs_ok s \<longleftrightarrow> distinct (map fst (reg_atoms (pre s))) \<and> fst ` set (reg_atoms (pre s)) = dom (map_of (regs s)) \<and>
     (\<forall>(r, v) \<in> set (reg_atoms (pre s)). v = InitReg (reg_initial_name r))"

lemma first_touch_regs: "regs_ok s \<Longrightarrow> regs_ok (first_touch r s) \<and> map_of (regs (first_touch r s)) r \<noteq> None"
  by (auto simp: first_touch_def regs_ok_def)

lemma read_reg_touch: "snd (read_reg r s) = first_touch r s"
  by (auto simp: read_reg_def first_touch_def split: option.splits)

lemma write_reg_regs: "regs_ok s \<Longrightarrow> regs_ok (write_reg r v s)"
  using first_touch_regs [of s r] by (auto simp: write_reg_def regs_ok_def Let_def)

lemma read_write_reg: "fst (read_reg r (write_reg q v s)) = (if r = q then v else fst (read_reg r s))"
  by (auto simp: read_reg_def write_reg_def first_touch_def Let_def split: option.splits)

lemma read_reg_again: "read_reg r (first_touch r s) = (fst (read_reg r s), first_touch r s)"
  by (auto simp: read_reg_def first_touch_def split: option.splits)

subsection \<open>The footprint ledger\<close>

definition plain_key :: "mem_cell \<Rightarrow> string" where
  "plain_key c = to_lean (addr_base c) @ ''@'' @ show_int (addr_off c) @ '':'' @ width_debug (mc_width c)"

definition hot_key :: "mem_cell \<Rightarrow> string" where
  "hot_key c = to_lean (addr_base c) @ ''@'' @ show_int (addr_off c) @ ''+'' @ show_int (mc_delta c) @ '':HotByte''"

text \<open>The root and the bytes of a cell, as the ledger records them.\<close>

definition footprint :: "mem_cell \<Rightarrow> string \<times> int \<times> int" where
  "footprint c = (let (r, lo) = canon_addr (addr_base c) (addr_off c + mc_delta c) in (r, lo, wrap_i64 (lo + wbytes (mc_width c))))"

definition keyed :: "mem_cell \<Rightarrow> string \<Rightarrow> bool" where
  "keyed c key \<longleftrightarrow> mc_delta c = 0 \<and> key = plain_key c \<or> mc_width c = Byte \<and> key = hot_key c"

definition entry_of :: "mem_cell \<Rightarrow> string \<times> int \<times> int \<times> string \<Rightarrow> bool" where
  "entry_of c sp \<longleftrightarrow> (case sp of (r, lo, hi, key) \<Rightarrow> footprint c = (r, lo, hi) \<and> keyed c key)"

text \<open>Two cells share no byte of a root.\<close>

definition apart :: "mem_cell \<Rightarrow> mem_cell \<Rightarrow> bool" where
  "apart c c' \<longleftrightarrow> (case (footprint c, footprint c') of ((r, lo, hi), r', lo', hi') \<Rightarrow> r \<noteq> r' \<or> hi \<le> lo' \<or> hi' \<le> lo)"

text \<open>The offset field of an instruction is an \<open>i16\<close>.\<close>

definition off_ok :: "int \<Rightarrow> bool" where
  "off_ok d \<longleftrightarrow> - (2 ^ 15) \<le> d \<and> d < 2 ^ 15"

definition cell_ok :: "mem_cell \<Rightarrow> bool" where
  "cell_ok c \<longleftrightarrow> off_ok (addr_off c) \<and> 0 \<le> mc_delta c \<and> mc_delta c < 8"

definition place :: "mem_cell \<Rightarrow> expr \<times> int \<times> width \<times> int" where
  "place c = (addr_base c, addr_off c, mc_width c, mc_delta c)"

definition atom_places :: "atom list \<Rightarrow> (expr \<times> int \<times> width \<times> int) list" where
  "atom_places as = concat (map (\<lambda>a. case a of Atom_Mem b d w v k \<Rightarrow> [(b, d, w, k)] | _ \<Rightarrow> []) as)"

lemma atom_places_append [simp]: "atom_places (as @ bs) = atom_places as @ atom_places bs"
  by (simp add: atom_places_def)

lemma atom_places_simps [simp]:
  "atom_places [] = []" "atom_places [Atom_Reg r v] = []" "atom_places [Atom_Mem b d w x k] = [(b, d, w, k)]"
  by (simp_all add: atom_places_def)

text \<open>
  Every memory atom of the precondition is a cell; while no overlap is reported, every cell has its
  entry in the ledger and no two cells share a byte.
\<close>

definition ledger_ok :: "sym_state \<Rightarrow> bool" where
  "ledger_ok s \<longleftrightarrow> atom_places (pre s) = map place (mem s) \<and> list_all cell_ok (mem s) \<and>
     (overlap_errors s = [] \<longrightarrow> list_all2 entry_of (mem s) (atom_spans s) \<and> sorted_wrt apart (mem s))"

definition same_ledger :: "sym_state \<Rightarrow> sym_state \<Rightarrow> bool" where
  "same_ledger s s' \<longleftrightarrow> atom_places (pre s') = atom_places (pre s) \<and> map place (mem s') = map place (mem s) \<and>
     atom_spans s' = atom_spans s \<and> (\<exists>es. overlap_errors s' = overlap_errors s @ es)"

lemma entry_of_place: "place c = place c' \<Longrightarrow> entry_of c sp = entry_of c' sp"
  by (simp add: place_def entry_of_def footprint_def keyed_def plain_key_def hot_key_def)

lemma cell_ok_place: "place c = place c' \<Longrightarrow> cell_ok c = cell_ok c'"
  by (simp add: place_def cell_ok_def)

lemma apart_place: "place c = place c' \<Longrightarrow> apart c e = apart c' e \<and> apart e c = apart e c'"
  by (simp add: place_def apart_def footprint_def)

lemma cells_place:
  assumes "map place cs = map place cs'"
  shows "list_all cell_ok cs = list_all cell_ok cs'" "sorted_wrt apart cs = sorted_wrt apart cs'"
proof -
  have l: "length cs = length cs'" using assms by (metis length_map)
  have p: "place (cs ! i) = place (cs' ! i)" if "i < length cs'" for i using assms l that by (metis nth_map)
  show "list_all cell_ok cs = list_all cell_ok cs'" unfolding list_all_length l using cell_ok_place p by blast
  have "apart (cs ! i) (cs ! j) = apart (cs' ! i) (cs' ! j)" if "j < length cs'" "i < j" for i j
    using apart_place p that less_trans by metis
  then show "sorted_wrt apart cs = sorted_wrt apart cs'" unfolding sorted_wrt_iff_nth_less l by blast
qed

lemma entries_place:
  "map place cs = map place cs' \<Longrightarrow> list_all2 entry_of cs sps = list_all2 entry_of cs' sps"
proof (induction cs arbitrary: cs' sps)
  case (Cons c cs)
  then obtain c' ds where "cs' = c' # ds" "place c = place c'" "map place cs = map place ds" by (auto simp: Cons_eq_map_conv)
  then show ?case using Cons.IH entry_of_place [of c c'] by (cases sps) auto
qed simp

lemma same_ledger_ok:
  assumes "same_ledger s s'" "ledger_ok s"
  shows "ledger_ok s'"
proof -
  have s: "atom_places (pre s') = atom_places (pre s)" "map place (mem s') = map place (mem s)" "atom_spans s' = atom_spans s"
    "overlap_errors s' = [] \<Longrightarrow> overlap_errors s = []" using assms(1) by (auto simp: same_ledger_def)
  then show ?thesis using assms(2) entries_place [OF s(2)] cells_place [OF s(2)] by (simp add: ledger_ok_def)
qed

lemma same_ledger_refl [simp]: "same_ledger s s"
  by (simp add: same_ledger_def)

lemma same_ledger_trans: "same_ledger s t \<Longrightarrow> same_ledger t u \<Longrightarrow> same_ledger s u"
  by (auto simp: same_ledger_def)

lemma same_ledger_first_touch: "same_ledger s (first_touch r s)"
  by (simp add: same_ledger_def first_touch_def)

lemma same_ledger_ops [simp]:
  "same_ledger s (push_access c s)" "same_ledger s (push_error e s)" "same_ledger s (add_load_var v s)"
  "same_ledger s (record_side_hypothesis n q s)" "same_ledger s (record_branch bh s)" "same_ledger s (push_call_frame pc fr s)"
  "same_ledger s (write_reg r x s)"
  by (simp_all add: same_ledger_def push_access_def push_error_def add_load_var_def record_side_hypothesis_def
      record_branch_def push_call_frame_def write_reg_def first_touch_def Let_def)

lemma same_ledger_set_cell: "same_ledger s (set_cell i v s)"
proof (cases "i < length (mem s)")
  case True
  then have "map place ((mem s)[i := (mem s ! i)\<lparr>mc_value := v\<rparr>]) = (map place (mem s))[i := place (mem s ! i)]"
    by (simp add: map_update place_def)
  also have "\<dots> = map place (mem s)" using True by (simp add: list_update_same_conv)
  finally show ?thesis by (simp add: same_ledger_def set_cell_def)
qed (simp add: same_ledger_def set_cell_def list_update_beyond)

text \<open>
  Ledger keys are read back from the right: neither a width name nor a number contains the separators,
  so equal keys mean equal renderings, offsets and widths.
\<close>

lemma width_debug_sep: "CHR '':'' \<notin> set (width_debug w)"
  by (cases w) (auto simp: width_debug_def)

lemma place_text_inj:
  "b @ CHR ''@'' # show_int d = b' @ CHR ''@'' # show_int d' \<Longrightarrow> b = b' \<and> d = d'"
  using last_sep [of b "CHR ''@''" "show_int d" b' "show_int d'"] no_sep show_int_inj by blast

lemma plain_key_inj:
  assumes "plain_key c = plain_key c'"
  shows "to_lean (addr_base c) = to_lean (addr_base c') \<and> addr_off c = addr_off c' \<and> mc_width c = mc_width c'"
proof -
  have "(to_lean (addr_base c) @ CHR ''@'' # show_int (addr_off c)) @ CHR '':'' # width_debug (mc_width c) =
     (to_lean (addr_base c') @ CHR ''@'' # show_int (addr_off c')) @ CHR '':'' # width_debug (mc_width c')"
    using assms by (simp add: plain_key_def)
  from last_sep [OF this width_debug_sep width_debug_sep]
  have k: "to_lean (addr_base c) @ CHR ''@'' # show_int (addr_off c) = to_lean (addr_base c') @ CHR ''@'' # show_int (addr_off c')"
    "width_debug (mc_width c) = width_debug (mc_width c')" by auto
  have "mc_width c = mc_width c'" using k(2) by (cases "mc_width c"; cases "mc_width c'") (simp_all add: width_debug_def)
  then show ?thesis using place_text_inj [OF k(1)] by blast
qed

lemma hot_key_inj:
  assumes "hot_key c = hot_key c'"
  shows "to_lean (addr_base c) = to_lean (addr_base c') \<and> addr_off c = addr_off c' \<and> mc_delta c = mc_delta c'"
proof -
  let ?p = "\<lambda>c. to_lean (addr_base c) @ CHR ''@'' # show_int (addr_off c)"
  have h: "hot_key c = (?p c @ CHR ''+'' # show_int (mc_delta c)) @ '':HotByte''" for c by (simp add: hot_key_def)
  have "?p c @ CHR ''+'' # show_int (mc_delta c) = ?p c' @ CHR ''+'' # show_int (mc_delta c')"
    using assms unfolding h append_same_eq .
  from last_sep [OF this no_sep(3) no_sep(3)] show ?thesis using place_text_inj show_int_inj by blast
qed

lemma plain_not_hot: "plain_key c \<noteq> hot_key c'"
proof
  assume e: "plain_key c = hot_key c'"
  have h: "CHR '':'' \<notin> set ''HotByte''" by simp
  have "(to_lean (addr_base c) @ CHR ''@'' # show_int (addr_off c)) @ CHR '':'' # width_debug (mc_width c) =
     (to_lean (addr_base c') @ CHR ''@'' # show_int (addr_off c') @ CHR ''+'' # show_int (mc_delta c')) @ CHR '':'' # ''HotByte''"
    using e by (simp add: plain_key_def hot_key_def)
  from last_sep [OF this width_debug_sep h] have "width_debug (mc_width c) = ''HotByte''" by blast
  then show False by (cases "mc_width c") (simp_all add: width_debug_def)
qed

text \<open>
  A new cell enters the ledger with its footprint, or an overlap is reported.  The guard lets equal keys
  pass, so a new cell must be apart from the cells that share its key.
\<close>

definition enter_cell :: "mem_cell \<Rightarrow> string \<Rightarrow> sym_state \<Rightarrow> sym_state" where
  "enter_cell c key s = note_access (addr_base c) (addr_off c + mc_delta c) (wbytes (mc_width c)) key (add_cell c s)"

lemma add_note_commute: "add_cell c (note_access b d l key s) = note_access b d l key (add_cell c s)"
  by (simp add: note_access_def add_cell_def push_error_def Let_def split: prod.split option.split)

lemma no_conflict_apart:
  assumes "entry_of c' sp" "\<not> conflicts r lo hi key sp" "footprint c = (r, lo, hi)" "keyed c' key \<Longrightarrow> apart c' c"
  shows "apart c' c"
proof -
  obtain r' lo' hi' key' where sp: "sp = (r', lo', hi', key')" by (cases sp)
  then have f: "footprint c' = (r', lo', hi')" "keyed c' key'" using assms(1) by (auto simp: entry_of_def)
  then show ?thesis using assms(2-4) sp by (auto simp: conflicts_def apart_def)
qed

lemma enter_cell_ok:
  assumes ok: "ledger_ok s" and key: "keyed c key" and cell: "cell_ok c"
    and new: "\<And>c'. c' \<in> set (mem s) \<Longrightarrow> keyed c' key \<Longrightarrow> apart c' c"
  shows "ledger_ok (enter_cell c key s)"
proof -
  obtain r lo where rl: "canon_addr (addr_base c) (addr_off c + mc_delta c) = (r, lo)" by fastforce
  define hi where "hi = wrap_i64 (lo + wbytes (mc_width c))"
  have fp: "footprint c = (r, lo, hi)" by (simp add: footprint_def rl hi_def)
  have places: "atom_places (pre (add_cell c s)) = map place (mem (add_cell c s))" "list_all cell_ok (mem (add_cell c s))"
    using ok cell by (simp_all add: ledger_ok_def add_cell_def place_def)
  show ?thesis
  proof (cases "find (conflicts r lo hi key) (atom_spans s)")
    case None
    have e: "enter_cell c key s = (add_cell c s)\<lparr>atom_spans := atom_spans s @ [(r, lo, hi, key)]\<rparr>"
      using None by (simp add: enter_cell_def note_access_def rl hi_def add_cell_def)
    show ?thesis
    proof (cases "overlap_errors s = []")
      case True
      then have l: "list_all2 entry_of (mem s) (atom_spans s)" "sorted_wrt apart (mem s)" using ok by (simp_all add: ledger_ok_def)
      have "apart c' c" if c': "c' \<in> set (mem s)" for c'
      proof -
        obtain sp where "sp \<in> set (atom_spans s)" "entry_of c' sp"
          using l(1) c' by (metis in_set_conv_nth list_all2_conv_all_nth)
        then show ?thesis using no_conflict_apart [OF _ _ fp] None new [OF c'] unfolding find_None_iff by blast
      qed
      moreover have "entry_of c (r, lo, hi, key)" using key by (simp add: entry_of_def fp)
      ultimately show ?thesis using True l places unfolding e
        by (simp add: ledger_ok_def add_cell_def list_all2_appendI sorted_wrt_append)
    qed (use places in \<open>simp add: e ledger_ok_def add_cell_def\<close>)
  next
    case (Some sp)
    have "enter_cell c key s = push_error (overlap_message key r lo hi sp) (add_cell c s)"
      using Some by (simp add: enter_cell_def note_access_def rl hi_def add_cell_def)
    then show ?thesis using places by (simp add: ledger_ok_def push_error_def)
  qed
qed

lemma index_of_None: "index_of P xs = None \<Longrightarrow> x \<in> set xs \<Longrightarrow> \<not> P x"
  by (induction xs) (auto simp: index_of_def Let_def split: if_splits)

lemma alloc_ledger: "alloc_fresh_name s = (i, s') \<Longrightarrow> same_ledger s s' \<and> mem s' = mem s"
  by (auto simp: alloc_fresh_name_def same_ledger_def split: prod.splits)

text \<open>A cell is only added when the lookup of its rendering fails, so no plain cell has its key.\<close>

lemma lookup_no_key:
  assumes "lookup_cell_aliased b d w s = None" "c' \<in> set (mem s)" "mc_delta c' = 0"
  shows "(to_lean (addr_base c'), addr_off c', mc_width c') \<noteq> (to_lean b, d, w)"
  using assms index_of_None [of "\<lambda>c. cell_key c = (to_lean b, d, 0, w)" "mem s" c']
  by (auto simp: lookup_cell_aliased_def cell_key_def split: option.splits)

lemma fresh_cell_ok:
  assumes ok: "ledger_ok s" and d: "off_ok d" and miss: "lookup_cell_aliased b d w s = None"
  shows "ledger_ok (snd (fresh_cell b d w s))"
proof -
  obtain i s1 where a: "alloc_fresh_name s = (i, s1)" by fastforce
  define n where "n = ''oldMem'' @ w_short w @ ''_'' @ digits i"
  define c where "c = \<lparr>addr_base = b, addr_off = d, mc_width = w, mc_value = InitMem n, mc_delta = 0\<rparr>"
  let ?s2 = "case load_bound w of Some k \<Rightarrow> add_load_var (n, k) s1 | None \<Rightarrow> s1"
  have "same_ledger s1 ?s2" by (simp split: option.split)
  then have ok2: "ledger_ok ?s2" using same_ledger_ok [OF same_ledger_trans ok] alloc_ledger [OF a] by blast
  have m: "mem ?s2 = mem s" using alloc_ledger [OF a] by (simp add: add_load_var_def split: option.split)
  have new: "apart c' c" if "c' \<in> set (mem ?s2)" "keyed c' (plain_key c)" for c'
  proof -
    have p: "mc_delta c' = 0" "plain_key c' = plain_key c" using that(2) plain_not_hot by (auto simp: keyed_def)
    have "(to_lean (addr_base c'), addr_off c', mc_width c') = (to_lean b, d, w)"
      using plain_key_inj [OF p(2)] by (simp add: c_def)
    then show ?thesis using lookup_no_key [OF miss _ p(1)] that(1) m by simp
  qed
  have "ledger_ok (enter_cell c (plain_key c) ?s2)"
    by (rule enter_cell_ok [OF ok2 _ _ new]) (simp_all add: keyed_def cell_ok_def c_def d)
  then have "ledger_ok (push_access (Access b d w False None) (enter_cell c (plain_key c) ?s2))"
    by (rule same_ledger_ok [OF same_ledger_ops(1)])
  then show ?thesis unfolding fresh_cell_def a Let_def prod.case n_def [symmetric]
    by (simp add: enter_cell_def plain_key_def add_note_commute c_def)
qed

text \<open>Two demoted bytes with one key are on different roots or at different displacements.\<close>

lemma off_i64: "off_ok d \<Longrightarrow> 0 \<le> k \<Longrightarrow> k < 8 \<Longrightarrow> i64 (d + k)"
  by (auto simp: off_ok_def i64_def)

lemma bytes_apart:
  assumes "mc_width c = Byte" "mc_width c' = Byte" "cell_ok c" "cell_ok c'" "snd (canon_addr (addr_base c) (addr_off c + mc_delta c)) \<noteq>
     snd (canon_addr (addr_base c') (addr_off c' + mc_delta c'))"
  shows "apart c' c"
proof -
  obtain r lo where rl: "canon_addr (addr_base c) (addr_off c + mc_delta c) = (r, lo)" by fastforce
  obtain r' lo' where rl': "canon_addr (addr_base c') (addr_off c' + mc_delta c') = (r', lo')" by fastforce
  have i: "i64 lo" "i64 lo'" using assms(3,4) canon_addr_i64 [OF off_i64] rl rl' unfolding cell_ok_def by (metis snd_conv)+
  then have "wrap_i64 (lo + 1) \<le> lo + 1" "wrap_i64 (lo' + 1) \<le> lo' + 1" by (auto simp: i64_def wrap_suc)
  moreover have "lo \<noteq> lo'" using assms(5) rl rl' by simp
  ultimately show ?thesis using assms(1,2) rl rl' by (auto simp: apart_def footprint_def wbytes_def)
qed

lemma hot_slot_ok:
  assumes ok: "ledger_ok s" and d: "off_ok d" and k: "0 \<le> k" "k < 8" and h: "hot_slot b d k s = (i, s')"
  shows "ledger_ok s'"
proof -
  obtain root lo where rl: "canon_addr b d = (root, lo)" by fastforce
  let ?P = "\<lambda>c. mc_width c = Byte \<and> (let (cr, cd) = canon_addr (addr_base c) (addr_off c) in cr = root \<and> cd + mc_delta c = lo + k)"
  show "ledger_ok s'"
  proof (cases "index_of ?P (mem s)")
    case (Some j)
    have "same_ledger s s'" using h Some
      by (auto simp: hot_slot_def rl Let_def same_ledger_def bound_byte_var_def split: if_splits expr.splits)
    then show ?thesis using ok by (rule same_ledger_ok)
  next
    case None
    obtain j s1 where a: "alloc_fresh_name s = (j, s1)" by fastforce
    let ?n = "''oldMemB_'' @ digits j"
    define c where "c = \<lparr>addr_base = b, addr_off = d, mc_width = Byte, mc_value = InitMem ?n, mc_delta = k\<rparr>"
    let ?s2 = "add_load_var (?n, 8) s1"
    have ok2: "ledger_ok ?s2" using same_ledger_ok [OF same_ledger_trans [OF _ same_ledger_ops(3)] ok] alloc_ledger [OF a] by blast
    have m: "mem ?s2 = mem s" using alloc_ledger [OF a] by (simp add: add_load_var_def)
    have new: "apart c' c" if c': "c' \<in> set (mem ?s2)" "keyed c' (hot_key c)" for c'
    proof -
      have p: "mc_width c' = Byte" "hot_key c' = hot_key c" using c'(2) plain_not_hot by (auto simp: keyed_def) (metis plain_not_hot)+
      then have q: "addr_off c' = d" "mc_delta c' = k" using hot_key_inj [OF p(2)] by (simp_all add: c_def)
      have di: "i64 d" "i64 (d + k)" using off_i64 [OF d, of 0] off_i64 [OF d k] by auto
      have ok': "cell_ok c'" "cell_ok c" using ok2 c'(1) d k by (auto simp: ledger_ok_def list_all_iff c_def cell_ok_def)
      have "\<not> ?P c'" by (rule index_of_None [OF None]) (use c'(1) m in simp)
      then have "fst (canon_addr (addr_base c') d) \<noteq> root \<or> snd (canon_addr (addr_base c') d) \<noteq> lo"
        using p(1) q by (auto simp: Let_def split: prod.splits)
      then consider "fst (canon_addr (addr_base c') (d + k)) \<noteq> fst (canon_addr b (d + k))"
        | "snd (canon_addr (addr_base c') (d + k)) \<noteq> snd (canon_addr b (d + k))"
        using canon_addr_differ [OF di, of "addr_base c'" b] canon_addr_root [OF di, of "addr_base c'"] canon_addr_root [OF di, of b] rl
        by fastforce
      then show ?thesis
      proof cases
        case 1
        then show ?thesis using q by (auto simp: apart_def footprint_def c_def split: prod.split)
      next
        case 2
        then show ?thesis using bytes_apart [of c c'] ok' p(1) q by (simp add: c_def)
      qed
    qed
    have "ledger_ok (enter_cell c (hot_key c) ?s2)"
      by (rule enter_cell_ok [OF ok2 _ _ new]) (use d k in \<open>simp_all add: keyed_def cell_ok_def c_def\<close>)
    moreover have "s' = enter_cell c (hot_key c) ?s2"
      using h None by (simp add: hot_slot_def rl a enter_cell_def hot_key_def wbytes_def Let_def c_def)
    ultimately show ?thesis by simp
  qed
qed

lemma hot_store_ok: "ledger_ok s \<Longrightarrow> off_ok d \<Longrightarrow> \<forall>k \<in> set ks. k < 8 \<Longrightarrow> ledger_ok (foldl (hot_store_byte b d w) s ks)"
proof (induction ks arbitrary: s)
  case (Cons k ks)
  obtain i s1 where h: "hot_slot b d (int k) s = (i, s1)" by fastforce
  have "ledger_ok s1" by (rule hot_slot_ok [OF Cons.prems(1,2) _ _ h]) (use Cons.prems(3) in auto)
  then have "ledger_ok (hot_store_byte b d w s k)"
    using same_ledger_ok [OF same_ledger_set_cell] by (simp add: hot_store_byte_def h)
  then show ?case using Cons.IH Cons.prems by simp
qed simp

lemma hot_load_ok:
  "ledger_ok (snd acc) \<Longrightarrow> off_ok d \<Longrightarrow> \<forall>k \<in> set ks. k < 8 \<Longrightarrow> ledger_ok (snd (foldl (hot_load_byte b d) acc ks))"
proof (induction ks arbitrary: acc)
  case (Cons k ks)
  obtain vs s where acc: "acc = (vs, s)" by fastforce
  obtain i s1 where h: "hot_slot b d (int k) s = (i, s1)" by fastforce
  have "ledger_ok s1" by (rule hot_slot_ok [OF _ Cons.prems(2) _ _ h]) (use Cons.prems(1,3) acc in auto)
  then have "ledger_ok (snd (hot_load_byte b d acc k))" by (simp add: hot_load_byte_def acc h)
  then show ?case using Cons.IH Cons.prems by simp
qed simp

lemma same_ledger_touch: "same_ledger s (touch_cell b d w wr hit s)"
  by (cases hit) (auto simp: touch_cell_def Let_def push_access_def same_ledger_def)

lemma load_cell_ok: "ledger_ok s \<Longrightarrow> off_ok d \<Longrightarrow> ledger_ok (snd (load_cell b d w s))"
  using same_ledger_ok [OF same_ledger_touch] fresh_cell_ok by (simp add: load_cell_def split: option.split)

lemma read_hot_wide_ok: "ledger_ok s \<Longrightarrow> off_ok d \<Longrightarrow> ledger_ok (snd (read_hot_wide b d w s))"
proof (cases "w = Dword")
  case True
  assume ok: "ledger_ok s" "off_ok d"
  obtain vs s1 where f: "foldl (hot_load_byte b d) ([], s) [0..<8] = (vs, s1)" by fastforce
  have "ledger_ok s1" using hot_load_ok [of "([], s)" d "[0..<8]" b] ok f by (simp del: upt_Suc upt.simps)
  then show ?thesis using True f same_ledger_ok [OF same_ledger_ops(1)] by (simp add: read_hot_wide_def del: upt_Suc upt.simps)
next
  case False
  assume "ledger_ok s"
  then show ?thesis using False same_ledger_ok [OF same_ledger_ops(2)] by (simp add: read_hot_wide_def)
qed

lemma same_ledger_requests:
  "same_ledger s (request_demotion_on_conflict root lo n w s)" "same_ledger s (plan_tail_split root lo s)"
  by (auto simp: request_demotion_on_conflict_def plan_tail_split_def same_ledger_def split: prod.split option.split)

lemma read_reg_ledger: "read_reg r s = (b, s') \<Longrightarrow> ledger_ok s \<Longrightarrow> ledger_ok s'"
  using same_ledger_ok [OF same_ledger_first_touch [of s r]] read_reg_touch [of r s] by simp

lemma read_mem_ok:
  assumes ok: "ledger_ok s" and d: "off_ok d"
  shows "ledger_ok (snd (read_mem base d w s))"
proof -
  obtain b s0 where r: "read_reg base s = (b, s0)" by fastforce
  obtain root lo where rl: "canon_addr b d = (root, lo)" by fastforce
  let ?s1 = "if w = Dword then plan_tail_split root lo s0 else s0"
  have 0: "ledger_ok s0" by (rule read_reg_ledger [OF r ok])
  then have 1: "ledger_ok ?s1" using same_ledger_ok [OF same_ledger_requests(2)] by simp
  then have "ledger_ok (request_demotion_on_conflict root lo (wbytes w) w ?s1)" by (rule same_ledger_ok [OF same_ledger_requests(1)])
  then show ?thesis using 0 1 d r rl load_cell_ok read_hot_wide_ok by (simp add: read_mem_def Let_def)
qed

lemma store_cell_ok:
  assumes ok: "ledger_ok s" and d: "off_ok d"
  shows "ledger_ok (store_cell base b d w v s)"
proof -
  have "same_ledger s' (s'\<lparr>rr_walk := butlast (rr_walk s')\<rparr>)" for s' by (simp add: same_ledger_def)
  then have "ledger_ok (let s' = snd (read_mem base d w s) in s'\<lparr>rr_walk := butlast (rr_walk s')\<rparr>)"
    unfolding Let_def using same_ledger_ok read_mem_ok [OF ok d] by blast
  then have "ledger_ok (materialize base b d w s)" using ok by (simp add: materialize_def)
  then show ?thesis unfolding store_cell_def overwrite_cell_def
    using same_ledger_ok [OF same_ledger_touch same_ledger_ok [OF same_ledger_set_cell]] by (simp split: option.split)
qed

lemma write_mem_ok:
  assumes ok: "ledger_ok s" and d: "off_ok d"
  shows "ledger_ok (write_mem base d w v s)"
proof -
  obtain b s0 where r: "read_reg base s = (b, s0)" by fastforce
  obtain root lo where rl: "canon_addr b d = (root, lo)" by fastforce
  have 0: "ledger_ok s0" by (rule read_reg_ledger [OF r ok])
  have 1: "ledger_ok (request_demotion_on_conflict root lo (wbytes w) w s0)" by (rule same_ledger_ok [OF same_ledger_requests(1) 0])
  have 2: "ledger_ok (write_hot_word_imm b d i s0)" for i
    unfolding write_hot_word_imm_def by (rule same_ledger_ok [OF same_ledger_ops(1) hot_store_ok [OF 0 d]]) simp
  show ?thesis using 0 1 2 d r rl store_cell_ok same_ledger_ok [OF same_ledger_ops(2) 0]
    by (simp add: write_mem_def Let_def split: width.split expr.split)
qed

subsection \<open>What memory operations keep\<close>

definition frame_of :: "sym_state \<Rightarrow> (nat \<times> expr) list \<times> (nat \<times> expr) list \<times> (string \<times> (int \<times> int) list) list" where
  "frame_of s = (regs s, reg_atoms (pre s), hot_regions s)"

lemma frame_regs: "frame_of s = frame_of s' \<Longrightarrow> regs_ok s = regs_ok s'"
  by (simp add: frame_of_def regs_ok_def)

lemma frame_ops [simp]:
  "frame_of (push_access c s) = frame_of s" "frame_of (push_error e s) = frame_of s" "frame_of (add_load_var v s) = frame_of s"
  "frame_of (add_cell cell s) = frame_of s" "frame_of (set_cell i x s) = frame_of s" "frame_of (bound_byte_var x s) = frame_of s"
  "frame_of (request_demotion_on_conflict root lo n w s) = frame_of s" "frame_of (plan_tail_split root lo s) = frame_of s"
  "frame_of (record_side_hypothesis m q s) = frame_of s" "frame_of (record_branch bh s) = frame_of s"
  "frame_of (push_call_frame pc fr s) = frame_of s" "frame_of (s\<lparr>pending_slot_aliases := al\<rparr>) = frame_of s"
  "frame_of (s\<lparr>pending_alias := pa\<rparr>) = frame_of s" "frame_of (s\<lparr>rr_walk := rw\<rparr>) = frame_of s"
  by (auto simp: frame_of_def push_access_def push_error_def add_load_var_def add_cell_def set_cell_def
      bound_byte_var_def request_demotion_on_conflict_def plan_tail_split_def record_side_hypothesis_def
      record_branch_def push_call_frame_def Let_def split: prod.split option.split expr.split)

lemma frame_note [simp]: "frame_of (note_access b d l key s) = frame_of s"
  by (simp add: note_access_def Let_def split: prod.split option.split) (simp add: frame_of_def)

lemma frame_touch [simp]: "frame_of (touch_cell b d w wr hit s) = frame_of s"
  by (simp add: touch_cell_def Let_def split: prod.split)

lemma frame_alloc: "alloc_fresh_name s = (i, s') \<Longrightarrow> frame_of s' = frame_of s"
  by (auto simp: alloc_fresh_name_def frame_of_def split: prod.splits)

lemma frame_fresh [simp]: "frame_of (snd (fresh_cell b d w s)) = frame_of s"
  by (simp add: fresh_cell_def Let_def frame_alloc split: prod.split option.split)

lemma frame_hot_slot: "hot_slot b d k s = (i, s') \<Longrightarrow> frame_of s' = frame_of s"
  by (auto simp: hot_slot_def Let_def frame_alloc split: prod.splits option.splits if_splits)

lemma frame_hot_store [simp]: "frame_of (foldl (hot_store_byte b d w) s ks) = frame_of s"
proof (induction ks arbitrary: s)
  case (Cons k ks)
  obtain i s1 where "hot_slot b d (int k) s = (i, s1)" by fastforce
  then show ?case using Cons.IH frame_hot_slot by (simp add: hot_store_byte_def)
qed simp

lemma frame_hot_load [simp]: "frame_of (snd (foldl (hot_load_byte b d) acc ks)) = frame_of (snd acc)"
proof (induction ks arbitrary: acc)
  case (Cons k ks)
  obtain vs s where acc: "acc = (vs, s)" by fastforce
  obtain i s1 where "hot_slot b d (int k) s = (i, s1)" by fastforce
  then show ?case using Cons.IH frame_hot_slot by (simp add: hot_load_byte_def acc)
qed simp

lemma frame_load_cell [simp]: "frame_of (snd (load_cell b d w s)) = frame_of s"
  by (simp add: load_cell_def split: option.split)

lemma frame_read_hot_wide [simp]: "frame_of (snd (read_hot_wide b d w s)) = frame_of s"
proof -
  obtain vs s1 where "foldl (hot_load_byte b d) ([], s) [0..<8] = (vs, s1)" by fastforce
  then show ?thesis using frame_hot_load [of b d "([], s)" "[0..<8]"]
    by (simp add: read_hot_wide_def del: frame_hot_load upt_Suc upt.simps)
qed

text \<open>A memory read touches its base register and nothing else of the frame.\<close>

lemma frame_read_mem: "frame_of (snd (read_mem base d w s)) = frame_of (first_touch base s)"
proof -
  obtain b s0 where r: "read_reg base s = (b, s0)" by fastforce
  then have "s0 = first_touch base s" using read_reg_touch [of base s] by simp
  then show ?thesis using r by (simp add: read_mem_def Let_def split: prod.split)
qed

lemma frame_first_touch: "frame_of s = frame_of s' \<Longrightarrow> frame_of (first_touch r s) = frame_of (first_touch r s')"
  by (simp add: frame_of_def first_touch_def)

lemma first_touch_idem [simp]: "first_touch r (first_touch r s) = first_touch r s"
  by (simp add: first_touch_def)

lemma frame_materialize:
  "frame_of s = frame_of (first_touch base s0) \<Longrightarrow> frame_of (materialize base b d w s) = frame_of (first_touch base s0)"
  using frame_first_touch [of s "first_touch base s0" base] frame_read_mem [of base d w s] by (simp add: materialize_def Let_def)

lemma frame_store_cell:
  "frame_of s = frame_of (first_touch base s0) \<Longrightarrow> frame_of (store_cell base b d w v s) = frame_of (first_touch base s0)"
  by (simp add: store_cell_def overwrite_cell_def frame_materialize split: option.split)

lemma frame_write_mem: "frame_of (write_mem base d w v s) = frame_of (first_touch base s)"
proof -
  obtain b s0 where r: "read_reg base s = (b, s0)" by fastforce
  then have "s0 = first_touch base s" using read_reg_touch [of base s] by simp
  then show ?thesis using r
    by (simp add: write_mem_def write_hot_word_imm_def Let_def frame_store_cell split: prod.split width.split expr.split)
qed

lemma mem_regs: "regs_ok s \<Longrightarrow> regs_ok (snd (read_mem base d w s))" "regs_ok s \<Longrightarrow> regs_ok (write_mem base d w v s)"
  using first_touch_regs [of s base] frame_regs [OF frame_read_mem] frame_regs [OF frame_write_mem] by auto

subsection \<open>Reading back a store\<close>

lemma index_of_SomeD: "index_of P xs = Some i \<Longrightarrow> i < length xs \<and> P (xs ! i)"
  using nth_length_takeWhile [of "\<lambda>x. \<not> P x" xs] by (auto simp: index_of_def Let_def split: if_splits)

lemma index_of_ex: "x \<in> set xs \<Longrightarrow> P x \<Longrightarrow> index_of P xs \<noteq> None"
  by (induction xs) (auto simp: index_of_def Let_def split: if_splits)

lemma index_of_map: "index_of (\<lambda>x. Q (f x)) xs = index_of Q (map f xs)"
  by (simp add: index_of_def takeWhile_map comp_def Let_def)

lemma index_of_place:
  assumes "map place xs = map place ys" "\<And>c c'. place c = place c' \<Longrightarrow> P c = P c'"
  shows "index_of P xs = index_of P ys"
proof -
  have P: "P = (\<lambda>c. (\<exists>c'. place c' = place c \<and> P c'))" using assms(2) by blast
  show ?thesis by (subst (1 2) P) (simp only: index_of_map [where f = place and Q = "\<lambda>p. \<exists>c'. place c' = p \<and> P c'"] assms(1))
qed

text \<open>Lookups see the places of the cells, not their values.\<close>

lemma lookup_place: "map place (mem s') = map place (mem s) \<Longrightarrow> lookup_cell_aliased b d w s' = lookup_cell_aliased b d w s"
  unfolding lookup_cell_aliased_def
  by (intro arg_cong2 [where f = "\<lambda>a c. case a of Some i \<Rightarrow> Some (i, False) | None \<Rightarrow> c"] index_of_place)
     (auto simp: place_def cell_key_def split: prod.splits intro!: arg_cong [where f = "map_option _"] index_of_place)

lemma lookup_bound: "lookup_cell_aliased b d w s = Some hit \<Longrightarrow> fst hit < length (mem s)"
  by (auto simp: lookup_cell_aliased_def dest!: index_of_SomeD split: option.splits prod.splits)

lemma mem_touch [simp]: "mem (touch_cell b d w wr hit s) = mem s"
  by (auto simp: touch_cell_def push_access_def Let_def split: prod.split)

lemma mem_requests [simp]:
  "mem (request_demotion_on_conflict root lo n w s) = mem s" "mem (plan_tail_split root lo s) = mem s"
  by (auto simp: request_demotion_on_conflict_def plan_tail_split_def split: prod.split option.split)

lemma set_cell_places: "map place (mem (set_cell i v s)) = map place (mem s)"
  using same_ledger_set_cell by (simp add: same_ledger_def)

lemma fresh_cell_lookup: "lookup_cell_aliased b d w (snd (fresh_cell b d w s)) \<noteq> None"
proof -
  obtain i s1 where a: "alloc_fresh_name s = (i, s1)" by fastforce
  have n: "mem (note_access b' d' l key s') = mem s'" for b' d' l key s'
    by (auto simp: note_access_def push_error_def Let_def split: prod.split option.split)
  have "\<exists>c \<in> set (mem (snd (fresh_cell b d w s))). cell_key c = (to_lean b, d, 0, w)"
    by (auto simp: fresh_cell_def a Let_def push_access_def add_cell_def cell_key_def n)
  then obtain j where "index_of (\<lambda>c. cell_key c = (to_lean b, d, 0, w)) (mem (snd (fresh_cell b d w s))) = Some j"
    using index_of_ex [where P = "\<lambda>c. cell_key c = (to_lean b, d, 0, w)"] by blast
  then show ?thesis by (simp add: lookup_cell_aliased_def)
qed

lemma overwrite_then_load:
  assumes "lookup_cell_aliased b d w s \<noteq> None" "mem s' = mem (overwrite_cell b d w v s)"
  shows "fst (load_cell b d w s') = v"
proof -
  obtain hit where h: "lookup_cell_aliased b d w s = Some hit" using assms(1) by blast
  have m: "mem s' = mem (set_cell (fst hit) v s)" using assms(2) h by (simp add: overwrite_cell_def)
  then have "lookup_cell_aliased b d w s' = Some hit" using h lookup_place [of s' s] set_cell_places by simp
  then show ?thesis using m lookup_bound [OF h] by (simp add: load_cell_def set_cell_def)
qed

text \<open>Without hot regions on the root, every access goes to a cell of its own.\<close>

lemma hot_nil: "hot_of s root = [] \<Longrightarrow> \<not> hot_covers s root lo hi \<and> \<not> hot_intersects s root lo hi"
  by (simp add: hot_covers_def hot_intersects_def)

lemma hot_of_frame: "frame_of s = frame_of s' \<Longrightarrow> hot_of s root = hot_of s' root"
  by (simp add: frame_of_def hot_of_def)

lemma hot_of_first_touch [simp]: "hot_of (first_touch r s) root = hot_of s root"
  by (simp add: hot_of_def first_touch_def)

lemma read_reg_frame: "frame_of s' = frame_of (first_touch r s) \<Longrightarrow> read_reg r s' = (fst (read_reg r s), s')"
proof -
  assume f: "frame_of s' = frame_of (first_touch r s)"
  then have "map_of (regs s') r = Some (fst (read_reg r s))"
    by (auto simp: frame_of_def first_touch_def read_reg_def split: option.splits)
  then show ?thesis by (simp add: read_reg_def)
qed

text \<open>A read of a cold location: what precedes the cell lookup leaves the cells alone.\<close>

lemma read_mem_cold:
  assumes f: "frame_of s' = frame_of (first_touch base s)" and cold: "hot_of s (fst (canon_addr (fst (read_reg base s)) d)) = []"
  shows "\<exists>t. read_mem base d w s' = load_cell (fst (read_reg base s)) d w t \<and> mem t = mem s'"
proof -
  obtain root lo where rl: "canon_addr (fst (read_reg base s)) d = (root, lo)" by fastforce
  let ?s1 = "if w = Dword then plan_tail_split root lo s' else s'"
  have "hot_of ?s1 root = []" using cold hot_of_frame [of ?s1 "first_touch base s"] f by (simp add: rl)
  then have "\<not> hot_covers ?s1 root lo hi" for hi using hot_nil by blast
  then have "read_mem base d w s' = (if wbytes w > 1
      then load_cell (fst (read_reg base s)) d w (request_demotion_on_conflict root lo (wbytes w) w ?s1)
      else load_cell (fst (read_reg base s)) d w s')"
    using read_reg_frame [OF f] rl by (simp add: read_mem_def Let_def)
  moreover have "mem (request_demotion_on_conflict root lo (wbytes w) w ?s1) = mem s'" by simp
  ultimately show ?thesis by (cases "wbytes w > 1") auto
qed

lemma materialize_lookup:
  assumes f: "frame_of s' = frame_of (first_touch base s)" and cold: "hot_of s (fst (canon_addr (fst (read_reg base s)) d)) = []"
  shows "lookup_cell_aliased (fst (read_reg base s)) d w (materialize base (fst (read_reg base s)) d w s') \<noteq> None"
proof (cases "lookup_cell_aliased (fst (read_reg base s)) d w s'")
  case None
  let ?b = "fst (read_reg base s)"
  obtain t where t: "read_mem base d w s' = load_cell ?b d w t" "mem t = mem s'" using read_mem_cold [OF f cold] by blast
  have "lookup_cell_aliased ?b d w t = None" using None lookup_place [of t s'] t(2) by simp
  then have r: "read_mem base d w s' = fresh_cell ?b d w t" using t(1) by (simp add: load_cell_def)
  have "lookup_cell_aliased ?b d w (materialize base ?b d w s') = lookup_cell_aliased ?b d w (snd (fresh_cell ?b d w t))"
    by (rule lookup_place) (simp add: materialize_def None r Let_def)
  then show ?thesis using fresh_cell_lookup by simp
qed (simp add: materialize_def)

lemma write_mem_cold:
  assumes cold: "hot_of s (fst (canon_addr (fst (read_reg base s)) d)) = []"
  shows "\<exists>t. frame_of t = frame_of (first_touch base s) \<and> write_mem base d w v s = store_cell base (fst (read_reg base s)) d w v t"
proof -
  obtain root lo where rl: "canon_addr (fst (read_reg base s)) d = (root, lo)" by fastforce
  have r: "read_reg base s = (fst (read_reg base s), first_touch base s)" using read_reg_touch by (metis prod.collapse)
  let ?s0 = "first_touch base s"
  let ?s1 = "request_demotion_on_conflict root lo (wbytes w) w ?s0"
  have "hot_of ?s0 root = []" "hot_of ?s1 root = []" using cold hot_of_frame [of ?s1 ?s0] by (simp_all add: rl)
  then have h: "\<not> hot_covers ?s0 root lo hi" "\<not> hot_intersects ?s1 root lo hi" for hi using hot_nil by blast+
  have "write_mem base d w v s = (if wbytes w > 1 then store_cell base (fst (read_reg base s)) d w v ?s1
      else store_cell base (fst (read_reg base s)) d w v ?s0)"
    unfolding write_mem_def by (subst r) (simp add: rl h Let_def)
  moreover have "frame_of ?s1 = frame_of ?s0" by simp
  ultimately show ?thesis by (metis (full_types))
qed

subsection \<open>Properties\<close>

text \<open>Fresh names are used once: along any run of the allocator no index is handed out twice, indices
  still reserved are new, and reservations are consumed in the order they were made.\<close>

theorem fresh_names_unique:
  assumes "name_run f out"
  shows "distinct (out @ fn_reserved f) \<and> sorted (fn_reserved f) \<and> fst (allocate f) \<notin> set out \<and>
    (fn_reserved f \<noteq> [] \<longrightarrow> allocate f = (hd (fn_reserved f), f\<lparr>fn_reserved := tl (fn_reserved f)\<rparr>))"
  using name_run_inv [OF assms] by (cases "fn_reserved f") (auto simp: allocate_def)

theorem fresh_names_unique_witness:
  "name_run \<lparr>fn_next = 2, fn_reserved = [1]\<rparr> [0] \<and> fst (allocate \<lparr>fn_next = 2, fn_reserved = [1]\<rparr>) \<notin> set [0]"
proof -
  have "name_run (snd (allocate (snd (reserve (snd (reserve \<lparr>fn_next = 0, fn_reserved = []\<rparr>))))))
     ([] @ [fst (allocate (snd (reserve (snd (reserve \<lparr>fn_next = 0, fn_reserved = []\<rparr>)))))])"
    by (intro name_run.intros)
  then have "name_run \<lparr>fn_next = 2, fn_reserved = [1]\<rparr> [0]" by (simp add: reserve_def allocate_def numeral_2_eq_2)
  then show ?thesis using fresh_names_unique by blast
qed

text \<open>C36: A store is read back: on a root without byte-demoted regions, a load of the width and address just
  stored returns the stored expression, also when the cell is reached under another rendering.\<close>

theorem read_after_write:
  assumes "hot_of s (fst (canon_addr (fst (read_reg base s)) d)) = []"
  shows "fst (read_mem base d w (write_mem base d w v s)) = v"
proof -
  let ?b = "fst (read_reg base s)"
  obtain t where t: "frame_of t = frame_of (first_touch base s)" "write_mem base d w v s = store_cell base ?b d w v t"
    using write_mem_cold [OF assms] by blast
  obtain u where u: "read_mem base d w (write_mem base d w v s) = load_cell ?b d w u" "mem u = mem (write_mem base d w v s)"
    using read_mem_cold [OF frame_write_mem assms] by blast
  have "mem u = mem (overwrite_cell ?b d w v (materialize base ?b d w t))" using u(2) t(2) by (simp add: store_cell_def)
  then show ?thesis using overwrite_then_load [OF materialize_lookup [OF t(1) assms]] u(1) by simp
qed

theorem read_after_write_witness:
  "fst (read_mem 1 8 Dword (write_mem 1 8 Dword (InitReg ''vR2Old'') (with_retry_plans [] []))) = InitReg ''vR2Old''"
  by (rule read_after_write) (simp add: hot_of_def with_retry_plans_def)

end
