(* ===== verification/Sym_Step.thy ===== *)
theory Sym_Step
  imports Sym_State
begin

text \<open>
  One symbolic step of the lifter (\<open>qedlift/src/exec/step.rs\<close>): the data effect of a non-terminal
  instruction on the symbolic state.  The arms that share a body are one definition over the instruction
  shape; a 32-bit jump is taken before the table, as the guard of its arm does.  The terms the arms build
  are compared with the machine of \<open>SVM/SBPF/Execute.lean\<close>.
\<close>

subsection \<open>Rendered operations\<close>

definition arsh_render :: "string \<Rightarrow> string \<Rightarrow> nat \<Rightarrow> string" where
  "arsh_render v sh bits =
     (let m = (if bits = 64 then ''U64_MODULUS'' else ''U32_MODULUS'');
          negative = '' >>> shift; let highBits := ('' @ m @ '' - 1) - ('' @ m @ '' / (2 ^ shift) - 1); (shifted ||| highBits) % '' @ m @ ''))''
      in if bits = 64
         then ''(let shift := '' @ sh @ '' % 64; if '' @ v @ '' < '' @ m @ '' / 2 then '' @ v @
              '' >>> shift else (let shifted := '' @ v @ negative
         else ''(let shift := '' @ sh @ '' % 32; let a := '' @ v @ '' % '' @ m @ ''; if a < '' @ m @
              '' / 2 then a >>> shift else (let shifted := a'' @ negative)"

definition arsh_value :: "u64 \<Rightarrow> u64 \<Rightarrow> nat \<Rightarrow> u64" where
  "arsh_value x sh bits =
     (if bits = 64 then word_of_int (drop_bit (unat sh mod 64) (sint x))
      else ucast (word_of_int (drop_bit (unat sh mod 32) (sint (ucast x :: u32))) :: u32))"

text \<open>A term with its value when the operands are closed.\<close>

definition raw_value :: "string \<Rightarrow> u64 option \<Rightarrow> expr" where
  "raw_value r v = (case v of Some x \<Rightarrow> RawConst r x | None \<Rightarrow> Raw r)"

definition closed2 :: "expr \<Rightarrow> expr \<Rightarrow> (u64 \<Rightarrow> u64 \<Rightarrow> u64) \<Rightarrow> u64 option" where
  "closed2 a b f = bind2 (eval_expr a []) (eval_expr b []) (\<lambda>x y. Some (f x y))"

abbreviation mod64 :: string where "mod64 \<equiv> '' % U64_MODULUS''"
abbreviation mod32 :: string where "mod32 \<equiv> '' % U32_MODULUS''"

text \<open>\<open>OR64_REG | AND64_REG | XOR64_REG | LSH64_REG | RSH64_REG\<close>.\<close>

definition bits64_reg :: "alu_op \<Rightarrow> expr \<Rightarrow> expr \<Rightarrow> expr" where
  "bits64_reg op a b =
     (let x = atom_lean a; y = atom_lean b in case op of
        Or \<Rightarrow> raw_value (paren (x @ '' ||| '' @ y) @ mod64) (closed2 a b (OR))
      | And \<Rightarrow> raw_value (paren (x @ '' &&& '' @ y) @ mod64) (closed2 a b (AND))
      | Xor \<Rightarrow> raw_value (paren (x @ '' ^^^ '' @ y) @ mod64) (closed2 a b (XOR))
      | Lsh \<Rightarrow> raw_value (paren (x @ '' <<< ('' @ y @ '' % 64)'') @ mod64) (closed2 a b (\<lambda>v s. push_bit (unat s mod 64) v))
      | _ \<Rightarrow> raw_value (x @ '' >>> ('' @ y @ '' % 64)'') (closed2 a b (\<lambda>v s. drop_bit (unat s mod 64) v)))"

text \<open>\<open>OR64_IMM | XOR64_IMM | MUL64_IMM | DIV64_IMM | MOD64_IMM\<close> and \<open>NEG64\<close>; division by zero is the natural one.\<close>

definition raw64_imm :: "alu_op \<Rightarrow> expr \<Rightarrow> int \<Rightarrow> expr" where
  "raw64_imm op a i =
     (let x = atom_lean a; k = ''toU64 '' @ lean_off i; v = eval_expr a []; iv = word_of_int i :: u64 in case op of
        Or \<Rightarrow> raw_value (paren (x @ '' ||| '' @ k) @ mod64) (map_option (\<lambda>x. x OR iv) v)
      | Xor \<Rightarrow> raw_value (paren (x @ '' ^^^ '' @ k) @ mod64) (map_option (\<lambda>x. x XOR iv) v)
      | Mul \<Rightarrow> raw_value (''wrapMul '' @ x @ '' '' @ paren k) (map_option (\<lambda>x. x * iv) v)
      | Div \<Rightarrow> raw_value (paren (x @ '' / '' @ k) @ mod64) (map_option (\<lambda>x. if iv = 0 then 0 else x div iv) v)
      | _ \<Rightarrow> raw_value (x @ '' % '' @ k) (map_option (\<lambda>x. rem64 x iv) v))"

definition neg64_expr :: "expr \<Rightarrow> expr" where
  "neg64_expr a = raw_value (''wrapNeg '' @ atom_lean a) (map_option (\<lambda>x. - x) (eval_expr a []))"

definition swap_bytes :: "nat \<Rightarrow> u64 \<Rightarrow> u64" where
  "swap_bytes n x = word_of_nat (from_le (rev (le_bytes n (unat x))))"

definition endian_expr :: "expr \<Rightarrow> int \<Rightarrow> bool \<Rightarrow> expr" where
  "endian_expr a i big =
     raw_value (''endianValue '' @ atom_lean a @ '' '' @ show_int i @ (if big then '' true'' else '' false''))
       (map_option (\<lambda>x.
          if i = 16 \<and> \<not> big then x AND 0xFFFF
          else if i = 32 \<and> \<not> big then x AND 0xFFFFFFFF
          else if i = 16 \<and> big then swap_bytes 2 x
          else if i = 32 \<and> big then swap_bytes 4 x
          else if big then swap_bytes 8 x
          else x) (eval_expr a []))"

definition arsh_imm_expr :: "nat \<Rightarrow> expr \<Rightarrow> int \<Rightarrow> expr" where
  "arsh_imm_expr bits a i = raw_value (arsh_render (atom_lean a) (''toU64 '' @ lean_off i) bits)
     (map_option (\<lambda>x. arsh_value x (word_of_int i) bits) (eval_expr a []))"

definition arsh_reg_expr :: "nat \<Rightarrow> expr \<Rightarrow> expr \<Rightarrow> expr" where
  "arsh_reg_expr bits a b = raw_value (arsh_render (atom_lean a) (atom_lean b) bits)
     (closed2 a b (\<lambda>x s. arsh_value x s bits))"

text \<open>The 32-bit operations of the immediate and of the register form: text only.\<close>

definition alu32_imm_text :: "alu_op \<Rightarrow> string \<Rightarrow> string \<Rightarrow> string" where
  "alu32_imm_text op a k = (case op of
      Add \<Rightarrow> ''wrapAdd32 '' @ a @ '' '' @ paren k
    | Sub \<Rightarrow> ''wrapSub32 '' @ a @ '' '' @ paren k
    | Mul \<Rightarrow> ''wrapMul32 '' @ a @ '' '' @ paren k
    | Or \<Rightarrow> paren (a @ '' ||| '' @ k) @ mod32
    | And \<Rightarrow> paren (a @ '' &&& '' @ k) @ mod32
    | Xor \<Rightarrow> paren (a @ '' ^^^ '' @ k) @ mod32
    | Lsh \<Rightarrow> paren (a @ '' <<< '' @ paren (k @ '' % 32'')) @ mod32
    | Rsh \<Rightarrow> paren (a @ mod32) @ '' >>> '' @ paren (k @ '' % 32'')
    | Mov \<Rightarrow> k @ mod32
    | Div \<Rightarrow> paren (a @ mod32 @ '' / '' @ paren (k @ mod32)) @ mod32
    | _ \<Rightarrow> a @ mod32 @ '' % '' @ paren (k @ mod32))"

definition alu32_reg_text :: "alu_op \<Rightarrow> string \<Rightarrow> string \<Rightarrow> string" where
  "alu32_reg_text op a b = (case op of
      Add \<Rightarrow> ''wrapAdd32 '' @ a @ '' '' @ b
    | Sub \<Rightarrow> ''wrapSub32 '' @ a @ '' '' @ b
    | Mul \<Rightarrow> ''wrapMul32 '' @ a @ '' '' @ b
    | Or \<Rightarrow> paren (a @ '' ||| '' @ b) @ mod32
    | And \<Rightarrow> paren (a @ '' &&& '' @ b) @ mod32
    | Xor \<Rightarrow> paren (a @ '' ^^^ '' @ b) @ mod32
    | Lsh \<Rightarrow> paren (a @ '' <<< '' @ paren (b @ '' % 32'')) @ mod32
    | Rsh \<Rightarrow> paren (a @ mod32) @ '' >>> '' @ paren (b @ '' % 32'')
    | _ \<Rightarrow> b @ mod32)"

text \<open>\<open>DIV64_REG | MOD64_REG | DIV32_REG | MOD32_REG\<close>: the term and the divisor's side condition.\<close>

definition div_text :: "bool \<Rightarrow> alu_op \<Rightarrow> string \<Rightarrow> string \<Rightarrow> string" where
  "div_text wide op a b = (case (wide, op) of
      (True, Div) \<Rightarrow> paren (a @ '' / '' @ b) @ mod64
    | (True, _) \<Rightarrow> a @ '' % '' @ b
    | (False, Div) \<Rightarrow> paren (a @ mod32 @ '' / '' @ paren (b @ mod32)) @ mod32
    | (False, _) \<Rightarrow> a @ mod32 @ '' % '' @ paren (b @ mod32))"

definition nonzero_text :: "bool \<Rightarrow> string \<Rightarrow> string" where
  "nonzero_text wide b = (if wide then b else b @ mod32) @ '' '' @ ne_sign @ '' 0''"

subsection \<open>Effects\<close>

definition pc_name :: "string \<Rightarrow> nat option \<Rightarrow> string" where
  "pc_name p pc = p @ digits (case pc of Some n \<Rightarrow> n | None \<Rightarrow> 0)"

text \<open>Reading a register and writing a function of its value.\<close>

definition update_reg :: "nat \<Rightarrow> (expr \<Rightarrow> expr) \<Rightarrow> sym_state \<Rightarrow> sym_state" where
  "update_reg d f s = (let (a, s1) = read_reg d s in write_reg d (f a) s1)"

definition update_reg2 :: "nat \<Rightarrow> nat \<Rightarrow> (expr \<Rightarrow> expr \<Rightarrow> expr) \<Rightarrow> sym_state \<Rightarrow> sym_state" where
  "update_reg2 d r f s = (let (a, s1) = read_reg d s; (b, s2) = read_reg r s1 in write_reg d (f a b) s2)"

definition needs_bound :: "width \<Rightarrow> expr \<Rightarrow> bool" where
  "needs_bound w raw = (case raw of InitMem _ \<Rightarrow> False | ByteCombo _ \<Rightarrow> w \<noteq> Dword | _ \<Rightarrow> True)"

definition step_load :: "width \<Rightarrow> insn \<Rightarrow> nat option \<Rightarrow> sym_state \<Rightarrow> sym_state" where
  "step_load w i pc s =
     (let (raw, s1) = read_mem (unat (src i)) (off i) w s in
      case load_bound w of
        None \<Rightarrow> write_reg (unat (dst i)) (Mod_u raw 256) s1
      | Some bits \<Rightarrow> write_reg (unat (dst i)) raw
          (if needs_bound w raw
           then record_side_hypothesis (pc_name ''hReloadLt_'' pc) (to_lean raw @ '' < 2 ^ '' @ digits bits) s1 else s1))"

definition step_store_reg :: "width \<Rightarrow> insn \<Rightarrow> sym_state \<Rightarrow> sym_state" where
  "step_store_reg w i s =
     (let (cur, s1) = read_reg (unat (src i)) s in
      write_mem (unat (dst i)) (off i) w (if w = Byte then Mod_u cur 256 else cur) s1)"

definition step_store_imm :: "width \<Rightarrow> insn \<Rightarrow> sym_state \<Rightarrow> sym_state" where
  "step_store_imm w i s = write_mem (unat (dst i)) (off i) w
     (case w of Byte \<Rightarrow> Mod_u (ToU64 (Const (imm i))) 256 | Half \<Rightarrow> StHalfImm (imm i)
        | Word_w \<Rightarrow> StWordImm (imm i) | Dword \<Rightarrow> StDwordImm (imm i)) s"

definition alu64_imm_expr :: "alu_op \<Rightarrow> int \<Rightarrow> expr \<Rightarrow> expr" where
  "alu64_imm_expr op i a = (case op of
      Add \<Rightarrow> WrapAdd a (ToU64 (Const i)) | Sub \<Rightarrow> WrapSub a (ToU64 (Const i))
    | And \<Rightarrow> AndU64Imm a i | Lsh \<Rightarrow> LshU64Imm a i | Rsh \<Rightarrow> RshU64Imm a i
    | Mov \<Rightarrow> ToU64 (Const i) | Arsh \<Rightarrow> arsh_imm_expr 64 a i
    | _ \<Rightarrow> raw64_imm op a i)"

definition alu64_reg_expr :: "alu_op \<Rightarrow> expr \<Rightarrow> expr \<Rightarrow> expr" where
  "alu64_reg_expr op a b = (case op of
      Add \<Rightarrow> WrapAdd a b | Sub \<Rightarrow> WrapSub a b | Mul \<Rightarrow> WrapMul a b
    | Arsh \<Rightarrow> arsh_reg_expr 64 a b
    | _ \<Rightarrow> bits64_reg op a b)"

definition step_div :: "bool \<Rightarrow> alu_op \<Rightarrow> insn \<Rightarrow> nat option \<Rightarrow> sym_state \<Rightarrow> sym_state" where
  "step_div wide op i pc s =
     (let (a, s1) = read_reg (unat (dst i)) s; (b, s2) = read_reg (unat (src i)) s1 in
      write_reg (unat (dst i)) (Raw (div_text wide op (atom_lean a) (atom_lean b)))
        (record_side_hypothesis (pc_name ''hnz_'' pc) (nonzero_text wide (atom_lean b)) s2))"

definition step_alu64 :: "alu_op \<Rightarrow> bool \<Rightarrow> insn \<Rightarrow> nat option \<Rightarrow> sym_state \<Rightarrow> sym_state" where
  "step_alu64 op is_reg i pc s =
     (let d = unat (dst i); r = unat (src i) in
      if \<not> is_reg then
        (if op = Mov then write_reg d (ToU64 (Const (imm i))) s else update_reg d (alu64_imm_expr op (imm i)) s)
      else if op = Mov then (let (v, s1) = read_reg r s in write_reg d v s1)
      else if op = Div \<or> op = Mod then step_div True op i pc s
      else update_reg2 d r (alu64_reg_expr op) s)"

definition step_alu32 :: "alu_op \<Rightarrow> bool \<Rightarrow> insn \<Rightarrow> nat option \<Rightarrow> sym_state \<Rightarrow> sym_state" where
  "step_alu32 op is_reg i pc s =
     (let d = unat (dst i); r = unat (src i) in
      if \<not> is_reg then
        update_reg d (\<lambda>a. if op = Arsh then arsh_imm_expr 32 a (imm i)
          else Raw (alu32_imm_text op (atom_lean a) (''toU64 '' @ lean_off (imm i)))) s
      else if op = Div \<or> op = Mod then step_div False op i pc s
      else update_reg2 d r (\<lambda>a b. if op = Arsh then arsh_reg_expr 32 a b
             else Raw (alu32_reg_text op (atom_lean a) (atom_lean b))) s)"

definition jump_kind :: "cond \<Rightarrow> bool \<Rightarrow> branch_kind" where
  "jump_kind c is_reg = (case c of
      Eq \<Rightarrow> if is_reg then JeqReg else JeqImm | Ne \<Rightarrow> if is_reg then JneReg else JneImm
    | Gt \<Rightarrow> if is_reg then JgtReg else JgtImm | Ge \<Rightarrow> if is_reg then JgeReg else JgeImm
    | Lt \<Rightarrow> if is_reg then JltReg else JltImm | Le \<Rightarrow> if is_reg then JleReg else JleImm
    | Sgt \<Rightarrow> if is_reg then JsgtReg else JsgtImm | Sge \<Rightarrow> if is_reg then JsgeReg else JsgeImm
    | Slt \<Rightarrow> if is_reg then JsltReg else JsltImm | Sle \<Rightarrow> if is_reg then JsleReg else JsleImm
    | Set_c \<Rightarrow> if is_reg then JsetReg else JsetImm)"

text \<open>A register form of a 64-bit jump records immediate 0; a 32-bit jump keeps the instruction's.\<close>

definition step_jump :: "branch_kind \<Rightarrow> bool \<Rightarrow> int \<Rightarrow> insn \<Rightarrow> bool option \<Rightarrow> sym_state \<Rightarrow> sym_state" where
  "step_jump k is_reg im i tk s =
     (let (d, s1) = read_reg (unat (dst i)) s;
          (so, s2) = (if is_reg then (let (v, s') = read_reg (unat (src i)) s1 in (Some v, s')) else (None, s1)) in
      record_branch \<lparr>bh_kind = k, dst_value = d, src_value = so, bh_imm = im,
        taken = (case tk of Some b \<Rightarrow> b | None \<Rightarrow> False)\<rparr> s2)"

definition step_call :: "nat option \<Rightarrow> sym_state \<Rightarrow> sym_state" where
  "step_call pc s =
     (let (r6, s1) = read_reg 6 s; (r7, s2) = read_reg 7 s1; (r8, s3) = read_reg 8 s2; (r9, s4) = read_reg 9 s3;
          (r10, s5) = read_reg 10 s4 in
      push_call_frame (case pc of Some n \<Rightarrow> n | None \<Rightarrow> 0) [r6, r7, r8, r9, r10]
        (write_reg 10 (NatAdd r10 (Const 0x1000)) s5))"

definition step :: "sym_state \<Rightarrow> insn \<Rightarrow> nat option \<Rightarrow> bool option \<Rightarrow> (diagnostic_kind, sym_state) res" where
  "step s i pc tk =
     (case (if insn_class (opc i) = BPF_JMP32 then jmp32_cond (opc i) else None) of
        Some c \<Rightarrow> Ok (step_jump (Jmp32_k c) (x_set (opc i)) (imm i) i tk s)
      | None \<Rightarrow>
          (case map_of insn_table (opc i) of
             Some (SLdx w) \<Rightarrow> Ok (step_load w i pc s)
           | Some (SStx w) \<Rightarrow> Ok (step_store_reg w i s)
           | Some (SSt w) \<Rightarrow> Ok (step_store_imm w i s)
           | Some SLddw \<Rightarrow> Ok (write_reg (unat (dst i)) (ToU64 (Const (imm i))) s)
           | Some (SAlu64 op r) \<Rightarrow> Ok (step_alu64 op r i pc s)
           | Some SNeg64 \<Rightarrow> Ok (update_reg (unat (dst i)) neg64_expr s)
           | Some (SAlu32 op r) \<Rightarrow> Ok (step_alu32 op r i pc s)
           | Some SNeg32 \<Rightarrow> Ok (update_reg (unat (dst i)) (\<lambda>a. Raw (''wrapNeg32 '' @ atom_lean a)) s)
           | Some (SEndian big) \<Rightarrow> Ok (update_reg (unat (dst i)) (\<lambda>a. endian_expr a (imm i) big) s)
           | Some (SJcc c r) \<Rightarrow> Ok (step_jump (jump_kind c r) r (if r then 0 else imm i) i tk s)
           | Some SJa \<Rightarrow> Ok s
           | Some SCallImm \<Rightarrow> Ok (step_call pc s)
           | Some SCallReg \<Rightarrow> Ok (step_call pc s)
           | _ \<Rightarrow> Err OpcodeUnmodeled))"

subsection \<open>What a step keeps\<close>

text \<open>Every effect but a memory access leaves the ledger alone and keeps the register file well-formed.\<close>

definition keeps :: "sym_state \<Rightarrow> sym_state \<Rightarrow> bool" where
  "keeps s s' \<longleftrightarrow> same_ledger s s' \<and> (regs_ok s \<longrightarrow> regs_ok s')"

lemma keeps_refl: "keeps s s"
  by (simp add: keeps_def)

lemma keeps_then: "keeps s t \<Longrightarrow> same_ledger t u \<Longrightarrow> (regs_ok t \<Longrightarrow> regs_ok u) \<Longrightarrow> keeps s u"
  unfolding keeps_def using same_ledger_trans by blast

lemma keeps_ops:
  "keeps s t \<Longrightarrow> keeps s (write_reg r v t)" "keeps s t \<Longrightarrow> keeps s (first_touch r t)"
  "keeps s t \<Longrightarrow> keeps s (record_side_hypothesis n p t)" "keeps s t \<Longrightarrow> keeps s (record_branch bh t)"
  "keeps s t \<Longrightarrow> keeps s (push_call_frame pc fr t)"
  by (erule keeps_then; simp add: write_reg_regs first_touch_regs same_ledger_first_touch frame_regs [OF frame_ops(9)]
      frame_regs [OF frame_ops(10)] frame_regs [OF frame_ops(11)])+

lemmas effect_defs = update_reg_def update_reg2_def step_div_def step_alu64_def step_alu32_def step_jump_def step_call_def Let_def
  case_prod_beta read_reg_touch

lemma keeps_effects:
  "keeps s (update_reg d f s)" "keeps s (step_alu64 op r i pc s)" "keeps s (step_alu32 op r i pc s)"
  "keeps s (step_jump k r im i tk s)" "keeps s (step_call pc s)"
  by (simp_all add: effect_defs keeps_refl keeps_ops)

lemma keeps_regs: "keeps s s' \<Longrightarrow> regs_ok s \<Longrightarrow> regs_ok s'" and keeps_ledger: "keeps s s' \<Longrightarrow> ledger_ok s \<Longrightarrow> ledger_ok s'"
  using same_ledger_ok by (auto simp: keeps_def)

text \<open>The memory steps are an access and bookkeeping around it.\<close>

lemma step_load_read: "keeps (snd (read_mem (unat (src i)) (off i) w s)) (step_load w i pc s)"
  by (simp add: step_load_def case_prod_beta keeps_refl keeps_ops split: option.split)

lemma step_store_write:
  "\<exists>v s1. keeps s s1 \<and> step_store_reg w i s = write_mem (unat (dst i)) (off i) w v s1"
  unfolding step_store_reg_def case_prod_beta Let_def read_reg_touch using keeps_ops(2) [OF keeps_refl] by blast

lemma step_regs:
  assumes "step s i pc tk = Ok s'" "regs_ok s"
  shows "regs_ok s'"
proof -
  have "regs_ok (step_store_reg w i s)" for w using step_store_write [of s w i] assms(2) keeps_regs mem_regs(2) by metis
  moreover have "regs_ok (step_load w i pc s)" for w using keeps_regs [OF step_load_read] mem_regs(1) [OF assms(2)] by blast
  moreover have "regs_ok (step_store_imm w i s)" for w using mem_regs(2) [OF assms(2)] by (simp add: step_store_imm_def)
  ultimately show ?thesis using assms keeps_regs [OF _ assms(2)] keeps_effects keeps_ops(1) [OF keeps_refl]
    by (auto simp: step_def split: option.splits shape.splits)
qed

lemma step_ledger:
  assumes "step s i pc tk = Ok s'" "ledger_ok s" "off_ok (off i)"
  shows "ledger_ok s'"
proof -
  have "ledger_ok (step_store_reg w i s)" for w
    using step_store_write [of s w i] assms(2,3) keeps_ledger write_mem_ok by metis
  moreover have "ledger_ok (step_load w i pc s)" for w using keeps_ledger [OF step_load_read] read_mem_ok [OF assms(2,3)] by blast
  moreover have "ledger_ok (step_store_imm w i s)" for w using write_mem_ok [OF assms(2,3)] by (simp add: step_store_imm_def)
  ultimately show ?thesis using assms(1) keeps_ledger [OF _ assms(2)] keeps_effects keeps_ops(1) [OF keeps_refl] assms(2)
    by (auto simp: step_def split: option.splits shape.splits)
qed

subsection \<open>The machine's arithmetic\<close>

text \<open>\<open>execInsn\<close> of \<open>Execute.lean\<close> on naturals; no result is a divide-by-zero fault.\<close>

definition lean_arsh :: "nat \<Rightarrow> nat \<Rightarrow> nat \<Rightarrow> nat" where
  "lean_arsh bits a s =
     (let m = 2 ^ bits; shift = s mod bits in
      if a < m div 2 then drop_bit shift a
      else (drop_bit shift a OR ((m - 1) - (m div 2 ^ shift - 1))) mod m)"

definition lean_alu64 :: "alu_op \<Rightarrow> nat \<Rightarrow> nat \<Rightarrow> nat option" where
  "lean_alu64 op a b = (case op of
      Add \<Rightarrow> Some ((a + b) mod 2 ^ 64)
    | Sub \<Rightarrow> Some ((a + 2 ^ 64 - b mod 2 ^ 64) mod 2 ^ 64)
    | Mul \<Rightarrow> Some ((a * b) mod 2 ^ 64)
    | Div \<Rightarrow> if b = 0 then None else Some (a div b mod 2 ^ 64)
    | Mod \<Rightarrow> if b = 0 then None else Some (a mod b)
    | Or \<Rightarrow> Some ((a OR b) mod 2 ^ 64)
    | And \<Rightarrow> Some ((a AND b) mod 2 ^ 64)
    | Xor \<Rightarrow> Some ((a XOR b) mod 2 ^ 64)
    | Lsh \<Rightarrow> Some (push_bit (b mod 64) a mod 2 ^ 64)
    | Rsh \<Rightarrow> Some (drop_bit (b mod 64) a)
    | Arsh \<Rightarrow> Some (lean_arsh 64 a b)
    | Mov \<Rightarrow> Some b)"

definition lean_neg64 :: "nat \<Rightarrow> nat" where
  "lean_neg64 a = (2 ^ 64 - a mod 2 ^ 64) mod 2 ^ 64"

definition lean_endian :: "nat \<Rightarrow> nat \<Rightarrow> bool \<Rightarrow> nat" where
  "lean_endian v w big =
     (let m = v mod 2 ^ w in
      (if big then foldl (\<lambda>acc i. acc * 256 + (drop_bit (8 * i) m AND 0xFF)) 0 [0..<w div 8] else m) mod 2 ^ 64)"

lemma or_high:
  fixes x :: nat
  assumes "x < 2 ^ m"
  shows "x OR push_bit m y = x + push_bit m y"
proof -
  have "take_bit m x AND push_bit m y = 0" by (simp add: bit_eq_iff bit_simps)
  then show ?thesis using assms by (simp add: disjunctive_add_eq_or take_bit_nat_eq_self)
qed

text \<open>An arithmetic shift of a negative number fills the high bits.\<close>

lemma arsh_high:
  assumes "a < 2 ^ n" "s \<le> n"
  shows "nat (drop_bit s (int a - 2 ^ n) mod 2 ^ n) = (drop_bit s a OR ((2 ^ n - 1) - (2 ^ n div 2 ^ s - 1))) mod 2 ^ n"
proof -
  have p: "(2 :: nat) ^ n = 2 ^ (n - s) * 2 ^ s" using assms(2) by (simp flip: power_add)
  then have q: "(2 :: nat) ^ n div 2 ^ s = 2 ^ (n - s)" by simp
  have x: "a div 2 ^ s < 2 ^ (n - s)" using assms(1) p by (simp add: less_mult_imp_div_less)
  have le: "(2 :: nat) ^ (n - s) \<le> 2 ^ n" by (rule power_increasing) auto
  have "(2 ^ n - 1) - (2 ^ n div 2 ^ s - 1) = push_bit (n - s) (2 ^ s - 1 :: nat)"
    unfolding q push_bit_eq_mult by (simp add: p algebra_simps)
  then have r: "drop_bit s a OR ((2 ^ n - 1) - (2 ^ n div 2 ^ s - 1)) = a div 2 ^ s + (2 ^ n - 2 ^ (n - s))"
    using or_high [OF x, of "2 ^ s - 1"] by (simp add: drop_bit_eq_div push_bit_eq_mult p algebra_simps)
  have pi: "(2 :: int) ^ n = 2 ^ (n - s) * 2 ^ s" using assms(2) by (simp flip: power_add)
  have "drop_bit s (int a - 2 ^ n) = (int a + (- (2 ^ (n - s))) * 2 ^ s) div 2 ^ s" by (simp add: drop_bit_eq_div pi)
  also have "\<dots> = int (a div 2 ^ s) - 2 ^ (n - s)" by (subst div_mult_self1) (simp_all add: zdiv_int)
  finally have d: "drop_bit s (int a - 2 ^ n) = int (a div 2 ^ s) - 2 ^ (n - s)" .
  have "drop_bit s (int a - 2 ^ n) mod 2 ^ n = (int (a div 2 ^ s) - 2 ^ (n - s) + 2 ^ n) mod 2 ^ n" unfolding d by simp
  also have "int (a div 2 ^ s) - 2 ^ (n - s) + 2 ^ n = int (a div 2 ^ s + (2 ^ n - 2 ^ (n - s)))" 
    unfolding of_nat_add of_nat_diff [OF le] of_nat_power by simp
  also have "\<dots> mod 2 ^ n = int ((a div 2 ^ s + (2 ^ n - 2 ^ (n - s))) mod 2 ^ n)" by (simp add: zmod_int)
  finally show ?thesis unfolding r by simp
qed

lemma arsh_low: "a < 2 ^ n \<Longrightarrow> nat (drop_bit s (int a) mod 2 ^ n) = drop_bit s a"
proof -
  assume a: "a < 2 ^ n"
  have "a div 2 ^ s < 2 ^ n" using a by (meson div_le_dividend le_less_trans)
  then have "int (a div 2 ^ s) mod 2 ^ n = int (a div 2 ^ s)" by (simp add: mod_pos_pos_trivial)
  moreover have "drop_bit s (int a) = int (a div 2 ^ s)" by (simp add: drop_bit_eq_div zdiv_int)
  ultimately show ?thesis by (simp add: drop_bit_eq_div)
qed

lemma arsh64_agrees: "unat (arsh_value x sh 64) = lean_arsh 64 (unat x) (unat sh)"
proof -
  define s where "s = unat sh mod 64"
  have s: "s \<le> 64" by (simp add: s_def less_imp_le)
  have x: "unat x < 2 ^ 64" by (rule unat_lt64)
  have "unat (arsh_value x sh 64) = nat (drop_bit s (sint x) mod 2 ^ 64)"
    by (simp only: arsh_value_def s_def if_True refl unat_of_int64 toU64_def)
  then show ?thesis using arsh_low [OF x, of s] arsh_high [OF x s]
    unfolding lean_arsh_def Let_def s_def [symmetric] signed64 [symmetric] toSigned64_def
    by (cases "unat x < 2 ^ 64 div 2"; simp only: if_True if_False)
qed

lemma arsh32_agrees: "unat (arsh_value x sh 32) = lean_arsh 32 (unat x mod 2 ^ 32) (unat sh)"
proof -
  define y where "y = (ucast x :: u32)"
  define s where "s = unat sh mod 32"
  have s: "s \<le> 32" by (simp add: s_def less_imp_le)
  have y: "unat y < 2 ^ 32" by (rule order_less_le_trans [OF unsigned_less]) simp
  have m: "unat x mod 2 ^ 32 = unat y" by (simp add: y_def unsigned_ucast_eq take_bit_eq_mod)
  have "unat (arsh_value x sh 32) = unat (word_of_int (drop_bit s (sint y)) :: u32)"
    by (simp add: arsh_value_def s_def y_def unsigned_ucast_eq take_bit_nat_eq_self order_less_le_trans [OF unsigned_less])
  also have "\<dots> = nat (drop_bit s (sint y) mod 2 ^ 32)" by (simp add: unsigned_of_int take_bit_eq_mod)
  finally show ?thesis using arsh_low [OF y, of s] arsh_high [OF y s]
    unfolding lean_arsh_def Let_def s_def [symmetric] m signed32 [symmetric]
    by (cases "unat y < 2 ^ 32 div 2"; simp only: if_True if_False)
qed

subsection \<open>Byte order\<close>

lemma le_bytes_snoc: "le_bytes (Suc k) n = le_bytes k n @ [word_of_nat (n div 256 ^ k)]"
proof (induction k arbitrary: n)
  case (Suc k)
  have "le_bytes (Suc (Suc k)) n = word_of_nat n # le_bytes (Suc k) (n div 256)" by simp
  then show ?case using Suc.IH [of "n div 256"] by (simp add: div_mult2_eq)
qed simp

lemma swap_fold:
  "foldl (\<lambda>acc i. acc * 256 + (drop_bit (8 * i) m AND 0xFF)) 0 [0..<k] = from_le (rev (le_bytes k m))"
proof (induction k)
  case (Suc k)
  have "drop_bit (8 * k) m AND 0xFF = m div 256 ^ k mod 256"
    using take_bit_eq_mask [of 8 "drop_bit (8 * k) m"] by (simp add: mask_eq_exp_minus_1 take_bit_eq_mod drop_bit_eq_div power_mult)
  then show ?case using Suc.IH by (simp add: le_bytes_snoc del: le_bytes.simps)
qed simp

lemma le_bytes_mod: "le_bytes k (n mod 256 ^ k) = le_bytes k n"
  using le_bytes_from_le [of "le_bytes k n" k] by (simp add: from_le_le_bytes)

lemma swap_agrees:
  assumes "k \<le> 8"
  shows "unat (swap_bytes k x) = lean_endian (unat x) (8 * k) True"
proof -
  have "from_le (rev (le_bytes k (unat x))) < 256 ^ k" using from_le_bound [of "rev (le_bytes k (unat x))"] by simp
  also have "(256 :: nat) ^ k \<le> 256 ^ 8" by (rule power_increasing) (use assms in auto)
  finally have lt: "from_le (rev (le_bytes k (unat x))) < 2 ^ 64" by simp
  have "(2 :: nat) ^ (8 * k) = 256 ^ k" by (simp add: power_mult)
  then show ?thesis using lt by (simp add: swap_bytes_def lean_endian_def swap_fold le_bytes_mod unsigned_of_nat take_bit_eq_mod)
qed

lemma keep_agrees: "k \<le> 64 \<Longrightarrow> unat (take_bit k x :: u64) = lean_endian (unat x) k False"
proof -
  assume k: "k \<le> 64"
  have "unat x mod 2 ^ k < 2 ^ 64" using unat_lt64 [of x] by (meson le_less_trans mod_less_eq_dividend)
  moreover have "unat (take_bit k x) = unat x mod 2 ^ k" unfolding unsigned_take_bit_eq by (rule take_bit_eq_mod)
  ultimately show ?thesis by (simp add: lean_endian_def)
qed

subsection \<open>Values of built terms\<close>

lemma raw_value_eval [simp]: "eval_expr (raw_value r v) env = v"
  by (cases v) (simp_all add: raw_value_def)

lemma closed_eval: "eval_expr a [] = Some x' \<Longrightarrow> eval_expr a env = Some x \<Longrightarrow> x' = x"
  using eval_mono [of a "[]" x' env] by simp

lemma closed2_eval:
  "closed2 a b f = Some v \<Longrightarrow> eval_expr a env = Some x \<Longrightarrow> eval_expr b env = Some y \<Longrightarrow> v = f x y"
  using closed_eval [of a _ env x] closed_eval [of b _ env y] by (auto simp: closed2_def)

text \<open>A machine value is below the modulus the rendered term reduces by.\<close>

lemma unat_mod64 [simp]: "unat (w :: u64) mod 18446744073709551616 = unat w"
  using unat_lt64 [of w] by simp

lemmas word_values = unat_simps unsigned_or_eq unsigned_and_eq unsigned_xor_eq unat_drop_bit_eq unat_div unat_mod sh64_def rem64_def

lemma bits_mod64:
  "(unat a OR unat b) mod 18446744073709551616 = unat (a OR b :: u64)"
  "(unat a AND unat b) mod 18446744073709551616 = unat (a AND b :: u64)"
  "(unat a XOR unat b) mod 18446744073709551616 = unat (a XOR b :: u64)"
  by (metis unat_mod64 unsigned_or_eq) (metis unat_mod64 unsigned_and_eq, metis unat_mod64 unsigned_xor_eq)

lemma alu64_imm_value:
  assumes v: "eval_expr (alu64_imm_expr op i a) env = Some v" and x: "eval_expr a env = Some x"
    and z: "lean_alu64 op (unat x) (unat (word_of_int i :: u64)) = Some z"
  shows "unat v = z"
proof (cases op)
  case Arsh
  then obtain x' where "eval_expr a [] = Some x'" "v = arsh_value x' (word_of_int i) 64"
    using v by (auto simp: alu64_imm_expr_def arsh_imm_expr_def)
  then show ?thesis using Arsh z closed_eval [OF _ x] arsh64_agrees by (simp add: lean_alu64_def)
next
  case Or
  then show ?thesis using v z closed_eval [OF _ x] by (auto simp: alu64_imm_expr_def raw64_imm_def lean_alu64_def bits_mod64)
next
  case Xor
  then show ?thesis using v z closed_eval [OF _ x] by (auto simp: alu64_imm_expr_def raw64_imm_def lean_alu64_def bits_mod64)
next
  case Mul
  then show ?thesis using v z closed_eval [OF _ x] by (auto simp: alu64_imm_expr_def raw64_imm_def lean_alu64_def unat_mul64)
next
  case Div
  then show ?thesis using v z closed_eval [OF _ x]
    by (auto simp: alu64_imm_expr_def raw64_imm_def lean_alu64_def Let_def simp flip: unat_div split: if_splits)
next
  case Mod
  then show ?thesis using v z closed_eval [OF _ x]
    by (auto simp: alu64_imm_expr_def raw64_imm_def lean_alu64_def Let_def unat_rem64 split: if_splits)
next
  case And
  then show ?thesis using v x z by (auto simp: alu64_imm_expr_def lean_alu64_def bits_mod64)
next
  case Lsh
  then show ?thesis using v x z by (auto simp: alu64_imm_expr_def lean_alu64_def unat_push64 sh64_def)
next
  case Rsh
  then show ?thesis using v x z by (auto simp: alu64_imm_expr_def lean_alu64_def unat_drop_bit_eq sh64_def)
qed (use v x z in \<open>auto simp: alu64_imm_expr_def lean_alu64_def unat_add64 unat_sub64\<close>)

lemma alu64_reg_value:
  assumes v: "eval_expr (alu64_reg_expr op a b) env = Some v" and x: "eval_expr a env = Some x" and y: "eval_expr b env = Some y"
    and op: "op \<notin> {Mov, Div, Mod}" and z: "lean_alu64 op (unat x) (unat y) = Some z"
  shows "unat v = z"
proof (cases op)
  case Arsh
  then show ?thesis using v z closed2_eval [OF _ x y] arsh64_agrees by (auto simp: alu64_reg_expr_def arsh_reg_expr_def lean_alu64_def)
next
  case Or
  then show ?thesis using v z closed2_eval [OF _ x y] by (auto simp: alu64_reg_expr_def bits64_reg_def lean_alu64_def bits_mod64)
next
  case And
  then show ?thesis using v z closed2_eval [OF _ x y] by (auto simp: alu64_reg_expr_def bits64_reg_def lean_alu64_def bits_mod64)
next
  case Xor
  then show ?thesis using v z closed2_eval [OF _ x y] by (auto simp: alu64_reg_expr_def bits64_reg_def lean_alu64_def bits_mod64)
next
  case Lsh
  then have "v = push_bit (unat y mod 64) x"
    using v closed2_eval [of a b "\<lambda>v s. push_bit (unat s mod 64) v", OF _ x y] by (simp add: alu64_reg_expr_def bits64_reg_def)
  then show ?thesis using z Lsh by (simp add: lean_alu64_def unat_push64)
next
  case Rsh
  then have "v = drop_bit (unat y mod 64) x"
    using v closed2_eval [of a b "\<lambda>v s. drop_bit (unat s mod 64) v", OF _ x y] by (simp add: alu64_reg_expr_def bits64_reg_def)
  then show ?thesis using z Rsh by (simp add: lean_alu64_def unat_drop_bit_eq)
qed (use v x y z op in \<open>auto simp: alu64_reg_expr_def lean_alu64_def unat_add64 unat_sub64 unat_mul64\<close>)

text \<open>Closed operands always give a closed result.\<close>

lemma alu64_imm_closed: "eval_expr a [] = Some x \<Longrightarrow> eval_expr (alu64_imm_expr op i a) [] \<noteq> None"
  by (cases op) (auto simp: alu64_imm_expr_def raw64_imm_def arsh_imm_expr_def Let_def bind2_def)

lemma alu64_reg_closed: "eval_expr a [] = Some x \<Longrightarrow> eval_expr b [] = Some y \<Longrightarrow> eval_expr (alu64_reg_expr op a b) [] \<noteq> None"
  by (cases op) (auto simp: alu64_reg_expr_def bits64_reg_def arsh_reg_expr_def closed2_def Let_def bind2_def)

subsection \<open>What a step leaves alone\<close>

lemma read_touch [simp]: "fst (read_reg q (first_touch r s)) = fst (read_reg q s)"
  by (auto simp: read_reg_def first_touch_def split: option.splits)

lemma read_bookkeeping [simp]:
  "fst (read_reg q (record_side_hypothesis n p s)) = fst (read_reg q s)" "fst (read_reg q (record_branch bh s)) = fst (read_reg q s)"
  "fst (read_reg q (push_call_frame pc fr s)) = fst (read_reg q s)"
  by (simp_all add: read_reg_def record_side_hypothesis_def record_branch_def push_call_frame_def split: option.split)

lemma mem_bookkeeping [simp]:
  "mem (first_touch r s) = mem s" "mem (write_reg r v s) = mem s" "mem (record_side_hypothesis n p s) = mem s"
  "mem (record_branch bh s) = mem s" "mem (push_call_frame pc fr s) = mem s"
  by (simp_all add: first_touch_def write_reg_def record_side_hypothesis_def record_branch_def push_call_frame_def Let_def)

lemma table_no_jmp32: "list_all (\<lambda>(o1, sh). insn_class o1 \<noteq> BPF_JMP32) insn_table"
  by code_simp

text \<open>
  The register operations whose terms carry values: 64-bit arithmetic, arithmetic shifts, negation, byte
  order and wide loads of constants.  \<open>lean_value\<close> is the register value the machine computes from the
  destination and the operand; a 32-bit operation other than a shift is rendered without a value.
\<close>

fun shape_operand :: "shape \<Rightarrow> bool" where
  "shape_operand (SAlu64 op r) = r"
| "shape_operand (SAlu32 op r) = r"
| "shape_operand _ = False"

fun lean_value :: "shape \<Rightarrow> int \<Rightarrow> nat \<Rightarrow> nat \<Rightarrow> nat option" where
  "lean_value (SAlu64 op r) i a b = lean_alu64 op a b"
| "lean_value (SAlu32 Arsh r) i a b = Some (lean_arsh 32 (a mod 2 ^ 32) b)"
| "lean_value SNeg64 i a b = Some (lean_neg64 a)"
| "lean_value (SEndian big) i a b = (if i \<in> {16, 32, 64} then Some (lean_endian a (nat i) big) else None)"
| "lean_value SLddw i a b = Some b"
| "lean_value _ i a b = None"

definition operand_value :: "shape \<Rightarrow> insn \<Rightarrow> sym_state \<Rightarrow> env \<Rightarrow> u64 option" where
  "operand_value sh i s env = (if shape_operand sh then eval_expr (fst (read_reg (unat (src i)) s)) env else Some (word_of_int (imm i)))"

text \<open>The expression an arm writes, from the values of its destination and source registers.\<close>

fun result_expr :: "shape \<Rightarrow> int \<Rightarrow> expr \<Rightarrow> expr \<Rightarrow> expr" where
  "result_expr (SAlu64 op False) i a b = alu64_imm_expr op i a"
| "result_expr (SAlu64 op True) i a b = (if op = Mov then b else if op = Div \<or> op = Mod
     then Raw (div_text True op (atom_lean a) (atom_lean b)) else alu64_reg_expr op a b)"
| "result_expr (SAlu32 op False) i a b = (if op = Arsh then arsh_imm_expr 32 a i else Raw (alu32_imm_text op (atom_lean a) (''toU64 '' @ lean_off i)))"
| "result_expr (SAlu32 op True) i a b = (if op = Div \<or> op = Mod then Raw (div_text False op (atom_lean a) (atom_lean b))
     else if op = Arsh then arsh_reg_expr 32 a b else Raw (alu32_reg_text op (atom_lean a) (atom_lean b)))"
| "result_expr SNeg64 i a b = neg64_expr a"
| "result_expr (SEndian big) i a b = endian_expr a i big"
| "result_expr SLddw i a b = ToU64 (Const i)"
| "result_expr _ i a b = Raw (''wrapNeg32 '' @ atom_lean a)"

fun value_shape :: "shape \<Rightarrow> bool" where
  "value_shape (SAlu64 op r) = True" | "value_shape (SAlu32 op r) = True" | "value_shape SNeg64 = True" | "value_shape SNeg32 = True"
| "value_shape (SEndian big) = True" | "value_shape SLddw = True" | "value_shape _ = False"

lemma step_writes:
  assumes "map_of insn_table (opc i) = Some sh" "step s i pc tk = Ok s'" "value_shape sh"
  shows "fst (read_reg q s') = (if q = unat (dst i)
      then result_expr sh (imm i) (fst (read_reg (unat (dst i)) s)) (fst (read_reg (unat (src i)) s)) else fst (read_reg q s)) \<and>
    mem s' = mem s"
proof -
  have "insn_class (opc i) \<noteq> BPF_JMP32" using table_no_jmp32 map_of_SomeD [OF assms(1)] by (auto simp: list_all_iff)
  then have st: "step s i pc tk = (case Some sh of
             Some (SLddw) \<Rightarrow> Ok (write_reg (unat (dst i)) (ToU64 (Const (imm i))) s)
           | Some (SAlu64 op r) \<Rightarrow> Ok (step_alu64 op r i pc s)
           | Some SNeg64 \<Rightarrow> Ok (update_reg (unat (dst i)) neg64_expr s)
           | Some (SAlu32 op r) \<Rightarrow> Ok (step_alu32 op r i pc s)
           | Some SNeg32 \<Rightarrow> Ok (update_reg (unat (dst i)) (\<lambda>a. Raw (''wrapNeg32 '' @ atom_lean a)) s)
           | Some (SEndian big) \<Rightarrow> Ok (update_reg (unat (dst i)) (\<lambda>a. endian_expr a (imm i) big) s)
           | _ \<Rightarrow> step s i pc tk)"
    using assms(1,3) by (cases sh) (simp_all add: step_def)
  show ?thesis
  proof (cases sh)
    case (SAlu64 op r)
    then show ?thesis using assms(2) st by (cases r) (auto simp: effect_defs read_write_reg alu64_imm_expr_def)
  next
    case (SAlu32 op r)
    then show ?thesis using assms(2) st by (cases r) (auto simp: effect_defs read_write_reg)
  qed (use assms(2,3) st in \<open>auto simp: effect_defs read_write_reg\<close>)
qed

lemma neg_agrees: "unat (- x :: u64) = lean_neg64 (unat x)"
  using unat_sub64 [of 0 x] by (simp add: lean_neg64_def)

lemma endian_agrees:
  assumes "eval_expr (endian_expr a i big) env = Some v" "eval_expr a env = Some x" "i \<in> {16, 32, 64}"
  shows "unat v = lean_endian (unat x) (nat i) big"
proof -
  obtain x' where x': "eval_expr a [] = Some x'" using assms(1) by (auto simp: endian_expr_def)
  have [simp]: "x' = x" using closed_eval [OF x' assms(2)] .
  have m: "take_bit 16 x = x AND 0xFFFF" "take_bit 32 x = x AND 0xFFFFFFFF" by (simp_all add: take_bit_eq_mask mask_eq_exp_minus_1)
  have m64: "take_bit 64 x = x" by (rule take_bit_word_eq_self) simp
  show ?thesis using assms(1,3) x' swap_agrees [of 2 x] swap_agrees [of 4 x] swap_agrees [of 8 x]
      keep_agrees [of 16 x] keep_agrees [of 32 x] keep_agrees [of 64 x]
    by (auto simp: endian_expr_def m m64)
qed

lemma result_value:
  assumes v: "eval_expr (result_expr sh i a b) env = Some v" and x: "eval_expr a env = Some x"
    and y: "(if shape_operand sh then eval_expr b env else Some (word_of_int i)) = Some y"
    and z: "lean_value sh i (unat x) (unat y) = Some z"
  shows "unat v = z"
proof (cases sh)
  case (SAlu64 op r)
  show ?thesis
  proof (cases r)
    case True
    then show ?thesis using SAlu64 v x y z alu64_reg_value [of op a b env v x y z]
      by (auto simp: lean_alu64_def split: if_splits)
  next
    case False
    then show ?thesis using SAlu64 v x y z alu64_imm_value [of op i a env v x z] by auto
  qed
next
  case (SAlu32 op r)
  then have op: "op = Arsh" using z by (cases op) auto
  show ?thesis
  proof (cases r)
    case True
    then show ?thesis using SAlu32 op v y z closed2_eval [OF _ x, of b _ v y] arsh32_agrees
      by (auto simp: arsh_reg_expr_def)
  next
    case False
    then obtain x' where "eval_expr a [] = Some x'" "v = arsh_value x' (word_of_int i) 32"
      using SAlu32 op v by (auto simp: arsh_imm_expr_def)
    then show ?thesis using False SAlu32 op y z closed_eval [OF _ x] arsh32_agrees by auto
  qed
next
  case SNeg64
  then show ?thesis using v z closed_eval [OF _ x] by (auto simp: neg64_expr_def neg_agrees)
next
  case (SEndian big)
  then show ?thesis using v z endian_agrees [OF _ x] by (auto split: if_splits)
qed (use v y z in auto)

lemma result_closed:
  assumes "eval_expr a [] = Some x" "(if shape_operand sh then eval_expr b [] else Some (word_of_int i)) = Some y"
    "lean_value sh i (unat x) (unat y) = Some z" "sh \<notin> {SAlu64 Div True, SAlu64 Mod True}"
  shows "eval_expr (result_expr sh i a b) [] \<noteq> None"
proof (cases sh)
  case (SAlu64 op r)
  then show ?thesis using assms alu64_imm_closed alu64_reg_closed by (cases r) auto
next
  case (SAlu32 op r)
  then have "op = Arsh" using assms(3) by (cases op) auto
  then show ?thesis using SAlu32 assms by (cases r) (auto simp: arsh_imm_expr_def arsh_reg_expr_def closed2_def bind2_def)
qed (use assms in \<open>auto simp: neg64_expr_def endian_expr_def\<close>)

subsection \<open>Properties\<close>



end
