(* ===== verification/Spec_Call.thy ===== *)
theory Spec_Call
  imports Sym_Step
begin

text \<open>
  The spec-call line of an instruction (\<open>qedlift/src/spec_call.rs\<close>): the \<open>have\<close> line that instantiates the Lean
  specification of the instruction in the state before it.  A cell the instruction will create is named by a
  reservation, which the following step consumes; the reservation is the only effect on the state.
\<close>

record spec_call =
  sc_hyp_name :: string
  have_line :: string

abbreviation nl :: string where "nl \<equiv> [CHR 0x0A]"
abbreviation langle :: string where "langle \<equiv> [CHR 0xE2, CHR 0x9F, CHR 0xA8]"
abbreviation rangle :: string where "rangle \<equiv> [CHR 0xE2, CHR 0x9F, CHR 0xA9]"
abbreviation by_decide :: string where "by_decide \<equiv> ''(by decide)''"

definition reserve_fresh_name :: "sym_state \<Rightarrow> nat \<times> sym_state" where
  "reserve_fresh_name s = (let (i, f) = reserve (names s) in (i, s\<lparr>names := f\<rparr>))"

definition hyp_of :: "nat \<Rightarrow> string" where
  "hyp_of pc = ''h_'' @ digits pc"

definition have_text :: "nat \<Rightarrow> string \<Rightarrow> string list \<Rightarrow> string" where
  "have_text pc spec args = ''have '' @ hyp_of pc @ '' := '' @ spec @ concat (map (\<lambda>a. '' '' @ a) args)"

definition dot_reg :: "u8 \<Rightarrow> string" where
  "dot_reg r = ''.'' @ reg_lit (unat r)"

text \<open>The value of a register before it is touched is its initial name.\<close>

definition reg_val_expr :: "sym_state \<Rightarrow> nat \<Rightarrow> expr" where
  "reg_val_expr s r = (case map_of (regs s) r of Some e \<Rightarrow> e | None \<Rightarrow> InitReg (reg_initial_name r))"

definition reg_val_lean :: "sym_state \<Rightarrow> nat \<Rightarrow> string" where
  "reg_val_lean s r = (case map_of (regs s) r of Some e \<Rightarrow> to_lean e | None \<Rightarrow> reg_initial_name r)"

definition reg_arg :: "sym_state \<Rightarrow> u8 \<Rightarrow> string" where
  "reg_arg s r = paren (reg_val_lean s (unat r))"

definition alias_suffix :: "nat \<Rightarrow> (nat \<times> bool) option \<Rightarrow> string" where
  "alias_suffix pc hit = (case hit of
      Some (_, True) \<Rightarrow> nl @ ''  rw [h_alias_'' @ digits pc @ ''] at '' @ hyp_of pc
    | _ \<Rightarrow> [])"

subsection \<open>Memory\<close>

text \<open>The rendered old value of a cell, or the name reserved for it.\<close>

definition old_name :: "width \<Rightarrow> nat \<Rightarrow> string" where
  "old_name w i = ''oldMem'' @ w_short w @ ''_'' @ digits i"

definition old_value :: "width \<Rightarrow> (nat \<times> bool) option \<Rightarrow> sym_state \<Rightarrow> string \<times> sym_state" where
  "old_value w hit s = (case hit of
      Some (i, _) \<Rightarrow> (atom_lean (mc_value (mem s ! i)), s)
    | None \<Rightarrow> (let (n, s') = reserve_fresh_name s in (old_name w n, s')))"

text \<open>The same with the bound hypothesis a wide load needs.\<close>

definition bounded_value :: "width \<Rightarrow> nat \<Rightarrow> (nat \<times> bool) option \<Rightarrow> sym_state \<Rightarrow> (string \<times> string) \<times> sym_state" where
  "bounded_value w pc hit s = (case map_option (\<lambda>(i, _). mc_value (mem s ! i)) hit of
      Some (InitMem n) \<Rightarrow> ((n, ''h'' @ n @ ''_lt''), s)
    | Some v \<Rightarrow> ((atom_lean v, ''hReloadLt_'' @ digits pc), s)
    | None \<Rightarrow> (let (k, s') = reserve_fresh_name s; n = old_name w k in ((n, ''h'' @ n @ ''_lt''), s')))"

text \<open>One byte slot of a demoted wide access: value, address, bound and address equation.\<close>

record slot_args =
  sa_args :: string
  sa_addrs :: string
  sa_bounds :: string
  sa_haddrs :: string
  sa_alias :: nat

definition slot_present :: "string \<Rightarrow> int \<Rightarrow> nat \<Rightarrow> mem_cell \<Rightarrow> bool" where
  "slot_present root lo k c \<longleftrightarrow> mc_width c = Byte \<and>
     (let (cr, cd) = canon_addr (addr_base c) (addr_off c) in cr = root \<and> cd + mc_delta c = lo + int k)"

definition spec_slot :: "expr \<Rightarrow> int \<Rightarrow> nat \<Rightarrow> slot_args \<times> sym_state \<Rightarrow> nat \<Rightarrow> slot_args \<times> sym_state" where
  "spec_slot b d pc acc k = (case acc of (a, s) \<Rightarrow>
     (let (root, lo) = canon_addr b d;
          here = '' '' @ paren (slot_expected_render b d (int k)) in
      case find (slot_present root lo k) (mem s) of
        Some c \<Rightarrow>
          (let ok = (to_lean (addr_base c) = to_lean b \<and> addr_off c = d \<and> (k = 0 \<and> mc_delta c = 0 \<or> mc_delta c = int k)) in
           (\<lparr>sa_args = sa_args a @ '' '' @ atom_lean (mc_value c),
             sa_addrs = sa_addrs a @ (if ok then here else '' '' @ paren (cell_render c)),
             sa_bounds = sa_bounds a @ (case mc_value c of InitMem n \<Rightarrow> '' h'' @ n @ ''_lt'' | _ \<Rightarrow> '' (by omega)''),
             sa_haddrs = sa_haddrs a @ (if ok then '' rfl'' else '' h_alias_'' @ digits pc @ ''_'' @ digits (sa_alias a)),
             sa_alias = (if ok then sa_alias a else sa_alias a + 1)\<rparr>, s))
      | None \<Rightarrow>
          (let (i, s') = reserve_fresh_name s; n = ''oldMemB_'' @ digits i in
           (\<lparr>sa_args = sa_args a @ '' '' @ n, sa_addrs = sa_addrs a @ here, sa_bounds = sa_bounds a @ '' h'' @ n @ ''_lt'',
             sa_haddrs = sa_haddrs a @ '' rfl'', sa_alias = sa_alias a\<rparr>, s'))))"

definition spec_slots :: "expr \<Rightarrow> int \<Rightarrow> nat \<Rightarrow> nat \<Rightarrow> sym_state \<Rightarrow> slot_args \<times> sym_state" where
  "spec_slots b d pc n s =
     foldl (spec_slot b d pc) (\<lparr>sa_args = [], sa_addrs = [], sa_bounds = [], sa_haddrs = [], sa_alias = 0\<rparr>, s) [0..<n]"

definition spec_ldx_byte :: "insn \<Rightarrow> nat \<Rightarrow> sym_state \<Rightarrow> string \<times> sym_state" where
  "spec_ldx_byte i pc s =
     (let hit = lookup_cell_aliased (reg_val_expr s (unat (src i))) (off i) Byte s;
          (v, s1) = old_value Byte hit s in
      (if dst i = src i
       then have_text pc ''ldxb_same_spec'' [dot_reg (dst i), lean_off (off i), reg_arg s (src i), v, digits pc, by_decide @ alias_suffix pc hit]
       else have_text pc ''ldxb_spec'' [dot_reg (dst i), dot_reg (src i), lean_off (off i), reg_arg s (dst i), reg_arg s (src i), v,
              digits pc, by_decide @ alias_suffix pc hit], s1))"

definition spec_ldx_dword :: "insn \<Rightarrow> nat \<Rightarrow> sym_state \<Rightarrow> string \<times> sym_state" where
  "spec_ldx_dword i pc s =
     (let b = reg_val_expr s (unat (src i)); (root, lo) = canon_addr b (off i) in
      if dst i \<noteq> src i \<and> hot_covers s root lo (lo + 8) then
        (let (a, s1) = spec_slots b (off i) pc 8 s in
         (have_text pc ''ldxdw_bytes_spec'' [dot_reg (dst i), dot_reg (src i), lean_off (off i), reg_arg s (dst i),
            reg_arg s (src i) @ sa_args a @ sa_addrs a, digits pc, by_decide @ sa_bounds a @ sa_haddrs a], s1))
      else
        (let hit = lookup_cell_aliased b (off i) Dword s; ((v, hv), s1) = bounded_value Dword pc hit s in
         (if dst i = src i
          then have_text pc ''ldxdw_same_spec'' [dot_reg (dst i), lean_off (off i), reg_arg s (src i), v, digits pc, by_decide,
                 hv @ alias_suffix pc hit]
          else have_text pc ''ldxdw_spec'' [dot_reg (dst i), dot_reg (src i), lean_off (off i), reg_arg s (dst i), reg_arg s (src i), v,
                 digits pc, by_decide, hv @ alias_suffix pc hit], s1)))"

definition spec_ldx_mid :: "width \<Rightarrow> insn \<Rightarrow> nat \<Rightarrow> sym_state \<Rightarrow> string \<times> sym_state" where
  "spec_ldx_mid w i pc s =
     (let hit = lookup_cell_aliased (reg_val_expr s (unat (src i))) (off i) w s; ((v, hv), s1) = bounded_value w pc hit s in
      (have_text pc (if w = Word_w then ''ldxw_spec'' else ''ldxh_spec'') [dot_reg (dst i), dot_reg (src i), lean_off (off i),
         reg_arg s (dst i), reg_arg s (src i), v, digits pc, by_decide, hv @ alias_suffix pc hit], s1))"

definition stx_spec_name :: "width \<Rightarrow> string" where
  "stx_spec_name w = (case w of Byte \<Rightarrow> ''stxb_spec'' | Half \<Rightarrow> ''stxh_spec'' | Word_w \<Rightarrow> ''stxw_spec'' | Dword \<Rightarrow> ''stxdw_spec'')"

definition spec_stx :: "width \<Rightarrow> insn \<Rightarrow> nat \<Rightarrow> sym_state \<Rightarrow> string \<times> sym_state" where
  "spec_stx w i pc s =
     (let hit = lookup_cell_aliased (reg_val_expr s (unat (dst i))) (off i) w s; (v, s1) = old_value w hit s in
      (have_text pc (stx_spec_name w) [dot_reg (dst i), dot_reg (src i), lean_off (off i), reg_arg s (dst i), reg_arg s (src i), v,
         digits pc @ alias_suffix pc hit], s1))"

definition st_spec_name :: "width \<Rightarrow> string" where
  "st_spec_name w = (case w of Byte \<Rightarrow> ''stb_spec'' | Half \<Rightarrow> ''sth_spec'' | Word_w \<Rightarrow> ''stw_spec'' | Dword \<Rightarrow> ''stdw_spec'')"

definition spec_st_cell :: "width \<Rightarrow> insn \<Rightarrow> nat \<Rightarrow> sym_state \<Rightarrow> string \<times> sym_state" where
  "spec_st_cell w i pc s =
     (let hit = lookup_cell_aliased (reg_val_expr s (unat (dst i))) (off i) w s; (v, s1) = old_value w hit s in
      (have_text pc (st_spec_name w) [dot_reg (dst i), lean_off (off i), lean_off (imm i), reg_arg s (dst i), paren v,
         digits pc @ alias_suffix pc hit], s1))"

definition spec_st_word :: "insn \<Rightarrow> nat \<Rightarrow> sym_state \<Rightarrow> string \<times> sym_state" where
  "spec_st_word i pc s =
     (let b = reg_val_expr s (unat (dst i)); (root, lo) = canon_addr b (off i) in
      if hot_covers s root lo (lo + 4) then
        (let (a, s1) = spec_slots b (off i) pc 4 s;
             cb = map (\<lambda>k. digits (unat (le_bytes 4 (unat (imm_u32 i)) ! k))) [0..<4] in
         (have_text pc ''stw_bytes_spec'' ([dot_reg (dst i), lean_off (off i), lean_off (imm i), reg_arg s (dst i) @ sa_args a] @
            butlast cb @ [last cb @ sa_addrs a, digits pc @ sa_bounds a, by_decide, by_decide, by_decide, by_decide @ sa_haddrs a]), s1))
      else spec_st_cell Word_w i pc s)"

subsection \<open>Arithmetic\<close>

definition alu_name :: "alu_op \<Rightarrow> string" where
  "alu_name op = tl (alu_str op)"

text \<open>The immediate rows; there is none for \<open>SUB64_IMM\<close>.\<close>

definition spec_alu_imm :: "string \<Rightarrow> alu_op \<Rightarrow> insn \<Rightarrow> nat \<Rightarrow> sym_state \<Rightarrow> string" where
  "spec_alu_imm bits op i pc s =
     have_text pc (alu_name op @ bits @ ''_imm_spec'') ([dot_reg (dst i), lean_off (imm i), reg_arg s (dst i), digits pc, by_decide] @
       (if op = Div \<or> op = Mod then [by_decide] else []))"

definition spec_alu_reg :: "string \<Rightarrow> alu_op \<Rightarrow> insn \<Rightarrow> nat \<Rightarrow> sym_state \<Rightarrow> string" where
  "spec_alu_reg bits op i pc s =
     (if bits = ''64'' \<and> op = Mov \<and> dst i = src i
      then have_text pc ''mov64_self_spec'' [dot_reg (dst i), reg_arg s (dst i), digits pc, by_decide]
      else have_text pc (alu_name op @ bits @ ''_reg_spec'') ([dot_reg (dst i), dot_reg (src i), reg_arg s (dst i), reg_arg s (src i),
             digits pc, by_decide] @ (if op = Div \<or> op = Mod then [''hnz_'' @ digits pc] else [])))"

definition spec_alu64_imm :: "alu_op \<Rightarrow> insn \<Rightarrow> nat \<Rightarrow> sym_state \<Rightarrow> string option" where
  "spec_alu64_imm op i pc s = (if op = Sub then None else Some (spec_alu_imm ''64'' op i pc s))"

definition spec_unary :: "string \<Rightarrow> insn \<Rightarrow> nat \<Rightarrow> sym_state \<Rightarrow> string" where
  "spec_unary spec i pc s = have_text pc spec [dot_reg (dst i), reg_arg s (dst i), digits pc, by_decide]"

definition spec_lddw :: "insn \<Rightarrow> nat \<Rightarrow> sym_state \<Rightarrow> string" where
  "spec_lddw i pc s = have_text pc ''lddw_spec'' [dot_reg (dst i), lean_off (imm i), reg_arg s (dst i), digits pc, by_decide]"

definition spec_endian :: "bool \<Rightarrow> insn \<Rightarrow> nat \<Rightarrow> sym_state \<Rightarrow> string" where
  "spec_endian big i pc s = have_text pc ''endian_spec'' [dot_reg (dst i), lean_off (imm i), if big then ''true'' else ''false'',
     reg_arg s (dst i), digits pc, by_decide]"

subsection \<open>Control\<close>

definition frame_text :: "nat \<times> expr list \<Rightarrow> string" where
  "frame_text fr = langle @ digits (fst fr) @ '' + 1'' @ concat (map (\<lambda>e. '', '' @ atom_lean e) (snd fr)) @ rangle"

definition render_callstack :: "frame list \<Rightarrow> string" where
  "render_callstack frames = (if frames = [] then ''[]'' else ''['' @ join '', '' (map frame_text (rev frames)) @ '']'')"

definition saved_args :: "sym_state \<Rightarrow> string list" where
  "saved_args s = map (\<lambda>r. paren (reg_val_lean s r)) [6, 7, 8, 9, 10]"

definition spec_callx :: "insn \<Rightarrow> nat \<Rightarrow> nat option \<Rightarrow> sym_state \<Rightarrow> string option" where
  "spec_callx i pc target s = map_option (\<lambda>t. have_text pc ''callx_v3_spec''
     ([dot_reg (dst i), reg_arg s (dst i), digits t, render_callstack (call_stack s)] @ saved_args s @ [digits pc])) target"

definition spec_call_local :: "nat \<Rightarrow> nat option \<Rightarrow> sym_state \<Rightarrow> string" where
  "spec_call_local pc target s = have_text pc ''call_local_spec''
     ([digits (case target of Some t \<Rightarrow> t | None \<Rightarrow> 0), render_callstack (call_stack s)] @ saved_args s @ [digits pc])"

definition spec_exit :: "nat \<Rightarrow> sym_state \<Rightarrow> string" where
  "spec_exit pc s =
     (let (call_pc, saved) = (if call_stack s = [] then (0, replicate 5 (InitReg ''?'')) else last (call_stack s)) in
      have_text pc ''exit_pops_spec''
        ([langle @ digits call_pc @ '' + 1'' @ concat (map (\<lambda>e. '', '' @ paren (atom_lean e)) saved) @ rangle,
          render_callstack (butlast (call_stack s))] @ saved_args s @ [digits pc @ nl @ ''  dsimp only at '' @ hyp_of pc]))"

definition branch_name :: "string option \<Rightarrow> string" where
  "branch_name h = (case h of Some n \<Rightarrow> n | None \<Rightarrow> ''h_branch?'')"

definition spec_jcc :: "cond \<Rightarrow> bool \<Rightarrow> insn \<Rightarrow> nat \<Rightarrow> string option \<Rightarrow> bool option \<Rightarrow> int \<Rightarrow> sym_state \<Rightarrow> string" where
  "spec_jcc c is_reg i pc h tk jt s =
     have_text pc (''j'' @ cond_str c @ (if is_reg then ''_reg_'' else ''_imm_'') @ (if tk = Some True then ''taken_spec'' else ''not_taken_spec''))
       ([dot_reg (dst i)] @ (if is_reg then [dot_reg (src i), reg_arg s (dst i), reg_arg s (src i)] else [lean_off (imm i), reg_arg s (dst i)]) @
        [digits pc, show_int jt, branch_name h])"

text \<open>\<open>jmp32_imm_spec\<close> and \<open>jmp32_reg_spec\<close>; the fall-through form takes the path hypothesis itself.\<close>

definition spec_jmp32 :: "cond \<Rightarrow> bool \<Rightarrow> bool \<Rightarrow> insn \<Rightarrow> nat \<Rightarrow> string option \<Rightarrow> int \<Rightarrow> sym_state \<Rightarrow> string" where
  "spec_jmp32 c is_reg fall i pc h jt s =
     have_text pc ((if is_reg then ''jmp32_reg'' else ''jmp32_imm'') @ (if fall then ''_not_taken_spec'' else ''_spec''))
       ([''.'' @ cond_str c, dot_reg (dst i)] @
        (if is_reg then [dot_reg (src i), reg_arg s (dst i), reg_arg s (src i)] else [lean_off (imm i), reg_arg s (dst i)]) @
        [digits pc] @ (if fall then [show_int jt, branch_name h]
          else [show_int jt @ nl @ ''  simp only ['' @ branch_name h @ '', if_true] at '' @ hyp_of pc]))"

text \<open>The arms by instruction shape; an opcode outside the table has no line.\<close>

definition plain_line :: "sym_state \<Rightarrow> string \<Rightarrow> string option \<times> sym_state" where
  "plain_line s l = (Some l, s)"

definition cell_line :: "string \<times> sym_state \<Rightarrow> string option \<times> sym_state" where
  "cell_line r = (Some (fst r), snd r)"

definition spec_shape :: "sbpf_version \<Rightarrow> sym_state \<Rightarrow> insn \<Rightarrow> nat \<Rightarrow> nat option \<Rightarrow> string option \<Rightarrow> bool option \<Rightarrow> int \<Rightarrow> shape
    \<Rightarrow> string option \<times> sym_state" where
  "spec_shape v s i pc target h tk jt sh = (case sh of
      SLdx Byte \<Rightarrow> cell_line (spec_ldx_byte i pc s)
    | SLdx Dword \<Rightarrow> cell_line (spec_ldx_dword i pc s)
    | SLdx w \<Rightarrow> cell_line (spec_ldx_mid w i pc s)
    | SStx w \<Rightarrow> cell_line (spec_stx w i pc s)
    | SSt Word_w \<Rightarrow> cell_line (spec_st_word i pc s)
    | SSt w \<Rightarrow> cell_line (spec_st_cell w i pc s)
    | SAlu64 op False \<Rightarrow> (spec_alu64_imm op i pc s, s)
    | SAlu64 op True \<Rightarrow> plain_line s (spec_alu_reg ''64'' op i pc s)
    | SAlu32 op False \<Rightarrow> plain_line s (spec_alu_imm ''32'' op i pc s)
    | SAlu32 op True \<Rightarrow> plain_line s (spec_alu_reg ''32'' op i pc s)
    | SNeg64 \<Rightarrow> plain_line s (spec_unary ''neg64_spec'' i pc s)
    | SNeg32 \<Rightarrow> plain_line s (spec_unary ''neg32_spec'' i pc s)
    | SEndian big \<Rightarrow> plain_line s (spec_endian big i pc s)
    | SLddw \<Rightarrow> plain_line s (spec_lddw i pc s)
    | SCallReg \<Rightarrow> ((if v = V3 then spec_callx i pc target s else None), s)
    | SCallImm \<Rightarrow> plain_line s (spec_call_local pc target s)
    | SExit \<Rightarrow> plain_line s (spec_exit pc s)
    | SJcc c r \<Rightarrow> plain_line s (spec_jcc c r i pc h tk jt s)
    | SJa \<Rightarrow> plain_line s (have_text pc ''ja_spec'' [show_int jt, digits pc]))"

text \<open>A 32-bit jump outside version 3 reaches the 64-bit rows, except \<open>JEQ32_IMM\<close>.\<close>

definition spec_legacy_jmp32 :: "cond \<Rightarrow> bool \<Rightarrow> insn \<Rightarrow> nat \<Rightarrow> string option \<Rightarrow> bool option \<Rightarrow> int \<Rightarrow> sym_state \<Rightarrow> string" where
  "spec_legacy_jmp32 c is_reg i pc h tk jt s =
     (if c = Eq \<and> \<not> is_reg then spec_jmp32 Eq False False i pc h jt s else spec_jcc c is_reg i pc h tk jt s)"

definition spec_call_for :: "sbpf_version \<Rightarrow> sym_state \<Rightarrow> insn \<Rightarrow> nat \<Rightarrow> nat option \<Rightarrow> string option \<Rightarrow> bool option \<Rightarrow> int option
    \<Rightarrow> spec_call option \<times> sym_state" where
  "spec_call_for v s i pc target h tk jump_target =
     (let jt = (case jump_target of Some t \<Rightarrow> t | None \<Rightarrow> int pc + 1 + off i);
          wrap = (\<lambda>(l, s'). (map_option (\<lambda>t. \<lparr>sc_hyp_name = hyp_of pc, have_line = t\<rparr>) l, s')) in
      wrap (if insn_class (opc i) = BPF_JMP32 then
              ((case map_of jmp32_table (clear_x (opc i)) of
                  None \<Rightarrow> None
                | Some c \<Rightarrow> Some (if v = V3 then spec_jmp32 c (x_set (opc i)) (tk = Some False) i pc h jt s
                                  else spec_legacy_jmp32 c (x_set (opc i)) i pc h tk jt s)), s)
            else (case map_of insn_table (opc i) of
                    None \<Rightarrow> (None, s)
                  | Some sh \<Rightarrow> spec_shape v s i pc target h tk jt sh)))"

end
