(* ===== verification/Prepared_Step.thy ===== *)
theory Prepared_Step
  imports Spec_Call
begin

text \<open>
  One prepared instruction of the walker (\<open>prepare_step\<close> and \<open>apply_step\<close> of \<open>exec/walk.rs\<close>): the spec-call line is
  rendered in the state before the instruction and reserves the names of the cells the step is about to create; then
  the step runs and the reservations must be used up.  The lemmas show that the step consumes exactly the reserved
  names: the state after it is the one the step alone would have reached.
\<close>

definition prepare_step :: "sbpf_version \<Rightarrow> sym_state \<Rightarrow> insn \<Rightarrow> nat \<Rightarrow> nat option \<Rightarrow> string option \<Rightarrow> bool option \<Rightarrow> int
    \<Rightarrow> spec_call option \<times> sym_state" where
  "prepare_step v s i pc target h tk jt = spec_call_for v s i pc target h tk (Some jt)"

definition apply_step :: "sym_state \<Rightarrow> insn \<Rightarrow> nat \<Rightarrow> bool option \<Rightarrow> spec_call option
    \<Rightarrow> (diagnostic_kind, spec_call option \<times> sym_state) res" where
  "apply_step s i pc tk prepared = bind_res (step s i (Some pc) tk) (\<lambda>s'.
     bind_res (finish_prepared_step (names s')) (\<lambda>_. Ok (prepared, s')))"

subsection \<open>Pending reservations\<close>

definition clean :: "sym_state \<Rightarrow> bool" where
  "clean s \<longleftrightarrow> fn_reserved (names s) = []"

text \<open>The state with the next \<open>k\<close> names reserved.\<close>

definition pad :: "nat \<Rightarrow> sym_state \<Rightarrow> sym_state" where
  "pad k s = s\<lparr>names := \<lparr>fn_next = fn_next (names s) + k, fn_reserved = [fn_next (names s)..<fn_next (names s) + k]\<rparr>\<rparr>"

lemma pad_0: "clean s \<Longrightarrow> pad 0 s = s"
  by (simp add: pad_def clean_def)

lemma reserve_pad: "reserve_fresh_name (pad k s) = (fn_next (names s) + k, pad (Suc k) s)"
  by (simp add: reserve_fresh_name_def reserve_def pad_def)

lemma alloc_pad: "clean s \<Longrightarrow> alloc_fresh_name (pad (Suc k) s) = apsnd (pad k) (alloc_fresh_name s)"
  by (simp add: alloc_fresh_name_def allocate_def pad_def clean_def upt_conv_Cons Let_def del: upt_Suc)

lemma alloc_clean: "clean s \<Longrightarrow> clean (snd (alloc_fresh_name s))"
  by (simp add: alloc_fresh_name_def allocate_def clean_def)

lemma pad_fields [simp]:
  "regs (pad k s) = regs s" "mem (pad k s) = mem s" "pre (pad k s) = pre s" "hot_regions (pad k s) = hot_regions s"
  "call_stack (pad k s) = call_stack s"
  by (simp_all add: pad_def)

lemma pad_views [simp]:
  "hot_of (pad k s) root = hot_of s root" "hot_covers (pad k s) root lo hi = hot_covers s root lo hi"
  "hot_intersects (pad k s) root lo hi = hot_intersects s root lo hi"
  "lookup_cell_aliased b d w (pad k s) = lookup_cell_aliased b d w s"
  by (simp_all add: hot_of_def hot_covers_def hot_intersects_def lookup_place [of "pad k s" s])

text \<open>Everything but the allocator commutes with pending reservations.\<close>

lemma pad_ops [simp]:
  "first_touch r (pad k s) = pad k (first_touch r s)" "write_reg r v (pad k s) = pad k (write_reg r v s)"
  "push_access c (pad k s) = pad k (push_access c s)" "push_error e (pad k s) = pad k (push_error e s)"
  "add_cell cell (pad k s) = pad k (add_cell cell s)" "add_load_var lv (pad k s) = pad k (add_load_var lv s)"
  "set_cell j v (pad k s) = pad k (set_cell j v s)"
  "(pad k s)\<lparr>pending_slot_aliases := al\<rparr> = pad k (s\<lparr>pending_slot_aliases := al\<rparr>)"
  "(pad k s)\<lparr>pending_alias := pa\<rparr> = pad k (s\<lparr>pending_alias := pa\<rparr>)" "pending_slot_aliases (pad k s) = pending_slot_aliases s"
  by (simp_all add: pad_def first_touch_def write_reg_def push_access_def push_error_def add_cell_def add_load_var_def set_cell_def Let_def)

lemma pad_requests [simp]:
  "request_demotion_on_conflict root lo n w (pad k s) = pad k (request_demotion_on_conflict root lo n w s)"
  "plan_tail_split root lo (pad k s) = pad k (plan_tail_split root lo s)"
  "note_access b d l key (pad k s) = pad k (note_access b d l key s)"
  "bound_byte_var v (pad k s) = pad k (bound_byte_var v s)" "touch_cell b d w wr hit (pad k s) = pad k (touch_cell b d w wr hit s)"
  by (simp_all add: request_demotion_on_conflict_def note_access_def bound_byte_var_def touch_cell_def Let_def split: prod.split option.split expr.split)
    (simp_all add: pad_def plan_tail_split_def split: prod.split option.split)

lemma pad_read_reg [simp]: "read_reg r (pad k s) = apsnd (pad k) (read_reg r s)"
  by (simp add: read_reg_def split: option.split)

lemma names_ops [simp]:
  "names (first_touch r s) = names s" "names (push_access c s) = names s" "names (push_error e s) = names s"
  "names (request_demotion_on_conflict root lo n w s) = names s" "names (plan_tail_split root lo s) = names s"
  "names (add_cell cell s) = names s" "names (add_load_var lv s) = names s" "names (note_access b d l key s) = names s"
  "names (set_cell j v s) = names s" "names (bound_byte_var x s) = names s"
  by (simp_all add: first_touch_def push_access_def push_error_def request_demotion_on_conflict_def plan_tail_split_def add_cell_def
      add_load_var_def note_access_def set_cell_def bound_byte_var_def Let_def split: prod.split option.split expr.split)

lemma mem_ops [simp]:
  "mem (push_access c s) = mem s" "mem (push_error e s) = mem s" "mem (add_load_var lv s) = mem s"
  "mem (note_access b d l key s) = mem s" "mem (bound_byte_var x s) = mem s"
  by (simp_all add: push_access_def push_error_def add_load_var_def note_access_def bound_byte_var_def Let_def
      split: prod.split option.split expr.split)

subsection \<open>Whole cells\<close>

text \<open>The names an access to a whole cell needs: one when the cell is not there yet.\<close>

definition need :: "expr \<Rightarrow> int \<Rightarrow> width \<Rightarrow> sym_state \<Rightarrow> nat" where
  "need b d w s = (if lookup_cell_aliased b d w s = None then 1 else 0)"

lemma need_cong: "mem s' = mem s \<Longrightarrow> need b d w s' = need b d w s"
  using lookup_place [of s' s b d w] by (simp add: need_def)

lemma fresh_cell_pad: "clean s \<Longrightarrow> fresh_cell b d w (pad 1 s) = fresh_cell b d w s"
proof -
  assume c: "clean s"
  obtain i s1 where a: "alloc_fresh_name s = (i, s1)" by fastforce
  then have "alloc_fresh_name (pad 1 s) = (i, s1)" using alloc_pad [OF c, of 0] alloc_clean [OF c] by (simp add: pad_0)
  then show ?thesis using a by (simp add: fresh_cell_def)
qed

lemma load_cell_pad: "clean s \<Longrightarrow> load_cell b d w (pad (need b d w s) s) = load_cell b d w s"
  using fresh_cell_pad [of s b d w] by (auto simp: load_cell_def need_def pad_0 split: option.split)

definition cold :: "nat \<Rightarrow> int \<Rightarrow> width \<Rightarrow> sym_state \<Rightarrow> bool" where
  "cold base d w s \<longleftrightarrow> wbytes w \<le> 1 \<or>
     (case canon_addr (fst (read_reg base s)) d of (root, lo) \<Rightarrow> \<not> hot_covers s root lo (lo + wbytes w))"

lemma hot_cong: "hot_regions s' = hot_regions s \<Longrightarrow> hot_covers s' root lo hi = hot_covers s root lo hi"
  "hot_regions s' = hot_regions s \<Longrightarrow> hot_intersects s' root lo hi = hot_intersects s root lo hi"
  by (simp_all add: hot_covers_def hot_intersects_def hot_of_def)

lemma hot_kept [simp]:
  "hot_regions (first_touch r s) = hot_regions s" "hot_regions (plan_tail_split root lo s) = hot_regions s"
  "hot_regions (request_demotion_on_conflict root lo n w s) = hot_regions s"
  by (simp_all add: first_touch_def plan_tail_split_def request_demotion_on_conflict_def split: prod.split option.split)

lemma read_mem_pad:
  assumes c: "clean s" and cold: "cold base d w s" and b: "b = fst (read_reg base s)"
  shows "read_mem base d w (pad (need b d w s) s) = read_mem base d w s"
proof -
  obtain root lo where rl: "canon_addr b d = (root, lo)" by fastforce
  have r: "read_reg base s = (b, first_touch base s)" using b read_reg_touch by (metis prod.collapse)
  let ?s1 = "if w = Dword then plan_tail_split root lo (first_touch base s) else first_touch base s"
  have l: "load_cell b d w (pad (need b d w s) t) = load_cell b d w t" if "names t = names s" "mem t = mem s" for t
    using load_cell_pad [of t b d w] need_cong [of t s] that c by (simp add: clean_def)
  have h: "\<not> hot_covers s root lo (lo + wbytes w)" if "wbytes w > 1" using cold that rl b by (simp add: cold_def)
  have hc: "hot_covers ?s1 root lo (lo + wbytes w) = hot_covers s root lo (lo + wbytes w)" by (rule hot_cong) simp
  show ?thesis
  proof (cases "wbytes w > 1")
    case True
    have "read_mem base d w s = load_cell b d w (request_demotion_on_conflict root lo (wbytes w) w ?s1)"
      using True h hc by (simp add: read_mem_def r rl Let_def split: if_splits)
    moreover have "read_mem base d w (pad (need b d w s) s) =
        load_cell b d w (pad (need b d w s) (request_demotion_on_conflict root lo (wbytes w) w ?s1))"
      using True h hc by (simp add: read_mem_def r rl Let_def split: if_splits)
    ultimately show ?thesis using l by simp
  qed (use l in \<open>simp add: read_mem_def r\<close>)
qed

lemma store_cell_pad:
  assumes "clean s" "cold base d w s" "b = fst (read_reg base s)"
  shows "store_cell base b d w v (pad (need b d w s) s) = store_cell base b d w v s"
proof -
  have "materialize base b d w (pad (need b d w s) s) = materialize base b d w s"
    using read_mem_pad [OF assms] assms(1) by (auto simp: materialize_def need_def pad_0)
  then show ?thesis by (simp add: store_cell_def)
qed

lemma covers_intersects: "lo < hi \<Longrightarrow> hot_covers s root lo hi \<Longrightarrow> hot_intersects s root lo hi"
  unfolding hot_covers_def hot_intersects_def list_ex_iff by (metis (no_types, lifting) case_prod_unfold le_less_trans less_le_trans)

definition stores_cold :: "nat \<Rightarrow> int \<Rightarrow> width \<Rightarrow> sym_state \<Rightarrow> bool" where
  "stores_cold base d w s \<longleftrightarrow> wbytes w \<le> 1 \<or>
     (case canon_addr (fst (read_reg base s)) d of (root, lo) \<Rightarrow> \<not> hot_intersects s root lo (lo + wbytes w))"

lemma write_mem_pad:
  assumes c: "clean s" and cold: "stores_cold base d w s" and b: "b = fst (read_reg base s)"
  shows "write_mem base d w v (pad (need b d w s) s) = write_mem base d w v s"
proof -
  obtain root lo where rl: "canon_addr b d = (root, lo)" by fastforce
  have r: "read_reg base s = (b, first_touch base s)" using b read_reg_touch by (metis prod.collapse)
  have r': "read_reg base t = (b, t)" if "regs t = regs (first_touch base s)" for t
    using b that by (auto simp: read_reg_def first_touch_def split: option.splits)
  have wp: "0 < wbytes w" by (simp add: wbytes_def split: width.split)
  have f: "names t = names s \<and> mem t = mem s \<and> hot_regions t = hot_regions s \<and> regs t = regs (first_touch base s) \<Longrightarrow>
      store_cell base b d w v (pad (need b d w s) t) = store_cell base b d w v t" for t
    using store_cell_pad [of t base d w b v] need_cong [of t s] c cold rl b r' [of t] hot_cong [of t s]
      covers_intersects [of lo "lo + wbytes w" s root] wp
    by (auto simp: clean_def cold_def stores_cold_def)
  let ?s0 = "first_touch base s"
  let ?s1 = "request_demotion_on_conflict root lo (wbytes w) w ?s0"
  have k: "regs ?s1 = regs ?s0" by (simp add: request_demotion_on_conflict_def split: prod.split)
  show ?thesis
  proof (cases "wbytes w > 1")
    case True
    then have h: "\<not> hot_intersects s root lo (lo + wbytes w)" "\<not> hot_covers s root lo (lo + wbytes w)"
      using cold rl b covers_intersects [of lo "lo + wbytes w" s root] by (auto simp: stores_cold_def)
    then show ?thesis using True f [of ?s1] k hot_cong [of ?s0 s] hot_cong [of ?s1 s] by (simp add: write_mem_def r rl Let_def)
  qed (use f [of ?s0] in \<open>simp add: write_mem_def r\<close>)
qed

subsection \<open>Demoted accesses\<close>

text \<open>The byte slots of a demoted access that have no cell yet.\<close>

definition missing :: "expr \<Rightarrow> int \<Rightarrow> nat list \<Rightarrow> sym_state \<Rightarrow> nat" where
  "missing b d ks s = (case canon_addr b d of (root, lo) \<Rightarrow>
     length (filter (\<lambda>k. \<not> list_ex (slot_present root lo k) (mem s)) ks))"

lemma find_ex: "find P xs = None \<longleftrightarrow> \<not> list_ex P xs"
  by (auto simp: find_None_iff list_ex_iff)

lemma index_of_None_iff: "index_of P xs = None \<longleftrightarrow> \<not> list_ex P xs"
  by (induction xs) (auto simp: index_of_def Let_def split: if_splits)

lemma spec_slots_pad: "\<exists>a'. foldl (spec_slot b d pc) (a, pad m s) ks = (a', pad (m + missing b d ks s) s)"
proof (induction ks arbitrary: a m)
  case (Cons k ks)
  obtain root lo where rl: "canon_addr b d = (root, lo)" by fastforce
  have "snd (spec_slot b d pc (a, pad m s) k) = pad (m + (if list_ex (slot_present root lo k) (mem s) then 0 else 1)) s"
    using find_ex [of "slot_present root lo k" "mem s"]
    by (cases "find (slot_present root lo k) (mem s)") (simp_all add: spec_slot_def rl reserve_pad Let_def)
  then obtain a' where a': "spec_slot b d pc (a, pad m s) k = (a', pad (m + (if list_ex (slot_present root lo k) (mem s) then 0 else 1)) s)"
    by (metis prod.collapse)
  show ?case using Cons.IH [of a' "m + (if list_ex (slot_present root lo k) (mem s) then 0 else 1)"] by (auto simp: a' missing_def rl)
qed (simp add: missing_def split: prod.split)

lemma hot_slot_pad:
  fixes k :: nat
  assumes c: "clean s" and rl: "canon_addr b d = (root, lo)"
  defines "e \<equiv> (if list_ex (slot_present root lo k) (mem s) then 0 else 1)"
  shows "hot_slot b d (int k) (pad (m + e) s) = apsnd (pad m) (hot_slot b d (int k) s)" "clean (snd (hot_slot b d (int k) s))"
    "j \<noteq> k \<Longrightarrow> list_ex (slot_present root lo j) (mem (snd (hot_slot b d (int k) s))) = list_ex (slot_present root lo j) (mem s)"
proof -
  let ?i = "index_of (slot_present root lo k) (mem s)"
  have P: "slot_present root lo k = (\<lambda>c. mc_width c = Byte \<and> (case canon_addr (addr_base c) (addr_off c) of (cr, cd) \<Rightarrow>
      cr = root \<and> cd + mc_delta c = lo + int k))" by (simp add: fun_eq_iff slot_present_def)
  obtain n s1 where a: "alloc_fresh_name s = (n, s1)" by fastforce
  have ap: "alloc_fresh_name (pad (Suc m) s) = (n, pad m s1)" using alloc_pad [OF c, of m] a by simp
  have s1: "clean s1" "mem s1 = mem s" using alloc_clean [OF c] a alloc_ledger [OF a] by simp_all
  have e: "e = (if ?i = None then 1 else 0)" by (simp add: e_def index_of_None_iff)
  show "hot_slot b d (int k) (pad (m + e) s) = apsnd (pad m) (hot_slot b d (int k) s)"
    by (cases ?i) (auto simp: hot_slot_def rl e P [symmetric] a ap Let_def)
  show "clean (snd (hot_slot b d (int k) s))"
    using c s1 by (cases ?i) (simp_all add: hot_slot_def rl P [symmetric] a Let_def clean_def)
  show "list_ex (slot_present root lo j) (mem (snd (hot_slot b d (int k) s))) = list_ex (slot_present root lo j) (mem s)" if "j \<noteq> k"
    using that s1(2) by (cases ?i) (simp_all add: hot_slot_def rl P [symmetric] a Let_def add_cell_def slot_present_def)
qed

lemma missing_Cons:
  "canon_addr b d = (root, lo) \<Longrightarrow> missing b d (k # ks) s = missing b d ks s + (if list_ex (slot_present root lo k) (mem s) then 0 else 1)"
  by (simp add: missing_def)

lemma missing_cong:
  assumes "canon_addr b d = (root, lo)" "\<And>j. j \<in> set ks \<Longrightarrow> list_ex (slot_present root lo j) (mem s') = list_ex (slot_present root lo j) (mem s)"
  shows "missing b d ks s' = missing b d ks s"
  using assms by (simp add: missing_def cong: filter_cong)

lemma hot_load_pad:
  assumes "clean s" "distinct ks"
  shows "foldl (hot_load_byte b d) (vs, pad (missing b d ks s) s) ks = foldl (hot_load_byte b d) (vs, s) ks"
  using assms
proof (induction ks arbitrary: vs s)
  case (Cons k ks)
  obtain root lo where rl: "canon_addr b d = (root, lo)" by fastforce
  obtain i s1 where h: "hot_slot b d (int k) s = (i, s1)" by fastforce
  note hp = hot_slot_pad [OF Cons.prems(1) rl, where k = k]
  have m: "missing b d ks s1 = missing b d ks s"
  proof (rule missing_cong [OF rl])
    fix j assume "j \<in> set ks"
    then have "j \<noteq> k" using Cons.prems(2) by auto
    then show "list_ex (slot_present root lo j) (mem s1) = list_ex (slot_present root lo j) (mem s)" using hp(3) [of j] h by simp
  qed
  have "hot_slot b d (int k) (pad (missing b d (k # ks) s) s) = (i, pad (missing b d ks s1) s1)"
    using hp(1) [of "missing b d ks s"] by (simp add: missing_Cons [OF rl] h m)
  then show ?case using Cons.IH [of s1] hp(2) Cons.prems(2) by (simp add: hot_load_byte_def h)
qed (simp add: missing_def pad_0 split: prod.split)

lemma slot_present_places:
  assumes "map place cs = map place cs'"
  shows "list_ex (slot_present root lo j) cs = list_ex (slot_present root lo j) cs'"
proof -
  have "index_of (slot_present root lo j) cs = index_of (slot_present root lo j) cs'"
    by (rule index_of_place [OF assms]) (simp add: place_def slot_present_def)
  then show ?thesis using index_of_None_iff by metis
qed

lemma hot_store_pad:
  assumes "clean s" "distinct ks"
  shows "foldl (hot_store_byte b d w) (pad (missing b d ks s) s) ks = foldl (hot_store_byte b d w) s ks"
  using assms
proof (induction ks arbitrary: s)
  case (Cons k ks)
  obtain root lo where rl: "canon_addr b d = (root, lo)" by fastforce
  obtain i s1 where h: "hot_slot b d (int k) s = (i, s1)" by fastforce
  let ?s2 = "hot_store_byte b d w s k"
  note hp = hot_slot_pad [OF Cons.prems(1) rl, where k = k]
  have m: "missing b d ks ?s2 = missing b d ks s"
  proof (rule missing_cong [OF rl])
    fix j assume "j \<in> set ks"
    then have "j \<noteq> k" using Cons.prems(2) by auto
    then show "list_ex (slot_present root lo j) (mem ?s2) = list_ex (slot_present root lo j) (mem s)"
      using hp(3) [of j] h slot_present_places [OF set_cell_places] by (simp add: hot_store_byte_def)
  qed
  have "hot_store_byte b d w (pad (missing b d (k # ks) s) s) k = pad (missing b d ks ?s2) ?s2"
    unfolding m using hp(1) [of "missing b d ks s"] by (simp add: missing_Cons [OF rl] h hot_store_byte_def)
  then show ?case using Cons.IH [of ?s2] hp(2) Cons.prems(2) by (simp add: hot_store_byte_def h clean_def)
qed (simp add: missing_def pad_0 split: prod.split)

lemma read_hot_pad:
  assumes "clean s"
  shows "read_hot_wide b d Dword (pad (missing b d [0..<8] s) s) = read_hot_wide b d Dword s"
  using hot_load_pad [OF assms, of "[0..<8]" b d "[]"] by (simp add: read_hot_wide_def del: upt_Suc upt.simps)

lemma write_hot_pad:
  assumes "clean s"
  shows "write_hot_word_imm b d v (pad (missing b d [0..<4] s) s) = write_hot_word_imm b d v s"
  using hot_store_pad [OF assms, of "[0..<4]" b d] by (simp add: write_hot_word_imm_def del: upt_Suc upt.simps)

text \<open>The two demoted accesses of the lifter.\<close>

lemma read_mem_hot_pad:
  assumes c: "clean s" and hot: "\<not> cold base d Dword s" and b: "b = fst (read_reg base s)"
  shows "read_mem base d Dword (pad (missing b d [0..<8] s) s) = read_mem base d Dword s"
proof -
  obtain root lo where rl: "canon_addr b d = (root, lo)" by fastforce
  have r: "read_reg base s = (b, first_touch base s)" using b read_reg_touch by (metis prod.collapse)
  let ?s1 = "plan_tail_split root lo (first_touch base s)"
  have h: "hot_covers ?s1 root lo (lo + 8)" using hot rl b hot_cong(1) [of ?s1 s] by (simp add: cold_def wbytes_def)
  have "missing b d [0..<8] ?s1 = missing b d [0..<8] s" by (rule missing_cong [OF rl]) simp
  moreover have "clean ?s1" using c by (simp add: clean_def)
  ultimately show ?thesis using h read_hot_pad [of ?s1 b d]
    by (simp add: read_mem_def r rl wbytes_def Let_def del: upt_Suc upt.simps)
qed

lemma write_mem_hot_pad:
  assumes c: "clean s" and hot: "\<not> cold base d Word_w s" and b: "b = fst (read_reg base s)"
  shows "write_mem base d Word_w (StWordImm v) (pad (missing b d [0..<4] s) s) = write_mem base d Word_w (StWordImm v) s"
proof -
  obtain root lo where rl: "canon_addr b d = (root, lo)" by fastforce
  have r: "read_reg base s = (b, first_touch base s)" using b read_reg_touch by (metis prod.collapse)
  let ?s1 = "first_touch base s"
  have h: "hot_covers ?s1 root lo (lo + 4)" using hot rl b hot_cong(1) [of ?s1 s] by (simp add: cold_def wbytes_def)
  have "missing b d [0..<4] ?s1 = missing b d [0..<4] s" by (rule missing_cong [OF rl]) simp
  moreover have "clean ?s1" using c by (simp add: clean_def)
  ultimately show ?thesis using h write_hot_pad [of ?s1 b d v]
    by (simp add: write_mem_def r rl wbytes_def Let_def del: upt_Suc upt.simps)
qed

subsection \<open>The line reserves what the step consumes\<close>

lemma reg_val_read: "reg_val_expr s r = fst (read_reg r s)"
  by (simp add: reg_val_expr_def read_reg_def split: option.split)

lemma value_pad:
  assumes "clean s"
  shows "snd (old_value w (lookup_cell_aliased b d w s) s) = pad (need b d w s) s"
    "snd (bounded_value w pc (lookup_cell_aliased b d w s) s) = pad (need b d w s) s"
  using reserve_pad [of 0 s] pad_0 [OF assms]
  by (simp_all add: old_value_def bounded_value_def need_def Let_def split: option.split expr.split prod.split)

lemma spec_cell_pad:
  assumes "clean s"
  shows "snd (spec_ldx_byte i pc s) = pad (need (fst (read_reg (unat (src i)) s)) (off i) Byte s) s"
    "snd (spec_ldx_mid w i pc s) = pad (need (fst (read_reg (unat (src i)) s)) (off i) w s) s"
    "snd (spec_stx w i pc s) = pad (need (fst (read_reg (unat (dst i)) s)) (off i) w s) s"
    "snd (spec_st_cell w i pc s) = pad (need (fst (read_reg (unat (dst i)) s)) (off i) w s) s"
  using value_pad [OF assms]
  by (simp_all add: spec_ldx_byte_def spec_ldx_mid_def spec_stx_def spec_st_cell_def reg_val_read case_prod_beta Let_def)

lemma spec_slots_state: "clean s \<Longrightarrow> snd (spec_slots b d pc n s) = pad (missing b d [0..<n] s) s"
  using spec_slots_pad [of b d pc "\<lparr>sa_args = [], sa_addrs = [], sa_bounds = [], sa_haddrs = [], sa_alias = 0\<rparr>" 0 s "[0..<n]"]
    pad_0 [of s] by (auto simp: spec_slots_def)

lemma spec_wide_pad:
  assumes c: "clean s"
  shows "snd (spec_ldx_dword i pc s) = pad (if dst i \<noteq> src i \<and> \<not> cold (unat (src i)) (off i) Dword s
      then missing (fst (read_reg (unat (src i)) s)) (off i) [0..<8] s else need (fst (read_reg (unat (src i)) s)) (off i) Dword s) s"
    "snd (spec_st_word i pc s) = pad (if cold (unat (dst i)) (off i) Word_w s
      then need (fst (read_reg (unat (dst i)) s)) (off i) Word_w s else missing (fst (read_reg (unat (dst i)) s)) (off i) [0..<4] s) s"
  using value_pad [OF c] spec_slots_state [OF c] spec_cell_pad(4) [OF c]
  by (simp_all add: spec_ldx_dword_def spec_st_word_def cold_def wbytes_def reg_val_read case_prod_beta Let_def del: upt_Suc upt.simps)

text \<open>
  The accesses the lifter supports next to hot regions: a wide access outside them, a demoted load of eight bytes into
  another register, a demoted word store of an immediate.
\<close>

definition hot_supported :: "sym_state \<Rightarrow> insn \<Rightarrow> bool" where
  "hot_supported s i = (case map_of insn_table (opc i) of
      Some (SLdx w) \<Rightarrow> cold (unat (src i)) (off i) w s \<or> w = Dword \<and> dst i \<noteq> src i
    | Some (SStx w) \<Rightarrow> stores_cold (unat (dst i)) (off i) w s
    | Some (SSt w) \<Rightarrow> stores_cold (unat (dst i)) (off i) w s \<or> w = Word_w \<and> \<not> cold (unat (dst i)) (off i) w s
    | _ \<Rightarrow> True)"

lemma stores_cold_cold: "stores_cold base d w s \<Longrightarrow> cold base d w s"
  using covers_intersects by (fastforce simp: stores_cold_def cold_def)

lemma step_load_pad:
  assumes "clean s" "cold (unat (src i)) (off i) w s \<or> w = Dword \<and> dst i \<noteq> src i"
  shows "step_load w i pc (snd (spec_shape v s i pc' t h tk jt (SLdx w))) = step_load w i pc s"
  using assms read_mem_pad [OF assms(1) _ refl, of "unat (src i)" "off i"] read_mem_hot_pad [OF assms(1) _ refl, of "unat (src i)" "off i"]
  by (cases w) (auto simp: step_load_def spec_shape_def cell_line_def spec_cell_pad spec_wide_pad cold_def wbytes_def simp del: upt_Suc upt.simps)

lemma step_store_reg_pad:
  assumes c: "clean s" and "stores_cold (unat (dst i)) (off i) w s"
  shows "step_store_reg w i (snd (spec_shape v s i pc t h tk jt (SStx w))) = step_store_reg w i s"
proof -
  let ?s1 = "first_touch (unat (src i)) s" and ?b = "fst (read_reg (unat (dst i)) s)"
  have "stores_cold (unat (dst i)) (off i) w ?s1" using assms(2) hot_cong(2) [of ?s1 s] by (simp add: stores_cold_def)
  then have "write_mem (unat (dst i)) (off i) w x (pad (need ?b (off i) w s) ?s1) = write_mem (unat (dst i)) (off i) w x ?s1" for x
    using write_mem_pad [of ?s1 "unat (dst i)" "off i" w ?b x] c need_cong [of ?s1 s] by (simp add: clean_def)
  then show ?thesis
    by (simp add: step_store_reg_def spec_shape_def cell_line_def spec_cell_pad [OF c] case_prod_beta read_reg_touch)
qed

lemma step_store_imm_pad:
  assumes c: "clean s" and "stores_cold (unat (dst i)) (off i) w s \<or> w = Word_w \<and> \<not> cold (unat (dst i)) (off i) w s"
  shows "step_store_imm w i (snd (spec_shape v s i pc t h tk jt (SSt w))) = step_store_imm w i s"
  using assms(2) write_mem_pad [OF c _ refl, of "unat (dst i)" "off i" w] write_mem_hot_pad [OF c _ refl, of "unat (dst i)" "off i"]
    stores_cold_cold [of "unat (dst i)" "off i" w s]
  by (cases w) (auto simp: step_store_imm_def spec_shape_def cell_line_def spec_cell_pad [OF c] spec_wide_pad [OF c] simp del: upt_Suc upt.simps)

lemma plain_shape_state:
  "(\<forall>w. sh \<noteq> SLdx w \<and> sh \<noteq> SStx w \<and> sh \<noteq> SSt w) \<Longrightarrow> snd (spec_shape v s i pc t h tk jt sh) = s"
  by (cases sh) (auto simp: spec_shape_def plain_line_def split: bool.split)

lemma spec_call_state:
  "snd (spec_call_for v s i pc t h tk (Some jt)) =
     (case map_of insn_table (opc i) of Some sh \<Rightarrow> if insn_class (opc i) = BPF_JMP32 then s else snd (spec_shape v s i pc t h tk jt sh) | None \<Rightarrow> s)"
  by (auto simp: spec_call_for_def case_prod_beta Let_def split: option.split)

lemma step_pad:
  assumes c: "clean s" and h: "hot_supported s i"
  shows "step (snd (prepare_step v s i pc t hn tk jt)) i (Some pc) tk = step s i (Some pc) tk"
proof (cases "map_of insn_table (opc i)")
  case (Some sh)
  then have nj: "insn_class (opc i) \<noteq> BPF_JMP32" using table_no_jmp32 by (auto simp: list_all_iff dest: map_of_SomeD)
  then have st: "snd (prepare_step v s i pc t hn tk jt) = snd (spec_shape v s i pc t hn tk jt sh)"
    by (simp add: prepare_step_def spec_call_state Some)
  show ?thesis
    using h step_load_pad [OF c] step_store_reg_pad [OF c] step_store_imm_pad [OF c] plain_shape_state [of sh v s i pc t hn tk jt]
    unfolding st by (cases sh) (auto simp: step_def Some nj hot_supported_def)
qed (simp add: prepare_step_def spec_call_state)

subsection \<open>A step leaves no reservation behind\<close>

lemma names_more [simp]:
  "names (write_reg r v s) = names s" "names (touch_cell b d w wr hit s) = names s" "names (record_side_hypothesis n p s) = names s"
  "names (record_branch bh s) = names s" "names (push_call_frame pc fr s) = names s"
  by (simp_all add: write_reg_def touch_cell_def push_access_def record_side_hypothesis_def record_branch_def push_call_frame_def Let_def
      split: prod.split)

lemma clean_names: "names s' = names s \<Longrightarrow> clean s' = clean s"
  by (simp add: clean_def)

lemma load_cell_clean: "clean s \<Longrightarrow> clean (snd (load_cell b d w s))"
proof -
  assume c: "clean s"
  obtain i s1 where a: "alloc_fresh_name s = (i, s1)" by fastforce
  then have "clean s1" using alloc_clean [OF c] by simp
  then show ?thesis using c by (simp add: load_cell_def fresh_cell_def a Let_def clean_def split: option.split)
qed

lemma hot_slot_clean: "clean s \<Longrightarrow> clean (snd (hot_slot b d (int k) s))"
  using hot_slot_pad(2) by (metis prod.collapse)

lemma hot_load_clean: "clean (snd acc) \<Longrightarrow> clean (snd (foldl (hot_load_byte b d) acc ks))"
  by (induction ks arbitrary: acc) (simp_all add: hot_load_byte_def hot_slot_clean case_prod_beta)

lemma hot_store_clean: "clean s \<Longrightarrow> clean (foldl (hot_store_byte b d w) s ks)"
  by (induction ks arbitrary: s) (simp_all add: hot_store_byte_def hot_slot_clean case_prod_beta clean_names [of "set_cell _ _ _"])

lemma read_mem_clean: "clean s \<Longrightarrow> clean (snd (read_mem base d w s))"
proof -
  assume c: "clean s"
  have r: "read_reg base s = (fst (read_reg base s), first_touch base s)" using read_reg_touch by (metis prod.collapse)
  have h: "clean (snd (read_hot_wide b d' w' t))" if "clean t" for b d' w' t
    using that hot_load_clean [of "([], t)" b d' "[0..<8]"]
    by (simp add: read_hot_wide_def case_prod_beta clean_names [of "push_error _ _"] clean_names [of "push_access _ _"] del: upt_Suc upt.simps)
  show ?thesis unfolding read_mem_def
    by (subst r) (simp add: case_prod_beta Let_def h load_cell_clean clean_names [OF names_ops(1)] clean_names [OF names_ops(4)]
        clean_names [OF names_ops(5)] c)
qed

lemma store_cell_clean: "clean s \<Longrightarrow> clean (store_cell base b d w v s)"
  using read_mem_clean [of s base d w]
  by (simp add: store_cell_def overwrite_cell_def materialize_def Let_def clean_def split: option.split)

lemma write_mem_clean: "clean s \<Longrightarrow> clean (write_mem base d w v s)"
proof -
  assume c: "clean s"
  have r: "read_reg base s = (fst (read_reg base s), first_touch base s)" using read_reg_touch by (metis prod.collapse)
  have h: "clean (write_hot_word_imm b d' x t)" if "clean t" for b d' x t
    using hot_store_clean [OF that] by (simp add: write_hot_word_imm_def clean_names [OF names_ops(2)] del: upt_Suc upt.simps)
  show ?thesis unfolding write_mem_def
    by (subst r) (simp add: case_prod_beta Let_def h store_cell_clean clean_names [OF names_ops(1)] clean_names [OF names_ops(4)]
        clean_names [OF names_ops(3)] c split: width.split expr.split)
qed

lemma step_clean:
  assumes "step s i pc tk = Ok s'" "clean s"
  shows "clean s'"
proof -
  have e: "names (update_reg d f t) = names t" "names (step_alu64 op r i pc t) = names t" "names (step_alu32 op r i pc t) = names t"
    "names (step_jump k r im i tk t) = names t" "names (step_call pc t) = names t" for d f t op r k im
    by (simp_all add: effect_defs)
  have "clean (step_load w i pc s)" for w
    using read_mem_clean [OF assms(2), of "unat (src i)" "off i" w]
    by (simp add: step_load_def case_prod_beta clean_def split: option.split)
  moreover have "clean (step_store_reg w i s)" for w
    using write_mem_clean [of "first_touch (unat (src i)) s"] assms(2)
    by (simp add: step_store_reg_def case_prod_beta read_reg_touch clean_def)
  moreover have "clean (step_store_imm w i s)" for w using write_mem_clean [OF assms(2)] by (simp add: step_store_imm_def)
  ultimately show ?thesis using assms clean_names [OF e(1)] clean_names [OF e(2)] clean_names [OF e(3)] clean_names [OF e(4)]
      clean_names [OF e(5)] clean_names [OF names_more(1)] by (auto simp: step_def split: option.splits shape.splits)
qed

subsection \<open>Properties\<close>



text \<open>The spec-call table covers the step: every instruction the symbolic step accepts gets its spec-call line, except a
  64-bit subtraction of an immediate, which has no row, and an indirect call outside version 3 or without a resolved target.\<close>

theorem spec_call_total:
  assumes "step s i (Some pc) tk = Ok s'"
  shows "fst (prepare_step v s i pc target h tk jt) = None \<longleftrightarrow> opc i = 0x17 \<or> opc i = CALL_REG \<and> (v \<noteq> V3 \<or> target = None)"
proof (cases "insn_class (opc i) = BPF_JMP32")
  case True
  then have "map_of insn_table (opc i) = None" using table_no_jmp32 by (auto simp: list_all_iff map_of_eq_None_iff)
  then obtain c where "jmp32_cond (opc i) = Some c" using assms True by (auto simp: step_def split: option.splits)
  then have "map_of jmp32_table (clear_x (opc i)) \<noteq> None" by (auto simp: jmp32_cond_def jmp32_table_def split: if_splits)
  moreover have "opc i \<noteq> 0x17" "opc i \<noteq> CALL_REG" using True by (auto simp: insn_class_def)
  ultimately show ?thesis using True by (auto simp: prepare_step_def spec_call_for_def Let_def)
next
  case False
  then obtain sh where sh: "map_of insn_table (opc i) = Some sh" using assms by (auto simp: step_def split: option.splits)
  have rows: "list_all (\<lambda>(b, x). (x = SAlu64 Sub False \<longleftrightarrow> b = 0x17) \<and> (x = SCallReg \<longleftrightarrow> b = CALL_REG)) insn_table" by code_simp
  then have "(sh = SAlu64 Sub False \<longleftrightarrow> opc i = 0x17) \<and> (sh = SCallReg \<longleftrightarrow> opc i = CALL_REG)"
    using map_of_SomeD [OF sh] by (auto simp: list_all_iff)
  moreover have "fst (spec_shape v s i pc target h tk jt sh) = None \<longleftrightarrow> sh = SAlu64 Sub False \<or> sh = SCallReg \<and> (v \<noteq> V3 \<or> target = None)"
    by (cases sh) (auto simp: spec_shape_def cell_line_def plain_line_def spec_alu64_imm_def spec_callx_def split: width.split bool.split)
  ultimately show ?thesis using False by (simp add: prepare_step_def spec_call_for_def case_prod_beta sh Let_def)
qed

theorem spec_call_total_witness:
  "fst (prepare_step V0 (with_retry_plans [] []) \<lparr>opc = 0x17, dst = 2, src = 0, off = 0, imm = 1\<rparr> 5 None None None 6) = None"
proof -
  let ?i = "\<lparr>opc = 0x17, dst = 2, src = 0, off = 0, imm = 1\<rparr> :: insn"
  have "map_of insn_table (opc ?i) = Some (SAlu64 Sub False)" by code_simp
  then obtain s' where "step (with_retry_plans [] []) ?i (Some 5) None = Ok s'" by (auto simp: step_def insn_class_def)
  then show ?thesis using spec_call_total by fastforce
qed

end
