(* ===== verification/Syscalls.thy ===== *)
theory Syscalls
  imports Prepared_Step
begin

text \<open>
  Host syscalls on a walked path: the effect of each modelled syscall on the symbolic state
  (\<open>qedlift/src/syscalls.rs\<close>) and the registry that finds it from the immediate of a call
  (\<open>qedlift/src/exec/syscall_registry.rs\<close>).  An emitter extends the precondition, the footprint ledger and the region
  requirements, sets \<open>r0\<close>, and appends the spec-call line and the walked pc.  The symbol hash of the sBPF
  library and the read-only region of the loaded image are parameters.
\<close>

text \<open>The walk artifacts an emitter works on: the state, the spec calls and the walked pcs.\<close>

type_synonym artifacts = "sym_state \<times> spec_call list \<times> nat list"

abbreviation decides :: "nat \<Rightarrow> string list" where "decides n \<equiv> replicate n by_decide"
abbreviation or_sign :: string where "or_sign \<equiv> [CHR 0xE2, CHR 0x88, CHR 0xA8]"

definition finish_syscall :: "nat \<Rightarrow> string \<Rightarrow> string \<Rightarrow> string \<Rightarrow> string \<Rightarrow> artifacts \<Rightarrow> artifacts" where
  "finish_syscall pc ctor ncu hcu line a = (case a of (s, calls, pcs) \<Rightarrow>
     (s\<lparr>syscall_cu_vars := syscall_cu_vars s @ [(ncu, hcu, ctor)], syscall_pcs := bt_insert pc ctor (syscall_pcs s)\<rparr>,
      calls @ [\<lparr>sc_hyp_name = hyp_of pc, have_line = line\<rparr>], pcs @ [pc]))"

subsection \<open>Shared pieces\<close>

definition push_atom :: "atom \<Rightarrow> sym_state \<Rightarrow> sym_state" where
  "push_atom a s = s\<lparr>pre := pre s @ [a]\<rparr>"

definition push_blob :: "string \<Rightarrow> string \<Rightarrow> sym_state \<Rightarrow> sym_state" where
  "push_blob n sz s = s\<lparr>memset_blobs := memset_blobs s @ [(n, sz)]\<rparr>"

definition push_range :: "expr \<Rightarrow> width \<Rightarrow> bool \<Rightarrow> expr \<Rightarrow> sym_state \<Rightarrow> sym_state" where
  "push_range b w writes len s = push_access (Access b 0 w writes (Some (b, len))) s"

definition continue_group :: "nat set \<Rightarrow> sym_state \<Rightarrow> sym_state" where
  "continue_group is s = s\<lparr>rr_continuations := rr_continuations s \<union> is\<rparr>"

definition set_blob_post :: "expr \<Rightarrow> bytes_val \<Rightarrow> sym_state \<Rightarrow> sym_state" where
  "set_blob_post a v s = s\<lparr>byte_blob_post := bt_insert (to_lean a) v (byte_blob_post s)\<rparr>"

definition set_bytes32_post :: "expr \<Rightarrow> string \<Rightarrow> sym_state \<Rightarrow> sym_state" where
  "set_bytes32_post a v s = s\<lparr>bytes32_post := bt_insert (to_lean a) v (bytes32_post s)\<rparr>"

definition push_bytearray :: "string \<Rightarrow> sym_state \<Rightarrow> sym_state" where
  "push_bytearray n s = s\<lparr>bytearray_vars := bytearray_vars s @ [n]\<rparr>"

definition push_blob_side :: "string \<Rightarrow> string \<Rightarrow> sym_state \<Rightarrow> sym_state" where
  "push_blob_side n p s = s\<lparr>blob_side_hyps := blob_side_hyps s @ [(n, p)]\<rparr>"

definition exclude_gen :: "string \<Rightarrow> sym_state \<Rightarrow> sym_state" where
  "exclude_gen t s = s\<lparr>gen_exclude := gen_exclude s @ [t]\<rparr>"

text \<open>A length that is not a literal counts as one byte.\<close>

definition blob_len_of :: "expr \<Rightarrow> int" where
  "blob_len_of e = max (case const_of_expr e of Some n \<Rightarrow> n | None \<Rightarrow> 1) 1"

definition sz_hyp :: "string \<Rightarrow> string" where
  "sz_hyp n = ''h'' @ n @ ''_sz''"

subsection \<open>sol_memset\<close>

text \<open>The trailing dwords of the blob that the state already owns, last first.\<close>

definition tail_cell :: "string \<Rightarrow> int \<Rightarrow> mem_cell list \<Rightarrow> nat option" where
  "tail_cell root want cs = index_of (\<lambda>c. mc_width c = Dword \<and>
     (let (cr, cd) = canon_addr (addr_base c) (addr_off c) in cr = root \<and> cd + mc_delta c = want)) cs"

fun tail_cells :: "string \<Rightarrow> int \<Rightarrow> int \<Rightarrow> int list \<Rightarrow> mem_cell list \<Rightarrow> nat list" where
  "tail_cells root lo len [] cs = []"
| "tail_cells root lo len (k # ks) cs =
     (if len < 8 * k + 1 then []
      else case tail_cell root (lo + len - 8 * k) cs of
             Some i \<Rightarrow> i # tail_cells root lo len ks cs
           | None \<Rightarrow> [])"

definition fill_word :: "u8 \<Rightarrow> u64" where
  "fill_word f = u64_of_le (replicate 8 f)"

record memset_call =
  ms_pc :: nat
  ms_r0 :: expr
  ms_r1 :: expr
  ms_r2 :: expr
  ms_r3 :: expr
  ms_ncu :: string
  ms_hcu :: string
  ms_bs :: string

definition ms_head :: "memset_call \<Rightarrow> string list" where
  "ms_head m = map atom_lean [ms_r0 m, ms_r1 m, ms_r2 m, ms_r3 m]"

definition ms_blob_key :: "memset_call \<Rightarrow> string" where
  "ms_blob_key m = ''blob:'' @ to_lean (ms_r1 m)"

definition ms_shrink :: "memset_call \<Rightarrow> int \<Rightarrow> sym_state \<Rightarrow> sym_state" where
  "ms_shrink m n s = set_blob_post (ms_r1 m) (Replicate (ms_r2 m) (Const n)) (note_access (ms_r1 m) 0 n (ms_blob_key m) s)"

definition memset_presplit1 :: "memset_call \<Rightarrow> nat \<Rightarrow> int \<Rightarrow> u8 \<Rightarrow> sym_state \<Rightarrow> string \<times> sym_state" where
  "memset_presplit1 m ci len fill s =
     (let n = len - 8; w = fill_word fill; a = cell_render (mem s ! ci); old = atom_lean (mc_value (mem s ! ci));
          ha = ''h_msplit_'' @ digits (ms_pc m);
          s1 = ms_shrink m n (set_cell ci (Const (sint w)) s);
          s2 = record_side_hypothesis ha (a @ '' = '' @ atom_lean (ms_r1 m) @ '' + '' @ show_int n) s1
      in (have_text (ms_pc m) ''call_sol_memset_presplit_u64_spec''
            (ms_head m @ [show_int n, digits (unat w), paren a, old, digits (ms_pc m), ms_ncu m, ms_bs m, sz_hyp (ms_bs m), by_decide, ha] @
             decides 8 @ [ms_hcu m]), s2))"

definition memset_presplit2 :: "memset_call \<Rightarrow> nat \<Rightarrow> nat \<Rightarrow> int \<Rightarrow> u8 \<Rightarrow> sym_state \<Rightarrow> string \<times> sym_state" where
  "memset_presplit2 m c2 c1 len fill s =
     (let n = len - 16; w = fill_word fill; a1 = cell_render (mem s ! c1); a2 = cell_render (mem s ! c2);
          old1 = atom_lean (mc_value (mem s ! c1)); old2 = atom_lean (mc_value (mem s ! c2));
          ha1 = ''h_msplit_'' @ digits (ms_pc m) @ ''_a1''; ha2 = ''h_msplit_'' @ digits (ms_pc m) @ ''_a2'';
          s1 = ms_shrink m n (set_cell c2 (Const (sint w)) (set_cell c1 (Const (sint w)) s));
          s2 = record_side_hypothesis ha1 (a1 @ '' = '' @ atom_lean (ms_r1 m) @ '' + '' @ show_int n) s1;
          s3 = record_side_hypothesis ha2 (a2 @ '' = '' @ atom_lean (ms_r1 m) @ '' + '' @ show_int n @ '' + 8'') s2
      in (have_text (ms_pc m) ''call_sol_memset_presplit_2u64_spec''
            (ms_head m @ [show_int n, digits (unat w), paren a1, paren a2, old1, old2, digits (ms_pc m), ms_ncu m, ms_bs m,
             sz_hyp (ms_bs m), by_decide, ha1, ha2] @ decides 8 @ [ms_hcu m]), s3))"

definition memset_split :: "memset_call \<Rightarrow> int \<Rightarrow> u8 \<Rightarrow> sym_state \<Rightarrow> string \<times> sym_state" where
  "memset_split m n fill s =
     (let w = fill_word fill; r1 = ms_r1 m; ha = ''h_msplit_'' @ digits (ms_pc m);
          s1 = note_access r1 n 8 (''blobtail:'' @ to_lean r1) (note_access r1 0 n (ms_blob_key m) s);
          s2 = set_blob_post r1 (Replicate (ms_r2 m) (Const n)) s1;
          s3 = s2\<lparr>mem := mem s2 @ [\<lparr>addr_base = r1, addr_off = n, mc_width = Dword, mc_value = Const (sint w), mc_delta = 0\<rparr>]\<rparr>;
          s4 = record_side_hypothesis ha (addr_render r1 n @ '' = '' @ atom_lean r1 @ '' + '' @ show_int n) s3
      in (have_text (ms_pc m) ''call_sol_memset_split_u64_spec''
            (ms_head m @ [show_int n, digits (unat w), paren (addr_render r1 n), digits (ms_pc m), ms_ncu m, ms_bs m,
             sz_hyp (ms_bs m), by_decide, ha] @ decides 8 @ [ms_hcu m]), s4))"

definition memset_plain :: "memset_call \<Rightarrow> int \<Rightarrow> sym_state \<Rightarrow> string \<times> sym_state" where
  "memset_plain m len s =
     (have_text (ms_pc m) ''call_sol_memset_spec'' (ms_head m @ [digits (ms_pc m), ms_ncu m, ms_bs m, sz_hyp (ms_bs m), ms_hcu m]),
      set_blob_post (ms_r1 m) (Replicate (ms_r2 m) (ms_r3 m)) (note_access (ms_r1 m) 0 len (ms_blob_key m) s))"

definition memset_effect :: "memset_call \<Rightarrow> nat list \<Rightarrow> int option \<Rightarrow> int \<Rightarrow> u8 option \<Rightarrow> sym_state \<Rightarrow> string \<times> sym_state" where
  "memset_effect m tails split_n len fill s = (case (tails, split_n, fill) of
      ([ci], _, Some f) \<Rightarrow> memset_presplit1 m ci len f s
    | ([c2, c1], _, Some f) \<Rightarrow> memset_presplit2 m c2 c1 len f s
    | ([], Some n, Some f) \<Rightarrow> memset_split m n f s
    | _ \<Rightarrow> memset_plain m len s)"

definition emit_sol_memset :: "nat \<Rightarrow> string \<Rightarrow> artifacts \<Rightarrow> artifacts" where
  "emit_sol_memset pc ctor a = (case a of (s, calls, pcs) \<Rightarrow>
     (let (r0, s1) = read_reg 0 s; (r1, s2) = read_reg 1 s1; (r2, s3) = read_reg 2 s2; (r3, s4) = read_reg 3 s3;
          s5 = push_range r1 Byte True r3 s4;
          ((idx, ncu, hcu), s6) = alloc_syscall ''Memset'' s5;
          bs = ''memsetBs_'' @ digits idx;
          len = blob_len_of r3; (root, lo) = canon_addr r1 0;
          fill = map_option word_of_int (const_of_expr r2);
          s7 = (if const_of_expr r3 = None then s6 else register_blob root lo len (map_option unat fill) s6);
          split_n = blob_split root lo s7;
          tails = (if const_of_expr r3 \<noteq> None \<and> fill \<noteq> None then tail_cells root lo len [1, 2] (mem s7) else []);
          sz = (if tails = [] then atom_lean r3 else show_int (len - 8 * int (length tails)));
          s8 = write_reg 0 (Const 0) (push_blob bs sz (push_atom (Atom_Bytes r1 (Sym bs)) s7));
          m = \<lparr>ms_pc = pc, ms_r0 = r0, ms_r1 = r1, ms_r2 = r2, ms_r3 = r3, ms_ncu = ncu, ms_hcu = hcu, ms_bs = bs\<rparr>;
          (line, s9) = memset_effect m tails split_n len fill s8
      in finish_syscall pc ctor ncu hcu line (s9, calls, pcs)))"

subsection \<open>sol_memcmp\<close>

definition emit_sol_memcmp :: "nat \<Rightarrow> string \<Rightarrow> artifacts \<Rightarrow> artifacts" where
  "emit_sol_memcmp pc ctor a = (case a of (s, calls, pcs) \<Rightarrow>
     (let (r0, s1) = read_reg 0 s; (r1, s2) = read_reg 1 s1; (r2, s3) = read_reg 2 s2; (r3, s4) = read_reg 3 s3; (r4, s5) = read_reg 4 s4;
          s6 = push_range r4 Word_w True (Const 4) (push_range r2 Byte False r3 (push_range r1 Byte False r3 s5));
          ((idx, ncu, hcu), s7) = alloc_syscall ''Memcmp'' s6;
          p1 = ''memcmpP1_'' @ digits idx; p2 = ''memcmpP2_'' @ digits idx; sz = atom_lean r3; len = blob_len_of r3;
          s8 = push_blob p2 sz (push_blob p1 sz (push_atom (Atom_Bytes r2 (Sym p2)) (push_atom (Atom_Bytes r1 (Sym p1)) s7)));
          (oi, s9) = alloc_fresh_name s8;
          out = ''oldMemW_'' @ digits oi;
          s10 = add_cell \<lparr>addr_base = r4, addr_off = 0, mc_width = Word_w, mc_value = InitMem out, mc_delta = 0\<rparr> (add_load_var (out, 32) s9);
          ci = length (mem s10) - 1;
          s11 = note_access r4 0 4 (''memcmpOut:'' @ to_lean r4) (note_access r2 0 len (''memcmpP2:'' @ to_lean r2)
                  (note_access r1 0 len (''memcmpP1:'' @ to_lean r1) s10));
          s12 = write_reg 0 (Const 0) (set_cell ci (Raw (''(memcmpResultU32 '' @ p1 @ '' '' @ p2 @ '' '' @ sz @ '')'')) s11)
      in finish_syscall pc ctor ncu hcu
           (have_text pc ''call_sol_memcmp_spec'' (map atom_lean [r0, r1, r2, r3, r4] @ [out, digits pc, ncu, p1, p2, sz_hyp p1, sz_hyp p2, hcu]))
           (s12, calls, pcs)))"

subsection \<open>sol_get_sysvar\<close>

definition RENT_ID_BYTES :: bytes where
  "RENT_ID_BYTES = [0x06, 0xa7, 0xd5, 0x17, 0x19, 0x2c, 0x5c, 0x51, 0x21, 0x8c, 0xc9, 0x4c, 0x3d, 0x4a, 0xf1, 0x7f,
     0x58, 0xda, 0xee, 0x08, 0x9b, 0xa1, 0xfd, 0x44, 0xe3, 0xdb, 0xd9, 0x8a, 0x00, 0x00, 0x00, 0x00]"

definition RENT_LAMPORTS_PER_BYTE :: int where "RENT_LAMPORTS_PER_BYTE = 6960"
definition RENT_EXEMPTION_THRESHOLD_BITS :: int where "RENT_EXEMPTION_THRESHOLD_BITS = 0x3FF0000000000000"
definition RENT_BURN_PERCENT :: int where "RENT_BURN_PERCENT = 50"

text \<open>The read-only region of the loaded image: its virtual address and its bytes.\<close>

record ro_region =
  ro_vm_addr :: u64
  ro_bytes :: bytes

text \<open>The sysvar id at an address; the sum \<open>r + 32\<close> is a checked \<open>u64\<close> addition.\<close>

definition sysvar_id :: "ro_region \<Rightarrow> u64 \<Rightarrow> (diagnostic_kind, bytes) res" where
  "sysvar_id ro addr =
     (if addr < ro_vm_addr ro then Err UnsupportedConstruct
      else let rel = unat (addr - ro_vm_addr ro) in
           if 2 ^ 64 \<le> rel + 32 then Panic
           else if rel + 32 \<le> length (ro_bytes ro) then Ok (take 32 (drop rel (ro_bytes ro))) else Err UnsupportedConstruct)"

definition sysvar_cells :: "(int \<times> width \<times> nat \<times> int) list" where
  "sysvar_cells = [(0, Dword, 64, RENT_LAMPORTS_PER_BYTE), (8, Dword, 64, RENT_EXEMPTION_THRESHOLD_BITS), (16, Byte, 8, RENT_BURN_PERCENT)]"

definition sysvar_cell :: "expr \<Rightarrow> string list \<times> sym_state \<Rightarrow> int \<times> width \<times> nat \<times> int \<Rightarrow> string list \<times> sym_state" where
  "sysvar_cell r2 acc c = (case (acc, c) of ((olds, s), (coff, w, bits, post)) \<Rightarrow>
     (let (i, s1) = alloc_fresh_name s;
          n = (if w = Dword then ''oldMemD_'' else ''oldMemB_'') @ digits i;
          s2 = add_cell \<lparr>addr_base = r2, addr_off = coff, mc_width = w, mc_value = InitMem n, mc_delta = 0\<rparr> (add_load_var (n, bits) s1);
          s3 = note_access r2 coff (if w = Dword then 8 else 1) (''sysvarOut:'' @ to_lean r2 @ ''@'' @ show_int coff) s2
      in (olds @ [n], set_cell (length (mem s3) - 1) (Const post) s3)))"

definition sysvar_sides :: "nat \<Rightarrow> expr \<Rightarrow> expr \<Rightarrow> (string \<times> string) list" where
  "sysvar_sides pc r1 r2 =
     (let out = to_lean r2; oa = atom_lean r2; ia = atom_lean r1; nm = (\<lambda>t. ''h_sysvar_'' @ t @ ''_'' @ digits pc) in
      [(nm ''out'', oa @ '' < Memory.INPUT_START''), (nm ''outlen'', oa @ '' + 17 < U64_MODULUS''),
       (nm ''disj'', ia @ '' + 32 '' @ le_sign @ '' '' @ oa @ '' '' @ or_sign @ '' '' @ oa @ '' + 17 '' @ le_sign @ '' '' @ ia),
       (nm ''a1'', addr_render r2 8 @ '' = '' @ oa @ '' + 8''), (nm ''a2'', addr_render r2 16 @ '' = '' @ oa @ '' + 8 + 8'')])"

definition sysvar_line :: "nat \<Rightarrow> expr \<Rightarrow> expr \<Rightarrow> expr \<Rightarrow> string list \<Rightarrow> string \<Rightarrow> string \<Rightarrow> string" where
  "sysvar_line pc r0 r1 r2 olds ncu hcu =
     (let nm = (\<lambda>t. ''h_sysvar_'' @ t @ ''_'' @ digits pc) in
      have_text pc ''call_sol_get_sysvar_cells17_spec''
        ([''SysvarEnv.molluskDefaults'', atom_lean r0, paren (to_lean r1), paren (to_lean r2), ''0'', ''17'',
          paren (addr_render r2 8), paren (addr_render r2 16)] @ olds @
         map show_int [RENT_LAMPORTS_PER_BYTE, RENT_EXEMPTION_THRESHOLD_BITS, RENT_BURN_PERCENT] @
         [''SysvarData.rentId'', ''SysvarData.rentBuf'', ''SysvarData.rentBuf'', digits pc, ncu, ''rfl'',
          ''SysvarData.molluskDefaults_bincode_rent'', by_decide, nm ''out'', by_decide, nm ''outlen'', ''rfl'', ''rfl'',
          ''(by intro i _; rw [Nat.zero_add])'', ''rfl'', by_decide, ''h'' @ (olds ! 2) @ ''_lt'', nm ''a1'', nm ''a2'', nm ''disj'', hcu]))"

definition emit_sol_get_sysvar :: "ro_region \<Rightarrow> nat \<Rightarrow> string \<Rightarrow> artifacts \<Rightarrow> (diagnostic_kind, artifacts) res" where
  "emit_sol_get_sysvar ro pc ctor a = (case a of (s, calls, pcs) \<Rightarrow>
     (let (r0, s1) = read_reg 0 s; (r1, s2) = read_reg 1 s1; (r2, s3) = read_reg 2 s2; (r3, s4) = read_reg 3 s3; (r4, s5) = read_reg 4 s4 in
      bind_res (ok_or SymbolicOperand (const_of_expr r1)) (\<lambda>addr.
      bind_res (ok_or SymbolicOperand (const_of_expr r3)) (\<lambda>o1.
      bind_res (ok_or SymbolicOperand (const_of_expr r4)) (\<lambda>len.
      bind_res (sysvar_id ro (word_of_int addr)) (\<lambda>id_bytes.
      if id_bytes \<noteq> RENT_ID_BYTES \<or> o1 \<noteq> 0 \<or> len \<noteq> 17 then Err UnsupportedConstruct
      else
       (let g0 = length (rr_walk s5);
            s6 = push_access (Sysvars_clause ''SysvarEnv.molluskDefaults'') s5;
            s7 = continue_group {g0 + 1, g0 + 2} (push_range r1 Byte False (Const 32) (push_range r2 Byte True (Const 17) s6));
            ((_, ncu, hcu), s8) = alloc_syscall ''GetSysvar'' s7;
            s9 = note_access r1 0 32 (''sysvarId:'' @ to_lean r1) (push_atom (Atom_Bytes32 r1 ''SysvarData.rentId'') s8);
            (olds, s10) = foldl (sysvar_cell r2) ([], s9) sysvar_cells;
            s11 = foldl (\<lambda>t (n, p). record_side_hypothesis n p t) (write_reg 0 (Const 0) s10) (sysvar_sides pc r1 r2)
        in Ok (finish_syscall pc ctor ncu hcu (sysvar_line pc r0 r1 r2 olds ncu hcu) (s11, calls, pcs)))))))))"

subsection \<open>sol_log and sol_log_64\<close>

definition emit_sol_log :: "nat \<Rightarrow> string \<Rightarrow> artifacts \<Rightarrow> artifacts" where
  "emit_sol_log pc ctor a = (case a of (s, calls, pcs) \<Rightarrow>
     (let (r0, s1) = read_reg 0 s; (r1, s2) = read_reg 1 s1; (r2, s3) = read_reg 2 s2;
          ((_, ncu, hcu), s4) = alloc_syscall ''Log'' (push_range r1 Byte False r2 s3)
      in finish_syscall pc ctor ncu hcu (have_text pc ''call_sol_log_spec'' (map atom_lean [r0, r1, r2] @ [digits pc, ncu, hcu]))
           (write_reg 0 (Const 0) s4, calls, pcs)))"

definition emit_sol_log_64 :: "nat \<Rightarrow> string \<Rightarrow> artifacts \<Rightarrow> artifacts" where
  "emit_sol_log_64 pc ctor a = (case a of (s, calls, pcs) \<Rightarrow>
     (let (r0, s1) = read_reg 0 s; ((_, ncu, hcu), s2) = alloc_syscall ''Log64'' s1
      in finish_syscall pc ctor ncu hcu (have_text pc ''call_sol_log_64_spec'' [atom_lean r0, digits pc, ncu, hcu])
           (write_reg 0 (Const 0) s2, calls, pcs)))"

subsection \<open>sol_memcpy and sol_memmove\<close>

definition emit_sol_memcpy :: "bool \<Rightarrow> nat \<Rightarrow> string \<Rightarrow> artifacts \<Rightarrow> artifacts" where
  "emit_sol_memcpy is_move pc ctor a = (case a of (s, calls, pcs) \<Rightarrow>
     (let (r0, s1) = read_reg 0 s; (r1, s2) = read_reg 1 s1; (r2, s3) = read_reg 2 s2; (r3, s4) = read_reg 3 s3;
          s5 = push_range r1 Byte True r3 (push_range r2 Byte False r3 s4);
          (mnem, cap) = (if is_move then (''memmove'', ''Memmove'') else (''memcpy'', ''Memcpy''));
          ((idx, ncu, hcu), s6) = alloc_syscall cap s5;
          sn = mnem @ ''Src_'' @ digits idx; dn = mnem @ ''Dst_'' @ digits idx; sz = atom_lean r3; len = blob_len_of r3;
          s7 = push_blob dn sz (push_blob sn sz (push_atom (Atom_Bytes r1 (Sym dn)) (push_atom (Atom_Bytes r2 (Sym sn)) s6)));
          s8 = note_access r1 0 len (mnem @ ''Dst:'' @ to_lean r1) (note_access r2 0 len (mnem @ ''Src:'' @ to_lean r2) s7)
      in finish_syscall pc ctor ncu hcu
           (have_text pc (if is_move then ''call_sol_memmove_spec'' else ''call_sol_memcpy_spec'')
              (map atom_lean [r0, r1, r2, r3] @ [digits pc, ncu, sn, dn, sz_hyp sn, sz_hyp dn, hcu]))
           (write_reg 0 (Const 0) (set_blob_post r1 (Sym sn) s8), calls, pcs)))"

subsection \<open>sol_set_return_data\<close>

definition emit_sol_set_return_data :: "nat \<Rightarrow> string \<Rightarrow> artifacts \<Rightarrow> artifacts" where
  "emit_sol_set_return_data pc ctor a = (case a of (s, calls, pcs) \<Rightarrow>
     (let (r0, s1) = read_reg 0 s; (r1, s2) = read_reg 1 s1; (r2, s3) = read_reg 2 s2;
          ((idx, ncu, hcu), s4) = alloc_syscall ''SetRetData'' (push_range r1 Byte False r2 s3);
          bn = ''setRetData_'' @ digits idx; rd = ''retDataOld_'' @ digits idx;
          s5 = push_bytearray rd (push_blob bn (atom_lean r2) (push_atom (Atom_ReturnData (Sym rd)) (push_atom (Atom_Bytes r1 (Sym bn)) s4)));
          s6 = (note_access r1 0 (blob_len_of r2) (''setRetData:'' @ to_lean r1) s5)\<lparr>returndata_post := Some (Sym bn)\<rparr>
      in finish_syscall pc ctor ncu hcu
           (have_text pc ''call_sol_set_return_data_spec'' (map atom_lean [r0, r1, r2] @ [digits pc, ncu, bn, rd, sz_hyp bn, by_decide, hcu]))
           (write_reg 0 (Const 0) s6, calls, pcs)))"

subsection \<open>sol_sha256 and sol_create_program_address\<close>

text \<open>The slice descriptor the program wrote before the call: two concrete dword cells.\<close>

record slice_desc =
  sd_a1 :: string
  sd_a2 :: string
  sd_ptr :: expr
  sd_len :: expr
  sd_len_val :: u64

definition descriptor :: "expr \<Rightarrow> expr \<Rightarrow> sym_state \<Rightarrow> (diagnostic_kind, slice_desc) res" where
  "descriptor r1 r2 s =
     bind_res (ok_or SymbolicOperand (const_of_expr r2)) (\<lambda>n.
     if n \<noteq> 1 then Err UnsupportedConstruct
     else bind_res (ok_or UnsupportedConstruct (lookup_cell_aliased r1 0 Dword s)) (\<lambda>(ip, _).
          bind_res (ok_or UnsupportedConstruct (lookup_cell_aliased r1 8 Dword s)) (\<lambda>(il, _).
          bind_res (ok_or SymbolicOperand (eval_expr (mc_value (mem s ! ip)) [])) (\<lambda>_.
          bind_res (ok_or SymbolicOperand (eval_expr (mc_value (mem s ! il)) [])) (\<lambda>len.
          Ok \<lparr>sd_a1 = cell_render (mem s ! ip), sd_a2 = cell_render (mem s ! il), sd_ptr = mc_value (mem s ! ip),
              sd_len = mc_value (mem s ! il), sd_len_val = len\<rparr>)))))"

text \<open>\<open>len_val.max(1) as i64\<close>\<close>

definition slice_span :: "u64 \<Rightarrow> int" where
  "slice_span v = sint (max v 1)"

definition emit_sol_sha256 :: "nat \<Rightarrow> string \<Rightarrow> artifacts \<Rightarrow> (diagnostic_kind, artifacts) res" where
  "emit_sol_sha256 pc ctor a = (case a of (s, calls, pcs) \<Rightarrow>
     (let (r0, s1) = read_reg 0 s; (r1, s2) = read_reg 1 s1; (r2, s3) = read_reg 2 s2; (r3, s4) = read_reg 3 s3 in
      bind_res (descriptor r1 r2 s4) (\<lambda>d.
       (let ((idx, ncu, hcu), s5) = alloc_syscall ''Sha256'' s4;
            inb = ''sha256In_'' @ digits idx; out = ''sha256OldOut_'' @ digits idx;
            s6 = push_atom (Atom_Bytes32 r3 out) (push_atom (Atom_Bytes (sd_ptr d) (Sym inb)) s5);
            s7 = exclude_gen (to_lean (sd_len d)) (push_bytearray out (push_blob inb (atom_lean (sd_len d)) s6));
            s8 = note_access r3 0 32 (''sha256Out:'' @ to_lean r3)
                   (note_access (sd_ptr d) 0 (slice_span (sd_len_val d)) (''sha256In:'' @ to_lean (sd_ptr d)) s7);
            g0 = length (rr_walk s8);
            s9 = push_range (sd_ptr d) Byte False (sd_len d) (push_range r1 Byte False (Const 16) (push_range r3 Byte True (Const 32) s8));
            s10 = set_bytes32_post r3 (''(Sha256.hash '' @ inb @ '')'') (continue_group {g0 + 1, g0 + 2} s9)
        in Ok (finish_syscall pc ctor ncu hcu
             (have_text pc ''call_sol_sha256_spec''
                ([atom_lean r0, atom_lean r1, atom_lean (sd_ptr d), paren (atom_lean (sd_len d)), atom_lean r3, paren (sd_a1 d), paren (sd_a2 d),
                  atom_lean r2, inb, out, digits pc, ncu] @ decides 3 @ [sz_hyp inb] @ decides 5 @ [hcu]))
             (write_reg 0 (Const 0) s10, calls, pcs))))))"

definition emit_sol_create_program_address :: "nat \<Rightarrow> string \<Rightarrow> artifacts \<Rightarrow> (diagnostic_kind, artifacts) res" where
  "emit_sol_create_program_address pc ctor a = (case a of (s, calls, pcs) \<Rightarrow>
     (let (r0, s1) = read_reg 0 s; (r1, s2) = read_reg 1 s1; (r2, s3) = read_reg 2 s2; (r3, s4) = read_reg 3 s3; (r4, s5) = read_reg 4 s4 in
      bind_res (descriptor r1 r2 s5) (\<lambda>d.
       (let ((idx, ncu, hcu), s6) = alloc_syscall ''Pda'' s5;
            seed = ''pdaSeed_'' @ digits idx; pid = ''pdaPid_'' @ digits idx; out = ''pdaOldOut_'' @ digits idx;
            hpid = ''hPdaPidSz'' @ digits idx; hoff = ''hPdaOffCurve'' @ digits idx;
            payload = ''(Sha256.hash ('' @ seed @ '' ++ '' @ pid @ '' ++ Pda.PDA_MARKER))'';
            s7 = push_atom (Atom_Bytes32 r4 out) (push_atom (Atom_Bytes32 r3 pid) (push_atom (Atom_Bytes (sd_ptr d) (Sym seed)) s6));
            s8 = exclude_gen (to_lean (sd_len d)) (push_bytearray out (push_bytearray pid (push_blob seed (atom_lean (sd_len d)) s7)));
            s9 = push_blob_side hoff (not_sign @ '' Curve25519.validateEdwards '' @ payload @ '' = true'')
                   (push_blob_side hpid (pid @ ''.size = 32'') s8);
            s10 = note_access r4 0 32 (''pdaOut:'' @ to_lean r4) (note_access r3 0 32 (''pdaPid:'' @ to_lean r3)
                    (note_access (sd_ptr d) 0 (slice_span (sd_len_val d)) (''pdaSeed:'' @ to_lean (sd_ptr d)) s9));
            g0 = length (rr_walk s10);
            s11 = push_range (sd_ptr d) Byte False (sd_len d) (push_range r1 Byte False (Const 16)
                    (push_range r4 Byte True (Const 32) (push_range r3 Byte False (Const 32) s10)));
            s12 = set_bytes32_post r4 payload (continue_group {g0 + 1, g0 + 2, g0 + 3} s11)
        in Ok (finish_syscall pc ctor ncu hcu
             (have_text pc ''call_sol_create_program_address_spec''
                ([atom_lean r0, atom_lean r1, atom_lean (sd_ptr d), paren (atom_lean (sd_len d)), atom_lean r3, atom_lean r4,
                  paren (sd_a1 d), paren (sd_a2 d), atom_lean r2, seed, pid, out, digits pc, ncu] @ decides 3 @ [sz_hyp seed, by_decide, hpid] @
                 decides 2 @ [hoff] @ decides 6 @ [hcu]))
             (write_reg 0 (Const 0) s12, calls, pcs))))))"

subsection \<open>The registry\<close>

datatype abort_kind = Abort | SolPanic | Invoke | InvokeC

definition abort_ctor :: "abort_kind \<Rightarrow> string" where
  "abort_ctor k = (case k of Abort \<Rightarrow> ''.abort'' | SolPanic \<Rightarrow> ''.sol_panic_'' | Invoke \<Rightarrow> ''.sol_invoke_signed''
     | InvokeC \<Rightarrow> ''.sol_invoke_signed_c'')"

definition vm_error :: "abort_kind \<Rightarrow> string" where
  "vm_error k = (case k of Abort \<Rightarrow> ''.abort'' | SolPanic \<Rightarrow> ''.abort'' | Invoke \<Rightarrow> ''.unsupportedInstruction''
     | InvokeC \<Rightarrow> ''.unsupportedInstruction'')"

definition abort_faults_spec :: "abort_kind \<Rightarrow> string" where
  "abort_faults_spec k = (case k of Abort \<Rightarrow> ''call_abort_faults_spec'' | SolPanic \<Rightarrow> ''call_sol_panic_faults_spec''
     | Invoke \<Rightarrow> ''call_sol_invoke_signed_faults_spec'' | InvokeC \<Rightarrow> ''call_sol_invoke_signed_c_faults_spec'')"

record oob_syscall =
  oob_ctor :: string
  oob_faults_spec :: string
  region_reg :: nat
  region_size :: int
  region_len_reg :: "nat option"
  region_writable :: bool

text \<open>The emitter of a row; the function pointers of the table as a tag.\<close>

datatype effect_fn = Memset | GetSysvar | Log | Log64 | Memcpy bool | Memcmp | SetReturnData | Sha256 | CreateProgramAddress

record syscall_model =
  sm_name :: string
  modeled :: bool
  effect :: "effect_fn option"
  sm_ctor :: "string option"
  sm_abort :: "abort_kind option"
  sm_oob :: "oob_syscall option"

definition known_syscall :: "string \<Rightarrow> syscall_model" where
  "known_syscall n = \<lparr>sm_name = n, modeled = False, effect = None, sm_ctor = None, sm_abort = None, sm_oob = None\<rparr>"

definition oob_row :: "string \<Rightarrow> nat \<Rightarrow> int \<Rightarrow> nat option \<Rightarrow> bool \<Rightarrow> oob_syscall" where
  "oob_row n r sz lr wr = \<lparr>oob_ctor = ''.'' @ n, oob_faults_spec = ''call_'' @ n @ ''_faults_oob_spec'', region_reg = r, region_size = sz,
     region_len_reg = lr, region_writable = wr\<rparr>"

definition running :: "string \<Rightarrow> string \<Rightarrow> effect_fn \<Rightarrow> syscall_model" where
  "running n c e = (known_syscall n)\<lparr>modeled := True, sm_ctor := Some c, effect := Some e\<rparr>"

definition terminal :: "string \<Rightarrow> bool \<Rightarrow> abort_kind \<Rightarrow> syscall_model" where
  "terminal n md k = (known_syscall n)\<lparr>modeled := md, sm_ctor := Some (abort_ctor k), sm_abort := Some k\<rparr>"

definition SYSCALLS :: "syscall_model list" where
  "SYSCALLS =
    [running ''sol_memset_'' ''.sol_memset'' Memset,
     running ''sol_get_sysvar'' ''.sol_get_sysvar'' GetSysvar,
     running ''sol_log_'' ''.sol_log_'' Log,
     running ''sol_log_64_'' ''.sol_log_64_'' Log64,
     running ''sol_memcpy_'' ''.sol_memcpy'' (Memcpy False),
     running ''sol_memmove_'' ''.sol_memmove'' (Memcpy True),
     running ''sol_memcmp_'' ''.sol_memcmp'' Memcmp,
     (running ''sol_set_return_data'' ''.sol_set_return_data'' SetReturnData)
       \<lparr>sm_oob := Some (oob_row ''sol_set_return_data'' 1 0 (Some 2) False)\<rparr>,
     (running ''sol_sha256'' ''.sol_sha256'' Sha256)\<lparr>sm_oob := Some (oob_row ''sol_sha256'' 3 32 None True)\<rparr>,
     (running ''sol_create_program_address'' ''.sol_create_program_address'' CreateProgramAddress)
       \<lparr>sm_oob := Some (oob_row ''sol_create_program_address'' 3 32 None False)\<rparr>,
     terminal ''sol_invoke_signed_rust'' True Invoke,
     terminal ''sol_invoke_signed_c'' True InvokeC,
     terminal ''abort'' False Abort,
     terminal ''sol_panic_'' False SolPanic,
     (known_syscall ''sol_secp256k1_recover'')\<lparr>sm_oob := Some (oob_row ''sol_secp256k1_recover'' 1 32 None False)\<rparr>,
     (known_syscall ''sol_get_clock_sysvar'')\<lparr>sm_oob := Some (oob_row ''sol_get_clock_sysvar'' 1 40 None True)\<rparr>,
     (known_syscall ''sol_get_rent_sysvar'')\<lparr>sm_oob := Some (oob_row ''sol_get_rent_sysvar'' 1 24 None True)\<rparr>] @
    map known_syscall [
      ''sol_alloc_free_'', ''sol_alt_bn128_compression'', ''sol_alt_bn128_group_op'', ''sol_big_mod_exp'', ''sol_blake3'',
      ''sol_curve_group_op'', ''sol_curve_multiscalar_mul'', ''sol_curve_validate_point'', ''sol_curve_pairing_map'',
      ''sol_curve_decompress'', ''sol_get_epoch_rewards_sysvar'', ''sol_get_epoch_schedule_sysvar'', ''sol_get_epoch_stake'',
      ''sol_get_fees_sysvar'', ''sol_get_last_restart_slot'', ''sol_get_processed_sibling_instruction'',
      ''sol_get_return_data'', ''sol_get_stack_height'', ''sol_keccak256'', ''sol_log_compute_units_'', ''sol_log_data'',
      ''sol_log_pubkey'', ''sol_poseidon'', ''sol_remaining_compute_units'', ''sol_try_find_program_address'']"

text \<open>\<open>hash\<close> is the library's symbol hash (\<open>ebpf::hash_symbol_name\<close>).\<close>

definition syscall_model_of :: "(string \<Rightarrow> u32) \<Rightarrow> u32 \<Rightarrow> syscall_model option" where
  "syscall_model_of hash im = find (\<lambda>m. im = hash (sm_name m)) SYSCALLS"

definition imm_is_modeled_syscall :: "(string \<Rightarrow> u32) \<Rightarrow> u32 \<Rightarrow> bool" where
  "imm_is_modeled_syscall hash im = (case syscall_model_of hash im of Some m \<Rightarrow> modeled m | None \<Rightarrow> False)"

definition known_syscall_name :: "(string \<Rightarrow> u32) \<Rightarrow> u32 \<Rightarrow> string option" where
  "known_syscall_name hash im = map_option sm_name (find (\<lambda>m. hash (sm_name m) = im) SYSCALLS)"

definition abort_from_hash :: "(string \<Rightarrow> u32) \<Rightarrow> u32 \<Rightarrow> abort_kind option" where
  "abort_from_hash hash im = Option.bind (syscall_model_of hash im) sm_abort"

definition oob_from_hash :: "(string \<Rightarrow> u32) \<Rightarrow> u32 \<Rightarrow> oob_syscall option" where
  "oob_from_hash hash im = Option.bind (syscall_model_of hash im) sm_oob"

datatype call_imm_classification = ModeledSyscall string | UnmodeledSyscall string | Unknown

definition classify_call_imm :: "(string \<Rightarrow> u32) \<Rightarrow> u32 \<Rightarrow> call_imm_classification" where
  "classify_call_imm hash im = (case known_syscall_name hash im of
      Some n \<Rightarrow> if imm_is_modeled_syscall hash im then ModeledSyscall n else UnmodeledSyscall n
    | None \<Rightarrow> Unknown)"

definition run_effect :: "ro_region \<Rightarrow> effect_fn \<Rightarrow> nat \<Rightarrow> string \<Rightarrow> artifacts \<Rightarrow> (diagnostic_kind, artifacts) res" where
  "run_effect ro e pc ctor a = (case e of
      Memset \<Rightarrow> Ok (emit_sol_memset pc ctor a)
    | GetSysvar \<Rightarrow> emit_sol_get_sysvar ro pc ctor a
    | Log \<Rightarrow> Ok (emit_sol_log pc ctor a)
    | Log64 \<Rightarrow> Ok (emit_sol_log_64 pc ctor a)
    | Memcpy mv \<Rightarrow> Ok (emit_sol_memcpy mv pc ctor a)
    | Memcmp \<Rightarrow> Ok (emit_sol_memcmp pc ctor a)
    | SetReturnData \<Rightarrow> Ok (emit_sol_set_return_data pc ctor a)
    | Sha256 \<Rightarrow> emit_sol_sha256 pc ctor a
    | CreateProgramAddress \<Rightarrow> emit_sol_create_program_address pc ctor a)"

definition dispatch_traced_syscall :: "(string \<Rightarrow> u32) \<Rightarrow> ro_region \<Rightarrow> nat \<Rightarrow> u32 \<Rightarrow> artifacts \<Rightarrow> (diagnostic_kind, artifacts) res" where
  "dispatch_traced_syscall hash ro pc im a = (case syscall_model_of hash im of
      Some m \<Rightarrow> (case (effect m, sm_ctor m) of (Some e, Some c) \<Rightarrow> run_effect ro e pc c a | _ \<Rightarrow> Err SyscallUnmodeled)
    | None \<Rightarrow> Err SyscallUnmodeled)"

subsection \<open>What a syscall keeps\<close>

text \<open>An emitter keeps the register file well-formed, uses up no reservation and leaves the call stack alone.\<close>

definition quiet :: "sym_state \<Rightarrow> sym_state \<Rightarrow> bool" where
  "quiet s s' \<longleftrightarrow> (clean s \<longrightarrow> clean s') \<and> (regs_ok s \<longrightarrow> regs_ok s') \<and> call_stack s' = call_stack s"

lemma quiet_refl: "quiet s s"
  by (simp add: quiet_def)

lemma quiet_frame: "quiet s t \<Longrightarrow> frame_of u = frame_of t \<Longrightarrow> names u = names t \<Longrightarrow> call_stack u = call_stack t \<Longrightarrow> quiet s u"
  using frame_regs [of u t] by (simp add: quiet_def clean_def)

lemma reg_atoms_other: "(\<forall>r v. a \<noteq> Atom_Reg r v) \<Longrightarrow> reg_atoms [a] = []"
  by (cases a) (simp_all add: reg_atoms_def)

lemma quiet_regs: "quiet s t \<Longrightarrow> quiet s (first_touch r t)" "quiet s t \<Longrightarrow> quiet s (write_reg r v t)"
  using first_touch_regs [of t r] write_reg_regs [of t r v]
  by (auto simp: quiet_def clean_def) (simp_all add: first_touch_def write_reg_def Let_def)

lemma quiet_alloc: "quiet s t \<Longrightarrow> quiet s (snd (alloc_fresh_name t))" "quiet s t \<Longrightarrow> quiet s (snd (alloc_syscall tag t))"
proof -
  assume q: "quiet s t"
  have "clean t \<Longrightarrow> clean (snd (alloc_fresh_name t))" by (rule alloc_clean)
  moreover have "frame_of (snd (alloc_fresh_name t)) = frame_of t" using frame_alloc by (metis prod.collapse)
  moreover have "call_stack (snd (alloc_fresh_name t)) = call_stack t" by (simp add: alloc_fresh_name_def case_prod_beta Let_def)
  ultimately show 1: "quiet s (snd (alloc_fresh_name t))" using q frame_regs [of "snd (alloc_fresh_name t)" t] by (auto simp: quiet_def)
  then show "quiet s (snd (alloc_syscall tag t))" by (simp add: alloc_syscall_def case_prod_beta Let_def)
qed

lemmas effect_parts = push_atom_def push_blob_def push_range_def continue_group_def set_blob_post_def set_bytes32_post_def push_bytearray_def
  push_blob_side_def exclude_gen_def register_blob_def

lemma quiet_note: "quiet s t \<Longrightarrow> quiet s (note_access b d l key t)"
  by (erule quiet_frame) (simp_all add: note_access_def push_error_def frame_of_def Let_def split: prod.split option.split)

lemma quiet_cells: "quiet s t \<Longrightarrow> quiet s (set_cell i v t)" "quiet s t \<Longrightarrow> quiet s (add_cell c t)" "quiet s t \<Longrightarrow> quiet s (t\<lparr>mem := ms\<rparr>)"
  "quiet s t \<Longrightarrow> quiet s (add_load_var lv t)"
  by (erule quiet_frame; simp add: set_cell_def add_cell_def add_load_var_def frame_of_def)+

lemma quiet_parts:
  "quiet s t \<Longrightarrow> quiet s (push_range b w wr len t)" "quiet s t \<Longrightarrow> quiet s (push_access c t)" "quiet s t \<Longrightarrow> quiet s (push_blob n sz t)"
  "quiet s t \<Longrightarrow> quiet s (continue_group is t)" "quiet s t \<Longrightarrow> quiet s (set_blob_post a bv t)"
  "quiet s t \<Longrightarrow> quiet s (set_bytes32_post a tx t)" "quiet s t \<Longrightarrow> quiet s (push_bytearray n t)" "quiet s t \<Longrightarrow> quiet s (push_blob_side n p t)"
  "quiet s t \<Longrightarrow> quiet s (exclude_gen tx t)" "quiet s t \<Longrightarrow> quiet s (register_blob root lo k f t)"
  "quiet s t \<Longrightarrow> quiet s (record_side_hypothesis n p t)" "quiet s t \<Longrightarrow> quiet s (t\<lparr>returndata_post := rd\<rparr>)"
  by (erule quiet_frame; simp add: effect_parts push_access_def record_side_hypothesis_def frame_of_def)+

lemma quiet_atom:
  "quiet s t \<Longrightarrow> quiet s (push_atom (Atom_Bytes a bv) t)" "quiet s t \<Longrightarrow> quiet s (push_atom (Atom_Bytes32 a n) t)"
  "quiet s t \<Longrightarrow> quiet s (push_atom (Atom_ReturnData bv) t)"
  by (erule quiet_frame; simp add: push_atom_def frame_of_def reg_atoms_other)+

lemmas quiet_ops = quiet_regs quiet_alloc quiet_note quiet_cells quiet_parts quiet_atom

lemma quiet_sides: "quiet s t \<Longrightarrow> quiet s (foldl (\<lambda>t h. record_side_hypothesis (fst h) (snd h) t) t hs)"
  by (induction hs arbitrary: t) (auto intro: quiet_parts)

lemma quiet_sysvar: "quiet s (snd acc) \<Longrightarrow> quiet s (snd (foldl (sysvar_cell r) acc cs))"
proof (induction cs arbitrary: acc)
  case (Cons c cs)
  have "quiet s (snd (sysvar_cell r acc c))"
    unfolding sysvar_cell_def case_prod_beta Let_def fst_conv snd_conv by (intro quiet_ops Cons.prems)
  then show ?case using Cons.IH by simp
qed simp

lemma quiet_memset: "quiet s t \<Longrightarrow> quiet s (snd (memset_effect m tails sp len f t))"
proof -
  assume q: "quiet s t"
  have "quiet s (snd (memset_presplit1 m c len' g t))" "quiet s (snd (memset_presplit2 m c c' len' g t))"
    "quiet s (snd (memset_split m n g t))" "quiet s (snd (memset_plain m len' t))" for c c' len' g n
    by (simp_all add: memset_presplit1_def memset_presplit2_def memset_split_def memset_plain_def ms_shrink_def Let_def)
      (intro quiet_ops q)+
  then show ?thesis by (auto simp: memset_effect_def split: list.split option.split)
qed

text \<open>A finished syscall is registered at its pc, which joins the walked pcs.\<close>

definition emitted :: "nat \<Rightarrow> artifacts \<Rightarrow> artifacts \<Rightarrow> bool" where
  "emitted pc a a' \<longleftrightarrow> (case (a, a') of ((s, calls, pcs), (s', calls', pcs')) \<Rightarrow>
     quiet s s' \<and> pcs' = pcs @ [pc] \<and> map_of (syscall_pcs s') pc \<noteq> None)"

lemma finish_emitted: "quiet s t \<Longrightarrow> emitted pc (s, calls, pcs) (finish_syscall pc ctor ncu hcu line (t, calls', pcs))"
  using quiet_frame [of s t "t\<lparr>syscall_cu_vars := syscall_cu_vars t @ [(ncu, hcu, ctor)], syscall_pcs := bt_insert pc ctor (syscall_pcs t)\<rparr>"]
  by (simp add: emitted_def finish_syscall_def frame_of_def)

lemma simple_emitted:
  "emitted pc a (emit_sol_memset pc ctor a)" "emitted pc a (emit_sol_memcmp pc ctor a)" "emitted pc a (emit_sol_log pc ctor a)"
  "emitted pc a (emit_sol_log_64 pc ctor a)" "emitted pc a (emit_sol_memcpy mv pc ctor a)" "emitted pc a (emit_sol_set_return_data pc ctor a)"
proof -
  obtain s calls pcs where a: "a = (s, calls, pcs)" by (metis prod.exhaust)
  have if_q: "quiet s t \<Longrightarrow> quiet s u \<Longrightarrow> quiet s (if b then t else u)" for b t u by simp
  show "emitted pc a (emit_sol_memset pc ctor a)"
    unfolding emit_sol_memset_def a prod.case case_prod_beta Let_def read_reg_touch fst_conv snd_conv
    by (intro finish_emitted quiet_memset quiet_ops if_q quiet_refl)
  show "emitted pc a (emit_sol_memcmp pc ctor a)"
    unfolding emit_sol_memcmp_def a prod.case case_prod_beta Let_def read_reg_touch fst_conv snd_conv by (intro finish_emitted quiet_ops quiet_refl)
  show "emitted pc a (emit_sol_log pc ctor a)"
    unfolding emit_sol_log_def a prod.case case_prod_beta Let_def read_reg_touch fst_conv snd_conv by (intro finish_emitted quiet_ops quiet_refl)
  show "emitted pc a (emit_sol_log_64 pc ctor a)"
    unfolding emit_sol_log_64_def a prod.case case_prod_beta Let_def read_reg_touch fst_conv snd_conv by (intro finish_emitted quiet_ops quiet_refl)
  show "emitted pc a (emit_sol_memcpy mv pc ctor a)"
    unfolding emit_sol_memcpy_def a prod.case case_prod_beta Let_def read_reg_touch fst_conv snd_conv by (intro finish_emitted quiet_ops quiet_refl)
  show "emitted pc a (emit_sol_set_return_data pc ctor a)"
    unfolding emit_sol_set_return_data_def a prod.case case_prod_beta Let_def read_reg_touch fst_conv snd_conv by (intro finish_emitted quiet_ops quiet_refl)
qed

lemma guarded_emitted:
  "emit_sol_get_sysvar ro pc ctor a = Ok a' \<Longrightarrow> emitted pc a a'" "emit_sol_sha256 pc ctor a = Ok a' \<Longrightarrow> emitted pc a a'"
  "emit_sol_create_program_address pc ctor a = Ok a' \<Longrightarrow> emitted pc a a'"
proof -
  obtain s calls pcs where a: "a = (s, calls, pcs)" by (metis prod.exhaust)
  show "emit_sol_get_sysvar ro pc ctor a = Ok a' \<Longrightarrow> emitted pc a a'"
    unfolding emit_sol_get_sysvar_def a prod.case case_prod_beta Let_def read_reg_touch fst_conv snd_conv
    by (auto simp: bind_res_eq_Ok split: if_splits intro!: finish_emitted quiet_sides quiet_sysvar quiet_ops quiet_refl)
  show "emit_sol_sha256 pc ctor a = Ok a' \<Longrightarrow> emitted pc a a'"
    unfolding emit_sol_sha256_def a prod.case case_prod_beta Let_def read_reg_touch fst_conv snd_conv
    by (auto simp: bind_res_eq_Ok intro!: finish_emitted quiet_ops quiet_refl)
  show "emit_sol_create_program_address pc ctor a = Ok a' \<Longrightarrow> emitted pc a a'"
    unfolding emit_sol_create_program_address_def a prod.case case_prod_beta Let_def read_reg_touch fst_conv snd_conv
    by (auto simp: bind_res_eq_Ok intro!: finish_emitted quiet_ops quiet_refl)
qed

lemma run_emitted: "run_effect ro e pc ctor a = Ok a' \<Longrightarrow> emitted pc a a'"
  by (cases e) (simp_all add: run_effect_def, (metis simple_emitted guarded_emitted)+)

lemma dispatch_emitted: "dispatch_traced_syscall hash ro pc im a = Ok a' \<Longrightarrow> emitted pc a a'"
  by (simp add: dispatch_traced_syscall_def split: option.splits) (erule run_emitted)

subsection \<open>Repeated syscalls and the ledger\<close>

definition clash :: "string \<times> int \<times> int \<times> string \<Rightarrow> string \<times> int \<times> int \<times> string \<Rightarrow> bool" where
  "clash e n = (case n of (root, lo, hi, key) \<Rightarrow> conflicts root lo hi key e)"

definition span_of :: "expr \<Rightarrow> int \<Rightarrow> string \<Rightarrow> string \<times> int \<times> int \<times> string" where
  "span_of b len key = (case canon_addr b 0 of (root, lo) \<Rightarrow> (root, lo, wrap_i64 (lo + len), key))"

lemma clash_sym: "clash e n \<Longrightarrow> clash n e" and clash_irrefl: "\<not> clash e e"
  by (auto simp: clash_def conflicts_def split: prod.splits)

lemma note_spans:
  "overlap_errors (note_access b 0 len key s) = [] \<longleftrightarrow> overlap_errors s = [] \<and> (\<forall>e \<in> set (atom_spans s). \<not> clash e (span_of b len key))"
  "overlap_errors (note_access b 0 len key s) = [] \<Longrightarrow> atom_spans (note_access b 0 len key s) = atom_spans s @ [span_of b len key]"
proof -
  obtain root lo where rl: "canon_addr b 0 = (root, lo)" by fastforce
  have f: "find (conflicts root lo (wrap_i64 (lo + len)) key) (atom_spans s) = None \<longleftrightarrow> (\<forall>e \<in> set (atom_spans s). \<not> clash e (span_of b len key))"
    by (auto simp: find_None_iff clash_def span_of_def rl)
  show "overlap_errors (note_access b 0 len key s) = [] \<longleftrightarrow> overlap_errors s = [] \<and> (\<forall>e \<in> set (atom_spans s). \<not> clash e (span_of b len key))"
    by (cases "find (conflicts root lo (wrap_i64 (lo + len)) key) (atom_spans s)") (auto simp: note_access_def rl Let_def push_error_def f [symmetric])
  show "overlap_errors (note_access b 0 len key s) = [] \<Longrightarrow> atom_spans (note_access b 0 len key s) = atom_spans s @ [span_of b len key]"
    by (auto simp: note_access_def rl Let_def push_error_def span_of_def split: option.splits)
qed

text \<open>The ledger after a list of notes, and that noting the same atoms again goes through.\<close>

definition note_all :: "(expr \<times> int \<times> string) list \<Rightarrow> sym_state \<Rightarrow> sym_state" where
  "note_all ns s = foldl (\<lambda>t (b, len, key). note_access b 0 len key t) s ns"

definition spans :: "(expr \<times> int \<times> string) list \<Rightarrow> (string \<times> int \<times> int \<times> string) list" where
  "spans ns = map (\<lambda>(b, len, key). span_of b len key) ns"

lemma notes_spans:
  "(overlap_errors (note_all ns s) = [] \<longleftrightarrow> overlap_errors s = [] \<and> (\<forall>e \<in> set (atom_spans s). \<forall>n \<in> set (spans ns). \<not> clash e n) \<and>
     sorted_wrt (\<lambda>e n. \<not> clash e n) (spans ns)) \<and>
   (overlap_errors (note_all ns s) = [] \<longrightarrow> atom_spans (note_all ns s) = atom_spans s @ spans ns)"
proof (induction ns arbitrary: s)
  case (Cons x ns)
  obtain b len key where x: "x = (b, len, key)" by (cases x)
  have c: "note_all (x # ns) s = note_all ns (note_access b 0 len key s)" by (simp add: note_all_def x)
  have sp: "spans (x # ns) = span_of b len key # spans ns" by (simp add: spans_def x)
  note n = note_spans [of b len key s]
  show ?case
  proof (cases "overlap_errors (note_access b 0 len key s) = []")
    case True
    show ?thesis using Cons.IH [of "note_access b 0 len key s"] True n(1) unfolding c sp n(2) [OF True] by (simp only: True) auto
  next
    case False
    then have "\<not> (overlap_errors s = [] \<and> (\<forall>e \<in> set (atom_spans s). \<not> clash e (span_of b len key)))" using n(1) by blast
    moreover have "overlap_errors (note_all (x # ns) s) \<noteq> []" using Cons.IH [of "note_access b 0 len key s"] False unfolding c by blast
    ultimately show ?thesis unfolding sp by auto
  qed
qed (simp add: note_all_def spans_def)

lemma notes_again:
  assumes "overlap_errors (note_all ns s) = []" "overlap_errors t = []" "atom_spans t = atom_spans (note_all ns s)"
  shows "overlap_errors (note_all ns t) = []"
proof -
  have a: "\<forall>e \<in> set (atom_spans s). \<forall>n \<in> set (spans ns). \<not> clash e n" and w: "sorted_wrt (\<lambda>e n. \<not> clash e n) (spans ns)"
    using assms(1) notes_spans [of ns s] by blast+
  have "\<not> clash e n" if "e \<in> set xs" "n \<in> set xs" "sorted_wrt (\<lambda>e n. \<not> clash e n) xs" for e n xs
    using that(3,1,2)
  proof (induction xs)
    case (Cons x xs)
    then show ?case using clash_sym [of e n] clash_irrefl [of e] by (metis set_ConsD sorted_wrt.simps(2))
  qed simp
  then show ?thesis using a w assms notes_spans [of ns s] notes_spans [of ns t] by auto
qed

lemma add_cell_ledger [simp]:
  "overlap_errors (add_cell c s) = overlap_errors s" "atom_spans (add_cell c s) = atom_spans s" "mem (add_cell c s) = mem s @ [c]"
  "overlap_errors (set_cell i v s) = overlap_errors s" "atom_spans (set_cell i v s) = atom_spans s"
  "overlap_errors (write_reg r v s) = overlap_errors s" "atom_spans (write_reg r v s) = atom_spans s"
  "overlap_errors (first_touch r s) = overlap_errors s" "atom_spans (first_touch r s) = atom_spans s"
  "overlap_errors (add_load_var lv s) = overlap_errors s" "atom_spans (add_load_var lv s) = atom_spans s"
  "overlap_errors (push_access cl s) = overlap_errors s" "atom_spans (push_access cl s) = atom_spans s"
  by (simp_all add: add_cell_def set_cell_def write_reg_def first_touch_def add_load_var_def push_access_def Let_def)

lemma parts_ledger [simp]:
  "overlap_errors (push_range b w wr len s) = overlap_errors s" "atom_spans (push_range b w wr len s) = atom_spans s" "mem (push_range b w wr len s) = mem s"
  "overlap_errors (push_atom a s) = overlap_errors s" "atom_spans (push_atom a s) = atom_spans s" "mem (push_atom a s) = mem s"
  "overlap_errors (push_blob n sz s) = overlap_errors s" "atom_spans (push_blob n sz s) = atom_spans s" "mem (push_blob n sz s) = mem s"
  by (simp_all add: effect_parts)

lemma alloc_fields [simp]:
  "overlap_errors (snd (alloc_fresh_name s)) = overlap_errors s" "atom_spans (snd (alloc_fresh_name s)) = atom_spans s"
  "mem (snd (alloc_fresh_name s)) = mem s" "regs (snd (alloc_fresh_name s)) = regs s"
  "overlap_errors (snd (alloc_syscall tag s)) = overlap_errors s" "atom_spans (snd (alloc_syscall tag s)) = atom_spans s"
  "mem (snd (alloc_syscall tag s)) = mem s" "regs (snd (alloc_syscall tag s)) = regs s"
  by (simp_all add: alloc_fresh_name_def alloc_syscall_def case_prod_beta Let_def)

definition cmp_notes :: "sym_state \<Rightarrow> (expr \<times> int \<times> string) list" where
  "cmp_notes s = (let r = (\<lambda>k. fst (read_reg k s)); len = blob_len_of (r 3) in
     [(r 1, len, ''memcmpP1:'' @ to_lean (r 1)), (r 2, len, ''memcmpP2:'' @ to_lean (r 2)), (r 4, 4, ''memcmpOut:'' @ to_lean (r 4))])"

lemma note_fields [simp]: "regs (note_access b d l key s) = regs s"
  by (simp add: note_access_def push_error_def Let_def split: prod.split option.split)

lemma read_same_regs: "regs s = regs t \<Longrightarrow> fst (read_reg k s) = fst (read_reg k t)"
  by (simp add: read_reg_def split: option.split)

definition ledger :: "sym_state \<Rightarrow> string list \<times> (string \<times> int \<times> int \<times> string) list" where
  "ledger s = (overlap_errors s, atom_spans s)"

lemma ledger_note: "ledger s = ledger t \<Longrightarrow> ledger (note_access b d l key s) = ledger (note_access b d l key t)"
  by (simp add: ledger_def note_access_def push_error_def Let_def split: prod.split option.split)

lemma ledger_simps:
  "ledger (write_reg r v s) = ledger s" "ledger (set_cell i v s) = ledger s" "ledger (add_cell c s) = ledger s"
  "ledger (s\<lparr>syscall_cu_vars := x, syscall_pcs := y\<rparr>) = ledger s" "ledger (add_load_var lv s) = ledger s"
  "ledger (snd (alloc_fresh_name s)) = ledger s" "ledger (snd (alloc_syscall tag s)) = ledger s" "ledger (push_blob n sz s) = ledger s"
  "ledger (push_atom a s) = ledger s" "ledger (push_range b w wr len s) = ledger s" "ledger (first_touch r s) = ledger s"
  by (simp_all add: ledger_def)

lemma read_simps:
  "fst (read_reg k (set_cell i v s)) = fst (read_reg k s)" "fst (read_reg k (add_cell c s)) = fst (read_reg k s)"
  "fst (read_reg k (s\<lparr>syscall_cu_vars := x, syscall_pcs := y\<rparr>)) = fst (read_reg k s)"
  "fst (read_reg k (note_access b d l key s)) = fst (read_reg k s)" "fst (read_reg k (add_load_var lv s)) = fst (read_reg k s)"
  "fst (read_reg k (snd (alloc_fresh_name s))) = fst (read_reg k s)" "fst (read_reg k (snd (alloc_syscall tag s))) = fst (read_reg k s)"
  "fst (read_reg k (push_blob n sz s)) = fst (read_reg k s)" "fst (read_reg k (push_atom a s)) = fst (read_reg k s)"
  "fst (read_reg k (push_range rb w wr len s)) = fst (read_reg k s)"
  by (rule read_same_regs; simp add: set_cell_def add_cell_def add_load_var_def effect_parts push_access_def)+

lemma memcmp_ledger:
  assumes "emit_sol_memcmp pc ctor (s, calls, pcs) = (s', calls', pcs')"
  shows "ledger s' = ledger (note_all (cmp_notes s) s)"
    "\<exists>v. mem s' = mem s @ [\<lparr>addr_base = fst (read_reg 4 s), addr_off = 0, mc_width = Word_w, mc_value = v, mc_delta = 0\<rparr>]"
    "k \<noteq> 0 \<Longrightarrow> fst (read_reg k s') = fst (read_reg k s)"
proof -
  note e = emit_sol_memcmp_def case_prod_beta read_reg_touch finish_syscall_def Let_def prod.inject prod.case
  have "ledger s' = ledger (note_access (fst (read_reg 4 s)) 0 4 (''memcmpOut:'' @ to_lean (fst (read_reg 4 s)))
      (note_access (fst (read_reg 2 s)) 0 (blob_len_of (fst (read_reg 3 s))) (''memcmpP2:'' @ to_lean (fst (read_reg 2 s)))
      (note_access (fst (read_reg 1 s)) 0 (blob_len_of (fst (read_reg 3 s))) (''memcmpP1:'' @ to_lean (fst (read_reg 1 s))) s)))"
    using assms by (auto simp: e ledger_simps intro!: ledger_note)
  then show "ledger s' = ledger (note_all (cmp_notes s) s)" by (simp add: note_all_def cmp_notes_def Let_def)
  show "\<exists>v. mem s' = mem s @ [\<lparr>addr_base = fst (read_reg 4 s), addr_off = 0, mc_width = Word_w, mc_value = v, mc_delta = 0\<rparr>]"
    using assms by (auto simp: e set_cell_def)
  show "k \<noteq> 0 \<Longrightarrow> fst (read_reg k s') = fst (read_reg k s)"
    using assms by (auto simp: e read_simps read_write_reg)
qed

subsection \<open>Properties\<close>

text \<open>C40: The ledger does not see a repeated syscall: after a \<open>sol_memcmp\<close> without an overlap error, a second one on the same
  registers reports none either, although it adds a second cell for the same four output bytes; the two cells share
  every byte, so the precondition is unsatisfiable.\<close>

theorem memcmp_twice_overlaps:
  assumes "emit_sol_memcmp pc ctor (s, calls, pcs) = (s1, calls1, pcs1)" "overlap_errors s1 = []"
    and "emit_sol_memcmp pc' ctor' (s1, calls1, pcs1) = (s2, calls2, pcs2)"
  shows "overlap_errors s2 = [] \<and> (\<exists>c c'. mem s2 = mem s @ [c, c'] \<and> place c = place c' \<and>
    place c = (fst (read_reg 4 s), 0, Word_w, 0))"
proof -
  note m1 = memcmp_ledger [OF assms(1)] and m2 = memcmp_ledger [OF assms(3)]
  have "cmp_notes s1 = cmp_notes s" using m1(3) by (simp add: cmp_notes_def)
  moreover have "overlap_errors (note_all (cmp_notes s) s) = []" "atom_spans s1 = atom_spans (note_all (cmp_notes s) s)"
    using m1(1) assms(2) by (simp_all add: ledger_def)
  ultimately have "overlap_errors s2 = []" using notes_again [of "cmp_notes s" s s1] assms(2) m2(1) by (simp add: ledger_def)
  then show ?thesis using m1(2) m2(2) m1(3) [of 4] by (auto simp: place_def)
qed

theorem memcmp_twice_overlaps_witness:
  "\<exists>s2 calls2 pcs2. emit_sol_memcmp 5 ''.sol_memcmp'' (emit_sol_memcmp 3 ''.sol_memcmp'' (with_retry_plans [] [], [], [])) = (s2, calls2, pcs2) \<and>
     overlap_errors s2 = [] \<and> map place (mem s2) = [(InitReg ''vR4Old'', 0, Word_w, 0), (InitReg ''vR4Old'', 0, Word_w, 0)]"
proof -
  let ?s = "with_retry_plans [] []"
  obtain s1 calls1 pcs1 where e1: "emit_sol_memcmp 3 ''.sol_memcmp'' (?s, [], []) = (s1, calls1, pcs1)" by (metis prod.exhaust)
  obtain s2 calls2 pcs2 where e2: "emit_sol_memcmp 5 ''.sol_memcmp'' (s1, calls1, pcs1) = (s2, calls2, pcs2)" by (metis prod.exhaust)
  have "overlap_errors (fst (emit_sol_memcmp 3 ''.sol_memcmp'' (?s, [], []))) = []" by code_simp
  moreover have "fst (read_reg 4 ?s) = InitReg ''vR4Old''" "mem ?s = []" by code_simp+
  ultimately show ?thesis using memcmp_twice_overlaps [OF e1 _ e2] e1 e2 by auto
qed

end
