(* ===== verification/Walk.thy ===== *)
theory Walk
  imports Syscalls "HOL-Library.Product_Lexorder"
begin

text \<open>
  The walker of the lifter (\<open>qedlift/src/exec/control.rs\<close> and \<open>exec/walk.rs\<close>): it follows one path of the program, a
  recorded trace or the static branch policy, executes each instruction symbolically, and retries with larger hot
  regions or blob splits until no access asks for one.  The step cap and the attempt cap are the code's own, so the
  two loops recurse on what is left of them.
\<close>

subsection \<open>Branch decisions\<close>

record trace_cursor =
  tc_pcs :: "nat list"
  tc_index :: nat

definition cursor_new :: "nat list \<Rightarrow> (diagnostic_kind, trace_cursor) res" where
  "cursor_new pcs = (if pcs = [] then Err TraceInput else Ok \<lparr>tc_pcs = pcs, tc_index = 0\<rparr>)"

definition pc_at :: "nat list \<Rightarrow> nat \<Rightarrow> nat option" where
  "pc_at pcs i = (if i < length pcs then Some (pcs ! i) else None)"

definition cursor_current :: "trace_cursor \<Rightarrow> nat option" where
  "cursor_current c = pc_at (tc_pcs c) (tc_index c)"

definition cursor_next :: "trace_cursor \<Rightarrow> nat option" where
  "cursor_next c = pc_at (tc_pcs c) (tc_index c + 1)"

definition cursor_advance :: "trace_cursor \<Rightarrow> trace_cursor" where
  "cursor_advance c = c\<lparr>tc_index := tc_index c + 1\<rparr>"

definition cursor_contains :: "trace_cursor \<Rightarrow> nat \<Rightarrow> bool" where
  "cursor_contains c pc \<longleftrightarrow> pc \<in> set (tc_pcs c)"

definition cursor_walk_cap :: "trace_cursor \<Rightarrow> nat" where
  "cursor_walk_cap c = length (tc_pcs c) + 8"

datatype branch_decision = NotConditional | Taken | FallThrough

definition decision_option :: "branch_decision \<Rightarrow> bool option" where
  "decision_option d = (case d of NotConditional \<Rightarrow> None | Taken \<Rightarrow> Some True | FallThrough \<Rightarrow> Some False)"

text \<open>Both widths and both operand forms of the eleven conditions.\<close>

definition cond_jump_opcodes :: "u8 list" where
  "cond_jump_opcodes =
    [0x15, 0x16, 0x55, 0x56, 0x25, 0x26, 0x65, 0x66, 0xD5, 0xD6, 0xA5, 0xA6, 0xB5, 0xB6, 0xC5, 0xC6, 0x35, 0x36, 0x75, 0x76, 0x45, 0x46,
     0x1D, 0x1E, 0x5D, 0x5E, 0xAD, 0xAE, 0xDD, 0xDE, 0x2D, 0x2E, 0xBD, 0xBE, 0x7D, 0x7E, 0x3D, 0x3E, 0x6D, 0x6E, 0xCD, 0xCE, 0x4D, 0x4E]"

definition is_cond_jump_opc :: "u8 \<Rightarrow> bool" where
  "is_cond_jump_opc b \<longleftrightarrow> b \<in> set cond_jump_opcodes"

text \<open>The static policy follows the target discriminator on \<open>JEQ\<close>, \<open>JNE\<close> and \<open>JGT\<close> with an immediate.\<close>

definition disc_takes :: "u8 \<Rightarrow> int \<Rightarrow> int \<Rightarrow> bool" where
  "disc_takes b im td \<longleftrightarrow> b = 0x15 \<and> im = td \<or> b = 0x16 \<and> (word_of_int im :: u32) = word_of_int td \<or>
     (b = 0x55 \<or> b = 0x56) \<and> im \<noteq> td \<or> (b = 0x25 \<or> b = 0x26) \<and> im < td"

definition resolve_branch_taken :: "trace_cursor option \<Rightarrow> nat \<Rightarrow> insn \<Rightarrow> int \<Rightarrow> bool \<Rightarrow> int option
    \<Rightarrow> (diagnostic_kind, branch_decision) res" where
  "resolve_branch_taken trace pc i jtgt is_cond target_disc = (case trace of
      Some c \<Rightarrow>
        if is_cond then
          (let nx = cursor_next c; tk = (nx \<noteq> Some (pc + 1)) in
           case nx of
             Some n \<Rightarrow> if tk \<and> wrap_i64 (int n) \<noteq> jtgt then Err TraceInput else Ok (if tk then Taken else FallThrough)
           | None \<Rightarrow> Ok Taken)
        else Ok NotConditional
    | None \<Rightarrow>
        Ok (case target_disc of
              Some td \<Rightarrow> if disc_takes (opc i) (imm i) td then Taken else if is_cond then FallThrough else NotConditional
            | None \<Rightarrow> if is_cond then FallThrough else NotConditional))"

subsection \<open>Retry plans\<close>

definition merge_blob_splits :: "((string \<times> int) \<times> int) list \<Rightarrow> (string \<times> int \<times> int) list \<Rightarrow> ((string \<times> int) \<times> int) list" where
  "merge_blob_splits splits news = foldl (\<lambda>m (root, lo, n). bt_insert (root, lo) n m) splits news"

text \<open>\<open>retain\<close>: a region that touches the merged one so far is absorbed.\<close>

definition absorb_region :: "int \<times> int \<times> (int \<times> int) list \<Rightarrow> int \<times> int \<Rightarrow> int \<times> int \<times> (int \<times> int) list" where
  "absorb_region acc r = (case (acc, r) of ((mlo, mhi, kept), (l, h)) \<Rightarrow>
     if l \<le> mhi \<and> mlo \<le> h then (min mlo l, max mhi h, kept) else (mlo, mhi, kept @ [(l, h)]))"

definition merge_region :: "int \<Rightarrow> int \<Rightarrow> (int \<times> int) list \<Rightarrow> (int \<times> int) list" where
  "merge_region lo hi rs = (case foldl absorb_region (lo, hi, []) rs of (mlo, mhi, kept) \<Rightarrow> kept @ [(mlo, mhi)])"

definition regions_of :: "(string \<times> (int \<times> int) list) list \<Rightarrow> string \<Rightarrow> (int \<times> int) list" where
  "regions_of hot root = (case map_of hot root of Some rs \<Rightarrow> rs | None \<Rightarrow> [])"

definition merge_hot_regions :: "(string \<times> (int \<times> int) list) list \<Rightarrow> (string \<times> int \<times> int) list \<Rightarrow> (string \<times> (int \<times> int) list) list" where
  "merge_hot_regions hot news = foldl (\<lambda>m (root, lo, hi). bt_insert root (merge_region lo hi (regions_of m root)) m) hot news"

subsection \<open>The walk\<close>

text \<open>What the walker uses of the loaded image and of its static analysis.\<close>

record binary_ctx =
  bc_version :: sbpf_version
  bc_insns :: "insn list"
  bc_pc_map :: pc_map
  bc_text_offset :: u64
  bc_functions :: "(nat \<times> u32) list"
  bc_registry :: "u32 \<Rightarrow> nat option"
  bc_ro :: ro_region
  bc_hash :: "string \<Rightarrow> u32"

record walk_options =
  wo_trace :: "nat list option"
  target_discriminator :: "int option"
  arm_entry :: "nat option"
  program_entry :: nat

datatype fault_terminal = Fault_Abort abort_kind | Fault_Oob oob_syscall

record walk_result =
  wr_state :: sym_state
  wr_calls :: "spec_call list"
  wr_block_pcs :: "nat list"
  wr_exit_pc :: nat
  wr_fault :: "fault_terminal option"

datatype exit_disposition = TopLevel | NestedReturn

definition exit_disposition_of :: "sym_state \<Rightarrow> exit_disposition" where
  "exit_disposition_of s = (if call_stack s = [] then TopLevel else NestedReturn)"

text \<open>The mutable state of one pass, and how one turn of its loop ends.\<close>

record walk_state =
  ws_state :: sym_state
  ws_calls :: "spec_call list"
  ws_pcs :: "nat list"
  ws_pc :: nat
  ws_cursor :: "trace_cursor option"

datatype turn = Continue walk_state | Stop walk_state nat "fault_terminal option"

definition advance_walk :: "nat \<Rightarrow> walk_state \<Rightarrow> walk_state" where
  "advance_walk pc ws = (case ws_cursor ws of
      Some c \<Rightarrow> ws\<lparr>ws_cursor := Some (cursor_advance c)\<rparr>
    | None \<Rightarrow> ws\<lparr>ws_pc := pc\<rparr>)"

definition push_call :: "spec_call option \<Rightarrow> spec_call list \<Rightarrow> spec_call list" where
  "push_call sc calls = (case sc of Some c \<Rightarrow> calls @ [c] | None \<Rightarrow> calls)"

definition restore_saved :: "expr list \<Rightarrow> sym_state \<Rightarrow> sym_state" where
  "restore_saved saved s = foldl (\<lambda>t (r, e). write_reg r e t) s (zip [6..<11] saved)"

definition nested_return :: "binary_ctx \<Rightarrow> insn \<Rightarrow> walk_state \<Rightarrow> (diagnostic_kind, turn) res" where
  "nested_return ctx i ws =
     (let pc = ws_pc ws;
          (sc, s1) = spec_call_for (bc_version ctx) (ws_state ws) i pc None None None None in
      case pop_call_frame s1 of
        (None, _) \<Rightarrow> Panic
      | (Some (call_pc, saved), s2) \<Rightarrow>
          (let ws' = ws\<lparr>ws_state := restore_saved saved s2, ws_calls := push_call sc (ws_calls ws), ws_pcs := ws_pcs ws @ [pc]\<rparr> in
           case ws_cursor ws of
             Some c \<Rightarrow> if cursor_next c \<noteq> Some (call_pc + 1) then Err TraceInput else Ok (Continue (advance_walk (call_pc + 1) ws'))
           | None \<Rightarrow> Ok (Continue (advance_walk (call_pc + 1) ws'))))"

definition host_call :: "binary_ctx \<Rightarrow> insn \<Rightarrow> bool" where
  "host_call ctx i \<longleftrightarrow> opc i = CALL_IMM \<and> (bc_version ctx = V0 \<or> src i = 0)"

text \<open>A call that ends the path: a terminal syscall, or on a trace a guarded syscall that does not return.\<close>

definition fault_at :: "binary_ctx \<Rightarrow> insn \<Rightarrow> walk_state \<Rightarrow> fault_terminal option" where
  "fault_at ctx i ws =
     (if \<not> host_call ctx i then None
      else case abort_from_hash (bc_hash ctx) (imm_u32 i) of
             Some k \<Rightarrow> Some (Fault_Abort k)
           | None \<Rightarrow> (case (oob_from_hash (bc_hash ctx) (imm_u32 i), ws_cursor ws) of
                         (Some oob, Some c) \<Rightarrow> if cursor_next c \<noteq> Some (ws_pc ws + 1) then Some (Fault_Oob oob) else None
                       | _ \<Rightarrow> None))"

definition returns_on_trace :: "binary_ctx \<Rightarrow> insn \<Rightarrow> walk_state \<Rightarrow> bool" where
  "returns_on_trace ctx i ws \<longleftrightarrow> host_call ctx i \<and>
     (case ws_cursor ws of Some c \<Rightarrow> cursor_next c = Some (ws_pc ws + 1) | None \<Rightarrow> False)"

definition syscall_turn :: "binary_ctx \<Rightarrow> insn \<Rightarrow> walk_state \<Rightarrow> (diagnostic_kind, turn) res" where
  "syscall_turn ctx i ws = bind_res (dispatch_traced_syscall (bc_hash ctx) (bc_ro ctx) (ws_pc ws) (imm_u32 i) (ws_state ws, ws_calls ws, ws_pcs ws))
     (\<lambda>(s, calls, pcs). Ok (Continue (advance_walk (ws_pc ws + 1) (ws\<lparr>ws_state := s, ws_calls := calls, ws_pcs := pcs\<rparr>))))"

text \<open>The target of a call; a version 3 \<open>callx\<close> needs a concrete address and records its region clause.\<close>

definition walk_resolve_call :: "binary_ctx \<Rightarrow> insn \<Rightarrow> nat \<Rightarrow> nat option" where
  "walk_resolve_call ctx i pc = resolve_call_target_logical (bc_version ctx) (bc_pc_map ctx) (length (bc_insns ctx)) (bc_functions ctx)
     (bc_registry ctx) i pc"

definition call_target_of :: "binary_ctx \<Rightarrow> insn \<Rightarrow> walk_state \<Rightarrow> (diagnostic_kind, nat option \<times> sym_state) res" where
  "call_target_of ctx i ws =
     (let s = ws_state ws in
      if bc_version ctx = V3 \<and> opc i = CALL_REG then
        (if 64 \<le> length (call_stack s) then Err CallDepthExceeded
         else case map_of (regs s) (unat (dst i)) of
                None \<Rightarrow> Err SymbolicOperand
              | Some e \<Rightarrow>
                  bind_res (ok_or SymbolicOperand (eval_expr e [])) (\<lambda>address.
                  bind_res (resolve_callx_target_logical (bc_text_offset ctx) (bc_pc_map ctx) address) (\<lambda>target.
                  if (case ws_cursor ws of Some c \<Rightarrow> cursor_next c \<noteq> Some target | None \<Rightarrow> False) then Err TraceInput
                  else Ok (Some target, push_access (Callx_clause e target) s))))
      else Ok (walk_resolve_call ctx i (ws_pc ws), s))"

text \<open>The static policy follows a taken jump of these opcodes.\<close>

definition followed_opcodes :: "u8 list" where
  "followed_opcodes = [0x15, 0x16, 0x55, 0x56, 0x25, 0x26, 0x65, 0x66, 0xD5, 0xD6, 0xA5, 0xA6, 0xB5, 0xB6, 0x1D, 0x1E, 0x5D, 0x5E,
     0xAD, 0xAE, 0xDD, 0xDE]"

definition as_usize :: "int \<Rightarrow> nat" where
  "as_usize k = nat (k mod 2 ^ 64)"

definition static_next :: "binary_ctx \<Rightarrow> insn \<Rightarrow> nat \<Rightarrow> int \<Rightarrow> branch_decision \<Rightarrow> nat option \<Rightarrow> (diagnostic_kind, nat) res" where
  "static_next ctx i pc jtgt decision target =
     (if opc i = JA then Ok (as_usize jtgt)
      else if opc i \<in> set followed_opcodes \<and> decision = Taken then Ok (as_usize jtgt)
      else if opc i = CALL_IMM then
        (case walk_resolve_call ctx i pc of
           Some t \<Rightarrow> Ok t
         | None \<Rightarrow> Err (case classify_call_imm (bc_hash ctx) (imm_u32 i) of
                           ModeledSyscall _ \<Rightarrow> SyscallUntraced
                         | UnmodeledSyscall _ \<Rightarrow> SyscallUnmodeled
                         | Unknown \<Rightarrow> if bc_version ctx = V3 \<and> src i = 0 then SyscallUnmodeled else CallUnresolved))
      else if opc i = CALL_REG \<and> bc_version ctx = V3 then (case target of Some t \<Rightarrow> Ok t | None \<Rightarrow> Panic)
      else Ok (pc + 1))"

definition push_alias_hypotheses :: "nat \<Rightarrow> sym_state \<Rightarrow> sym_state" where
  "push_alias_hypotheses pc s = (let (hs, s') = take_alias_hypotheses pc s in s'\<lparr>side_hyps := side_hyps s' @ hs\<rparr>)"

definition insn_turn :: "binary_ctx \<Rightarrow> int option \<Rightarrow> insn \<Rightarrow> walk_state \<Rightarrow> (diagnostic_kind, turn) res" where
  "insn_turn ctx td i ws =
     (let pc = ws_pc ws in
      bind_res (call_target_of ctx i ws) (\<lambda>(target, s1).
      let is_cond = is_cond_jump_opc (opc i);
          h = (if is_cond then Some (hyp_name (length (branch_hyps s1))) else None);
          jtgt = resolve_jump_target (bc_pc_map ctx) pc (off i) in
      bind_res (resolve_branch_taken (ws_cursor ws) pc i jtgt is_cond td) (\<lambda>decision.
      let (prepared, s2) = prepare_step (bc_version ctx) s1 i pc target h (decision_option decision) jtgt in
      bind_res (apply_step s2 i pc (decision_option decision) prepared) (\<lambda>(sc, s3).
      let ws' = ws\<lparr>ws_state := push_alias_hypotheses pc s3, ws_calls := push_call sc (ws_calls ws), ws_pcs := ws_pcs ws @ [pc]\<rparr> in
      bind_res (case ws_cursor ws of Some _ \<Rightarrow> Ok pc | None \<Rightarrow> static_next ctx i pc jtgt decision target) (\<lambda>npc.
      Ok (Continue (advance_walk npc ws')))))))"

text \<open>One turn of the loop after its step count is checked.\<close>

definition walk_turn :: "binary_ctx \<Rightarrow> int option \<Rightarrow> walk_state \<Rightarrow> (diagnostic_kind, turn) res" where
  "walk_turn ctx td ws =
     (case (case ws_cursor ws of Some c \<Rightarrow> cursor_current c | None \<Rightarrow> Some (ws_pc ws)) of
        None \<Rightarrow> Ok (Stop ws (ws_pc ws) None)
      | Some pc \<Rightarrow>
          (let ws1 = ws\<lparr>ws_pc := pc\<rparr> in
           if length (bc_insns ctx) \<le> pc then Ok (Stop ws1 pc None)
           else (let i = bc_insns ctx ! pc in
             if opc i = EXIT then
               (if exit_disposition_of (ws_state ws1) = TopLevel then Ok (Stop ws1 pc None) else nested_return ctx i ws1)
             else (case fault_at ctx i ws1 of
                     Some f \<Rightarrow> Ok (Stop ws1 pc (Some f))
                   | None \<Rightarrow> if returns_on_trace ctx i ws1 then syscall_turn ctx i ws1 else insn_turn ctx td i ws1))))"

text \<open>The loop, on the number of steps left before the cap.\<close>

primrec walk_loop :: "binary_ctx \<Rightarrow> int option \<Rightarrow> nat \<Rightarrow> walk_state \<Rightarrow> (diagnostic_kind, walk_result) res" where
  "walk_loop ctx td 0 ws = Err WalkerSteps"
| "walk_loop ctx td (Suc n) ws = bind_res (walk_turn ctx td ws) (\<lambda>t. case t of
     Continue ws' \<Rightarrow> walk_loop ctx td n ws'
   | Stop ws' pc f \<Rightarrow> Ok \<lparr>wr_state = ws_state ws', wr_calls = ws_calls ws', wr_block_pcs = ws_pcs ws', wr_exit_pc = pc, wr_fault = f\<rparr>)"

definition start_walk :: "walk_options \<Rightarrow> sym_state \<Rightarrow> (diagnostic_kind, walk_state) res" where
  "start_walk opts s = (case wo_trace opts of
      Some tr \<Rightarrow>
        bind_res (cursor_new tr) (\<lambda>c.
        if (case arm_entry opts of Some arm \<Rightarrow> \<not> cursor_contains c arm | None \<Rightarrow> False) then Err TraceInput
        else (case cursor_current c of
                Some pc \<Rightarrow> Ok \<lparr>ws_state = s, ws_calls = [], ws_pcs = [], ws_pc = pc, ws_cursor = Some c\<rparr>
              | None \<Rightarrow> Panic))
    | None \<Rightarrow> Ok \<lparr>ws_state = s, ws_calls = [], ws_pcs = [],
               ws_pc = (case arm_entry opts of Some arm \<Rightarrow> arm | None \<Rightarrow> program_entry opts), ws_cursor = None\<rparr>)"

definition walk_cap :: "walk_state \<Rightarrow> nat" where
  "walk_cap ws = (case ws_cursor ws of Some c \<Rightarrow> cursor_walk_cap c | None \<Rightarrow> 1024)"

definition walk_pass :: "binary_ctx \<Rightarrow> walk_options \<Rightarrow> (string \<times> (int \<times> int) list) list \<Rightarrow> ((string \<times> int) \<times> int) list
    \<Rightarrow> (diagnostic_kind, walk_result) res" where
  "walk_pass ctx opts hot splits = bind_res (start_walk opts (with_retry_plans hot splits)) (\<lambda>ws.
     walk_loop ctx (target_discriminator opts) (walk_cap ws) ws)"

text \<open>The retry loop, on the number of attempts left.\<close>

primrec walk_retry :: "binary_ctx \<Rightarrow> walk_options \<Rightarrow> nat \<Rightarrow> (string \<times> (int \<times> int) list) list \<Rightarrow> ((string \<times> int) \<times> int) list
    \<Rightarrow> (diagnostic_kind, walk_result) res" where
  "walk_retry ctx opts 0 hot splits = Err Other"
| "walk_retry ctx opts (Suc n) hot splits = bind_res (walk_pass ctx opts hot splits) (\<lambda>r.
     case take_retry_plan (wr_state r) of
       (BlobSplits bs, _) \<Rightarrow> walk_retry ctx opts n hot (merge_blob_splits splits bs)
     | (HotRegions hs, _) \<Rightarrow> walk_retry ctx opts n (merge_hot_regions hot hs) splits
     | (Ready, s) \<Rightarrow> if overlap_errors s \<noteq> [] then Err ByteAliasing else Ok (r\<lparr>wr_state := s\<rparr>))"

definition walk_and_exec :: "binary_ctx \<Rightarrow> walk_options \<Rightarrow> (diagnostic_kind, walk_result) res" where
  "walk_and_exec ctx opts = walk_retry ctx opts 8 [] []"

end
