(* ===== verification/Walk_Safety.thy ===== *)
theory Walk_Safety
  imports Walk
begin

text \<open>
  What a walk guarantees.  \<open>turn_invariant\<close> is the contract of one turn of the walker's loop: a property of the walk state
  that a turn keeps holds where the walk stops.  Two instances of it carry the properties: the register file and the
  footprint ledger stay well-formed, and a traced walk stays on its trace.
\<close>

subsection \<open>Invariants of the loop\<close>

locale turn_invariant =
  fixes ctx :: binary_ctx and td :: "int option" and inv :: "walk_state \<Rightarrow> bool"
  assumes turn_keeps: "walk_turn ctx td ws = Ok (Continue ws') \<Longrightarrow> inv ws \<Longrightarrow> inv ws'"
begin

lemma loop_stops:
  "walk_loop ctx td n ws = Ok r \<Longrightarrow> inv ws \<Longrightarrow> \<exists>w w' pc f. inv w \<and> walk_turn ctx td w = Ok (Stop w' pc f) \<and>
     r = \<lparr>wr_state = ws_state w', wr_calls = ws_calls w', wr_block_pcs = ws_pcs w', wr_exit_pc = pc, wr_fault = f\<rparr>"
proof (induction n arbitrary: ws)
  case (Suc n)
  then obtain t where t: "walk_turn ctx td ws = Ok t" by (auto simp: bind_res_eq_Ok)
  show ?case
  proof (cases t)
    case (Continue ws')
    then show ?thesis using Suc t turn_keeps by auto
  next
    case (Stop w' pc f)
    then show ?thesis using Suc.prems t by auto
  qed
qed simp

end

text \<open>Where a turn stops, it has only set the current pc.\<close>

lemma stop_state:
  assumes "walk_turn ctx td ws = Ok (Stop ws' pc f)"
  shows "ws_state ws' = ws_state ws \<and> ws_pcs ws' = ws_pcs ws \<and>
    pc = (case (case ws_cursor ws of Some c \<Rightarrow> cursor_current c | None \<Rightarrow> Some (ws_pc ws)) of Some p \<Rightarrow> p | None \<Rightarrow> ws_pc ws)"
proof -
  have "nested_return ctx i w \<noteq> Ok (Stop ws' pc f)" for i w
    by (simp add: nested_return_def case_prod_beta Let_def split: option.split)
  moreover have "syscall_turn ctx i w \<noteq> Ok (Stop ws' pc f)" for i w by (auto simp: syscall_turn_def bind_res_eq_Ok)
  moreover have "insn_turn ctx td i w \<noteq> Ok (Stop ws' pc f)" for i w by (auto simp: insn_turn_def bind_res_eq_Ok case_prod_beta Let_def)
  ultimately show ?thesis using assms by (auto simp: walk_turn_def Let_def split: option.splits if_splits)
qed

subsection \<open>A step registers no syscall\<close>

lemma sys_ops [simp]:
  "syscall_pcs (first_touch r s) = syscall_pcs s" "syscall_pcs (write_reg r v s) = syscall_pcs s" "syscall_pcs (push_access c s) = syscall_pcs s"
  "syscall_pcs (push_error e s) = syscall_pcs s" "syscall_pcs (request_demotion_on_conflict root lo n w s) = syscall_pcs s"
  "syscall_pcs (plan_tail_split root lo s) = syscall_pcs s" "syscall_pcs (add_cell cell s) = syscall_pcs s"
  "syscall_pcs (add_load_var lv s) = syscall_pcs s" "syscall_pcs (note_access b d l key s) = syscall_pcs s"
  "syscall_pcs (set_cell j v s) = syscall_pcs s" "syscall_pcs (bound_byte_var x s) = syscall_pcs s"
  "syscall_pcs (touch_cell b d w wr hit s) = syscall_pcs s" "syscall_pcs (record_side_hypothesis m p s) = syscall_pcs s"
  "syscall_pcs (record_branch bh s) = syscall_pcs s" "syscall_pcs (push_call_frame pc fr s) = syscall_pcs s" "syscall_pcs (pad k s) = syscall_pcs s"
  "syscall_pcs (snd (alloc_fresh_name s)) = syscall_pcs s"
  by (simp_all add: first_touch_def write_reg_def push_access_def push_error_def request_demotion_on_conflict_def plan_tail_split_def add_cell_def
      add_load_var_def note_access_def set_cell_def bound_byte_var_def touch_cell_def record_side_hypothesis_def record_branch_def
      push_call_frame_def pad_def alloc_fresh_name_def case_prod_beta Let_def split: prod.split option.split expr.split)

lemma sys_cells [simp]:
  "syscall_pcs (snd (load_cell b d w s)) = syscall_pcs s" "syscall_pcs (snd (hot_slot b d k s)) = syscall_pcs s"
  by (simp_all add: load_cell_def fresh_cell_def hot_slot_def case_prod_beta Let_def split: option.split)

lemma sys_hot [simp]:
  "syscall_pcs (snd (foldl (hot_load_byte b d) acc ks)) = syscall_pcs (snd acc)" "syscall_pcs (foldl (hot_store_byte b d w) s ks) = syscall_pcs s"
  by (induction ks arbitrary: acc s) (simp_all add: hot_load_byte_def hot_store_byte_def case_prod_beta)

lemma sys_mem [simp]:
  "syscall_pcs (snd (read_mem base d w s)) = syscall_pcs s" "syscall_pcs (write_mem base d w v s) = syscall_pcs s"
proof -
  have h: "syscall_pcs (snd (read_hot_wide b d w t)) = syscall_pcs t" for b d w t
    by (simp add: read_hot_wide_def case_prod_beta del: upt_Suc upt.simps)
  show r: "syscall_pcs (snd (read_mem base d w s)) = syscall_pcs s" for s
    by (simp add: read_mem_def case_prod_beta read_reg_touch h Let_def)
  have "syscall_pcs (store_cell base b d w v t) = syscall_pcs t" for b t
    by (simp add: store_cell_def overwrite_cell_def materialize_def r Let_def split: option.split)
  then show "syscall_pcs (write_mem base d w v s) = syscall_pcs s"
    by (simp add: write_mem_def write_hot_word_imm_def case_prod_beta read_reg_touch Let_def del: upt_Suc upt.simps split: width.split expr.split)
qed

lemma step_syscalls:
  assumes "step s i pc tk = Ok s'"
  shows "syscall_pcs s' = syscall_pcs s"
  using assms by (auto simp: step_def step_load_def step_store_reg_def step_store_imm_def effect_defs split: option.splits shape.splits)

subsection \<open>The state along a walk\<close>

definition state_ok :: "sym_state \<Rightarrow> bool" where
  "state_ok s \<longleftrightarrow> clean s \<and> regs_ok s \<and> (syscall_pcs s = [] \<longrightarrow> ledger_ok s)"

lemma state_ok_keeps:
  "state_ok s \<Longrightarrow> keeps s s' \<Longrightarrow> names s' = names s \<Longrightarrow> syscall_pcs s' = syscall_pcs s \<Longrightarrow> state_ok s'"
  using keeps_regs keeps_ledger by (auto simp: state_ok_def clean_def)

lemma ledger_pad: "same_ledger s (pad k s)" "frame_of (pad k s) = frame_of s"
  by (simp_all add: same_ledger_def frame_of_def) (simp_all add: pad_def)

lemma prepare_pad:
  assumes c: "clean s"
  shows "\<exists>k. snd (prepare_step v s i pc t h tk jt) = pad k s"
proof (cases "map_of insn_table (opc i)")
  case (Some sh)
  have p: "\<exists>k. s = pad k s" using pad_0 [OF c] by metis
  have "\<exists>k. snd (spec_shape v s i pc t h tk jt sh) = pad k s"
  proof (cases "\<exists>w. sh = SLdx w \<or> sh = SStx w \<or> sh = SSt w")
    case True
    then obtain w where "sh = SLdx w \<or> sh = SStx w \<or> sh = SSt w" by blast
    then show ?thesis by (cases w) (auto simp: spec_shape_def cell_line_def spec_cell_pad [OF c] spec_wide_pad [OF c])
  next
    case False
    then show ?thesis using plain_shape_state [of sh v s i pc t h tk jt] p by auto
  qed
  then show ?thesis using p by (auto simp: prepare_step_def spec_call_state Some)
qed (use pad_0 [OF c] in \<open>simp add: prepare_step_def spec_call_state, metis\<close>)

lemma apply_step_ok:
  assumes "apply_step (snd (prepare_step v s i pc t h tk jt)) i pc tk prepared = Ok (sc, s')" "state_ok s" "off_ok (off i)"
  shows "state_ok s'"
proof -
  obtain k where k: "snd (prepare_step v s i pc t h tk jt) = pad k s" using prepare_pad [of s v i pc t h tk jt] assms(2) by (auto simp: state_ok_def)
  have st: "step (pad k s) i (Some pc) tk = Ok s'" and c: "clean s'"
    using assms(1) by (auto simp: apply_step_def k bind_res_eq_Ok finish_prepared_step_def clean_def split: if_splits)
  have "regs_ok (pad k s)" "syscall_pcs s = [] \<longrightarrow> ledger_ok (pad k s)"
    using assms(2) frame_regs [OF ledger_pad(2)] same_ledger_ok [OF ledger_pad(1)] by (auto simp: state_ok_def)
  then show ?thesis using step_regs [OF st] step_ledger [OF st _ assms(3)] step_syscalls [OF st] c by (simp add: state_ok_def)
qed

lemma keeps_fields:
  "atom_places (pre s') = atom_places (pre s) \<Longrightarrow> mem s' = mem s \<Longrightarrow> atom_spans s' = atom_spans s \<Longrightarrow> overlap_errors s' = overlap_errors s \<Longrightarrow>
   frame_of s' = frame_of s \<Longrightarrow> keeps s s'"
  using frame_regs [of s' s] by (simp add: keeps_def same_ledger_def)

lemma alias_ok: "state_ok s \<Longrightarrow> state_ok (push_alias_hypotheses pc s)"
  by (erule state_ok_keeps) (rule keeps_fields, simp_all add: push_alias_hypotheses_def take_alias_hypotheses_def frame_of_def Let_def)

lemma callx_ok: "state_ok s \<Longrightarrow> state_ok (push_access c s)"
  by (erule state_ok_keeps) (rule keeps_fields, simp_all add: push_access_def frame_of_def)

lemma restore_ok: "state_ok s \<Longrightarrow> state_ok (restore_saved saved s)"
proof -
  have w: "state_ok s \<Longrightarrow> state_ok (write_reg r v s)" for r v s
    using state_ok_keeps [OF _ keeps_ops(1) [OF keeps_refl]] by simp
  have "state_ok s \<Longrightarrow> state_ok (foldl (\<lambda>t (r, e). write_reg r e t) s rs)" for rs
    by (induction rs arbitrary: s) (auto intro: w)
  then show "state_ok s \<Longrightarrow> state_ok (restore_saved saved s)" by (simp add: restore_saved_def)
qed

lemma pop_ok: "state_ok s \<Longrightarrow> state_ok (s\<lparr>call_stack := cs\<rparr>)"
  by (erule state_ok_keeps) (rule keeps_fields, simp_all add: frame_of_def)

lemma start_ok: "state_ok (with_retry_plans hot splits)"
  by (simp add: state_ok_def clean_def regs_ok_def ledger_ok_def with_retry_plans_def)

text \<open>The offsets of an image's instructions are \<open>i16\<close> values.\<close>

definition offsets_ok :: "binary_ctx \<Rightarrow> bool" where
  "offsets_ok ctx \<longleftrightarrow> list_all (\<lambda>i. off_ok (off i)) (bc_insns ctx)"

definition walk_ok :: "binary_ctx \<Rightarrow> walk_state \<Rightarrow> bool" where
  "walk_ok ctx ws \<longleftrightarrow> (offsets_ok ctx \<longrightarrow> state_ok (ws_state ws))"

lemma advance_state [simp]: "ws_state (advance_walk pc ws) = ws_state ws" "ws_pcs (advance_walk pc ws) = ws_pcs ws"
  by (simp_all add: advance_walk_def split: option.split)

lemma nested_ok:
  assumes "nested_return ctx i ws = Ok (Continue ws')" "opc i = EXIT" "state_ok (ws_state ws)"
  shows "state_ok (ws_state ws')"
proof -
  have sh: "map_of insn_table EXIT = Some SExit" by code_simp
  have nj: "insn_class EXIT \<noteq> BPF_JMP32" by code_simp
  have s: "snd (spec_call_for v (ws_state ws) i pc None None None None) = ws_state ws" for v pc
    by (simp add: spec_call_for_def assms(2) sh nj spec_shape_def plain_line_def Let_def)
  show ?thesis using assms(1) restore_ok [OF pop_ok [OF assms(3)]]
    by (auto simp: nested_return_def case_prod_beta Let_def s pop_call_frame_def split: option.splits if_splits)
qed

lemma syscall_ok:
  assumes "syscall_turn ctx i ws = Ok (Continue ws')" "state_ok (ws_state ws)"
  shows "state_ok (ws_state ws')"
proof -
  obtain s calls pcs where d: "dispatch_traced_syscall (bc_hash ctx) (bc_ro ctx) (ws_pc ws) (imm_u32 i) (ws_state ws, ws_calls ws, ws_pcs ws) = Ok (s, calls, pcs)"
      "ws_state ws' = s"
    using assms(1) by (auto simp: syscall_turn_def bind_res_eq_Ok)
  then show ?thesis using dispatch_emitted [OF d(1)] assms(2) by (auto simp: emitted_def quiet_def state_ok_def)
qed

lemma call_target_ok:
  assumes "call_target_of ctx i ws = Ok (target, s)" "state_ok (ws_state ws)"
  shows "state_ok s"
  using assms callx_ok by (auto simp: call_target_of_def Let_def bind_res_eq_Ok split: if_splits option.splits)

lemma insn_ok:
  assumes "insn_turn ctx td i ws = Ok (Continue ws')" "off_ok (off i)" "state_ok (ws_state ws)"
  shows "state_ok (ws_state ws')"
proof -
  obtain target s1 d t h jt sc s3 where ct: "call_target_of ctx i ws = Ok (target, s1)"
    and ap: "apply_step (snd (prepare_step (bc_version ctx) s1 i (ws_pc ws) target h t jt)) i (ws_pc ws) t
       (fst (prepare_step (bc_version ctx) s1 i (ws_pc ws) target h t jt)) = Ok (sc, s3)"
    and ws': "ws_state ws' = push_alias_hypotheses (ws_pc ws) s3"
    using assms(1) by (auto simp: insn_turn_def bind_res_eq_Ok case_prod_beta Let_def)
  show ?thesis unfolding ws' by (rule alias_ok [OF apply_step_ok [OF ap call_target_ok [OF ct assms(3)] assms(2)]])
qed

interpretation ledger_walk: turn_invariant ctx td "walk_ok ctx"
  for ctx td
proof unfold_locales
  fix ws ws' assume t: "walk_turn ctx td ws = Ok (Continue ws')" and ok: "walk_ok ctx ws"
  show "walk_ok ctx ws'" unfolding walk_ok_def
  proof
    assume o: "offsets_ok ctx"
    then have s: "state_ok (ws_state (ws\<lparr>ws_pc := pc\<rparr>))" for pc using ok by (simp add: walk_ok_def)
    have "pc < length (bc_insns ctx) \<Longrightarrow> off_ok (off (bc_insns ctx ! pc))" for pc using o by (simp add: offsets_ok_def list_all_length)
    then show "state_ok (ws_state ws')"
      using t nested_ok [OF _ _ s] syscall_ok [OF _ s] insn_ok [OF _ _ s]
      by (auto simp: walk_turn_def Let_def not_le split: option.splits if_splits)
  qed
qed

lemma start_walk_state: "start_walk opts s = Ok ws \<Longrightarrow> ws_state ws = s \<and> ws_pcs ws = []"
  by (auto simp: start_walk_def bind_res_eq_Ok split: option.splits if_splits)

lemma walk_pass_ok:
  assumes "walk_pass ctx opts hot splits = Ok r" "offsets_ok ctx"
  shows "state_ok (wr_state r)"
proof -
  obtain ws where ws: "start_walk opts (with_retry_plans hot splits) = Ok ws" "walk_loop ctx (target_discriminator opts) (walk_cap ws) ws = Ok r"
    using assms(1) by (auto simp: walk_pass_def bind_res_eq_Ok)
  have "walk_ok ctx ws" using start_walk_state [OF ws(1)] start_ok by (simp add: walk_ok_def)
  then obtain w w' pc f where w: "walk_ok ctx w" "walk_turn ctx (target_discriminator opts) w = Ok (Stop w' pc f)" "wr_state r = ws_state w'"
    using ledger_walk.loop_stops [OF ws(2)] by auto
  then show ?thesis using stop_state [OF w(2)] assms(2) by (simp add: walk_ok_def)
qed

lemma ready_plan:
  "take_retry_plan s = (Ready, s') \<Longrightarrow> s' = s \<and> new_hot s = [] \<and> new_blob_splits s = []"
  by (auto simp: take_retry_plan_def split: if_splits)

lemma walk_retry_ok:
  assumes "walk_retry ctx opts n hot splits = Ok r"
  shows "\<exists>hot' splits'. walk_pass ctx opts hot' splits' = Ok r \<and> overlap_errors (wr_state r) = [] \<and> new_hot (wr_state r) = [] \<and>
    new_blob_splits (wr_state r) = []"
  using assms
proof (induction n arbitrary: hot splits)
  case (Suc n)
  then obtain r0 where r0: "walk_pass ctx opts hot splits = Ok r0" by (auto simp: bind_res_eq_Ok)
  obtain plan s where p: "take_retry_plan (wr_state r0) = (plan, s)" by fastforce
  show ?case
  proof (cases plan)
    case Ready
    then have rp: "s = wr_state r0" "new_hot s = []" "new_blob_splits s = []" using p ready_plan by blast+
    have "r = r0" "overlap_errors s = []" using Suc.prems r0 p Ready rp(1) by (auto split: if_splits)
    then show ?thesis using r0 rp by blast
  qed (use Suc r0 p in auto)
qed simp

subsection \<open>The trace\<close>

text \<open>A walked conditional jump continues where the trace does: at the next pc or at its decoded target.\<close>

definition jump_follows :: "binary_ctx \<Rightarrow> nat list \<Rightarrow> nat \<Rightarrow> bool" where
  "jump_follows ctx tr j \<longleftrightarrow> (is_cond_jump_opc (opc (bc_insns ctx ! (tr ! j))) \<longrightarrow>
     (case pc_at tr (Suc j) of None \<Rightarrow> True
      | Some n \<Rightarrow> n = tr ! j + 1 \<or> wrap_i64 (int n) = resolve_jump_target (bc_pc_map ctx) (tr ! j) (off (bc_insns ctx ! (tr ! j)))))"

definition on_trace :: "binary_ctx \<Rightarrow> nat list \<Rightarrow> walk_state \<Rightarrow> bool" where
  "on_trace ctx tr ws \<longleftrightarrow> (\<exists>k \<le> length tr. ws_cursor ws = Some \<lparr>tc_pcs = tr, tc_index = k\<rparr> \<and> ws_pcs ws = take k tr \<and>
     ws_pc ws = tr ! (k - 1) \<and> (\<forall>j < k. tr ! j < length (bc_insns ctx) \<and> jump_follows ctx tr j))"

lemma cond_not_exit: "is_cond_jump_opc b \<Longrightarrow> b \<noteq> EXIT \<and> b \<noteq> CALL_IMM"
  by (auto simp: is_cond_jump_opc_def cond_jump_opcodes_def)

text \<open>One turn on the trace: the pc under the cursor is walked and the cursor advances.\<close>

definition traced_turn :: "walk_state \<Rightarrow> walk_state \<Rightarrow> bool" where
  "traced_turn ws ws' \<longleftrightarrow> ws_pcs ws' = ws_pcs ws @ [ws_pc ws] \<and> ws_pc ws' = ws_pc ws \<and> ws_cursor ws' = map_option cursor_advance (ws_cursor ws)"

lemma advance_traced: "ws_cursor ws = Some c \<Longrightarrow> ws_cursor w = ws_cursor ws \<Longrightarrow> ws_pcs w = ws_pcs ws @ [ws_pc ws] \<Longrightarrow> ws_pc w = ws_pc ws \<Longrightarrow>
    traced_turn ws (advance_walk npc w)"
  by (simp add: traced_turn_def advance_walk_def)

lemma turns_traced:
  assumes "ws_cursor ws = Some c"
  shows "nested_return ctx i ws = Ok (Continue ws') \<Longrightarrow> traced_turn ws ws'"
    "syscall_turn ctx i ws = Ok (Continue ws') \<Longrightarrow> traced_turn ws ws'"
    "insn_turn ctx td i ws = Ok (Continue ws') \<Longrightarrow> traced_turn ws ws'"
proof -
  show "nested_return ctx i ws = Ok (Continue ws') \<Longrightarrow> traced_turn ws ws'"
    using assms by (auto simp: nested_return_def case_prod_beta Let_def intro!: advance_traced split: option.splits if_splits)
  show "insn_turn ctx td i ws = Ok (Continue ws') \<Longrightarrow> traced_turn ws ws'"
    using assms by (auto simp: insn_turn_def bind_res_eq_Ok case_prod_beta Let_def intro!: advance_traced)
  show "syscall_turn ctx i ws = Ok (Continue ws') \<Longrightarrow> traced_turn ws ws'"
    using assms dispatch_emitted by (auto simp: syscall_turn_def bind_res_eq_Ok intro!: advance_traced) (fastforce simp: emitted_def)
qed

lemma insn_follows:
  assumes "insn_turn ctx td i ws = Ok (Continue ws')" "ws_cursor ws = Some c" "is_cond_jump_opc (opc i)" "cursor_next c = Some n"
  shows "n = ws_pc ws + 1 \<or> wrap_i64 (int n) = resolve_jump_target (bc_pc_map ctx) (ws_pc ws) (off i)"
  using assms by (auto simp: insn_turn_def bind_res_eq_Ok case_prod_beta Let_def resolve_branch_taken_def split: if_splits)

lemma on_trace_turn:
  assumes t: "walk_turn ctx td ws = Ok (Continue ws')" and ot: "on_trace ctx tr ws"
  shows "on_trace ctx tr ws' \<and> length (ws_pcs ws') = Suc (length (ws_pcs ws))"
proof -
  obtain k where k: "k \<le> length tr" "ws_cursor ws = Some \<lparr>tc_pcs = tr, tc_index = k\<rparr>" "ws_pcs ws = take k tr" "ws_pc ws = tr ! (k - 1)"
      "\<forall>j < k. tr ! j < length (bc_insns ctx) \<and> jump_follows ctx tr j" using ot unfolding on_trace_def by blast
  have kl: "k < length tr" using t k(2) by (auto simp: walk_turn_def cursor_current_def pc_at_def split: if_splits)
  let ?c = "\<lparr>tc_pcs = tr, tc_index = k\<rparr>" and ?w = "ws\<lparr>ws_pc := tr ! k\<rparr>" and ?i = "bc_insns ctx ! (tr ! k)"
  have il: "tr ! k < length (bc_insns ctx)" and cases: "nested_return ctx ?i ?w = Ok (Continue ws') \<and> opc ?i = EXIT \<or>
      syscall_turn ctx ?i ?w = Ok (Continue ws') \<and> host_call ctx ?i \<or> insn_turn ctx td ?i ?w = Ok (Continue ws')"
    using t k(2) kl by (auto simp: walk_turn_def cursor_current_def pc_at_def Let_def returns_on_trace_def not_le split: option.splits if_splits)
  have tt: "traced_turn ?w ws'" using cases turns_traced [of ?w ?c] k(2) by auto
  have "jump_follows ctx tr k" unfolding jump_follows_def
  proof (intro impI)
    assume cj: "is_cond_jump_opc (opc ?i)"
    then have "insn_turn ctx td ?i ?w = Ok (Continue ws')" using cases cond_not_exit [OF cj] by (auto simp: host_call_def)
    then show "case pc_at tr (Suc k) of None \<Rightarrow> True | Some n \<Rightarrow> n = tr ! k + 1 \<or> wrap_i64 (int n) = resolve_jump_target (bc_pc_map ctx) (tr ! k) (off ?i)"
      using insn_follows [of ctx td ?i ?w ws' ?c] cj k(2) by (auto simp: cursor_next_def split: option.split)
  qed
  then have "\<forall>j < Suc k. tr ! j < length (bc_insns ctx) \<and> jump_follows ctx tr j" using k(5) il less_Suc_eq by auto
  moreover have "ws_cursor ws' = Some \<lparr>tc_pcs = tr, tc_index = Suc k\<rparr>" "ws_pcs ws' = take (Suc k) tr" "ws_pc ws' = tr ! k"
    using tt k(2,3) kl by (auto simp: traced_turn_def cursor_advance_def take_Suc_conv_app_nth)
  ultimately have "on_trace ctx tr ws'" unfolding on_trace_def using kl by (intro exI [of _ "Suc k"]) auto
  then show ?thesis using tt by (simp add: traced_turn_def)
qed

interpretation trace_walk: turn_invariant ctx td "on_trace ctx tr"
  for ctx td tr
  by unfold_locales (use on_trace_turn in blast)

subsection \<open>The step cap of a traced walk\<close>

lemma bind_res_eq_Err: "bind_res m f = Err e \<longleftrightarrow> m = Err e \<or> (\<exists>x. m = Ok x \<and> f x = Err e)"
  by (cases m) auto

lemma ok_or_eq_Err: "ok_or e o1 = Err e' \<longleftrightarrow> o1 = None \<and> e' = e"
  by (cases o1) auto

lemma dispatch_errors: "dispatch_traced_syscall hash ro pc im a \<noteq> Err WalkerSteps"
proof -
  have "descriptor r1 r2 s \<noteq> Err WalkerSteps" for r1 r2 s
    by (auto simp: descriptor_def bind_res_eq_Err ok_or_eq_Err split: prod.splits)
  moreover have "sysvar_id ro x \<noteq> Err WalkerSteps" for x by (simp add: sysvar_id_def Let_def)
  ultimately have "run_effect ro e pc c a \<noteq> Err WalkerSteps" for e c
    by (cases e) (auto simp: run_effect_def emit_sol_get_sysvar_def emit_sol_sha256_def emit_sol_create_program_address_def bind_res_eq_Err
        ok_or_eq_Err case_prod_beta Let_def split: prod.splits)
  then show ?thesis by (simp add: dispatch_traced_syscall_def split: option.split)
qed

lemma turn_errors: "walk_turn ctx td ws \<noteq> Err WalkerSteps"
proof -
  have "nested_return ctx i w \<noteq> Err WalkerSteps" for i w by (simp add: nested_return_def case_prod_beta Let_def split: option.split)
  moreover have "syscall_turn ctx i w \<noteq> Err WalkerSteps" for i w using dispatch_errors by (auto simp: syscall_turn_def bind_res_eq_Err)
  moreover have "insn_turn ctx td i w \<noteq> Err WalkerSteps" for i w
  proof -
    have "call_target_of ctx i w \<noteq> Err WalkerSteps"
      by (auto simp: call_target_of_def resolve_callx_target_logical_def bind_res_eq_Err ok_or_eq_Err Let_def split: option.splits if_splits)
    moreover have "resolve_branch_taken tc pc i jt ic td \<noteq> Err WalkerSteps" for tc pc jt ic
      by (simp add: resolve_branch_taken_def Let_def split: option.split)
    moreover have "apply_step s i pc tk p \<noteq> Err WalkerSteps" for s pc tk p
      by (auto simp: apply_step_def step_def finish_prepared_step_def bind_res_eq_Err split: option.splits shape.splits if_splits)
    moreover have "static_next ctx i pc jt d t \<noteq> Err WalkerSteps" for pc jt d t
      by (simp add: static_next_def split: option.split call_imm_classification.split)
    ultimately show ?thesis by (simp add: insn_turn_def bind_res_eq_Err case_prod_beta Let_def split: option.split)
  qed
  ultimately show ?thesis by (auto simp: walk_turn_def Let_def split: option.splits if_splits)
qed

lemma traced_loop_terminates:
  assumes "on_trace ctx tr ws" "length tr < n + length (ws_pcs ws)"
  shows "walk_loop ctx td n ws \<noteq> Err WalkerSteps"
  using assms
proof (induction n arbitrary: ws)
  case 0
  then show ?case by (auto simp: on_trace_def)
next
  case (Suc n)
  show ?case
  proof
    assume "walk_loop ctx td (Suc n) ws = Err WalkerSteps"
    then obtain t where t: "walk_turn ctx td ws = Ok t" using turn_errors by (auto simp: bind_res_eq_Err)
    then show False using Suc \<open>walk_loop ctx td (Suc n) ws = Err WalkerSteps\<close> on_trace_turn [of ctx td ws _ tr]
      by (cases t) auto
  qed
qed

lemma start_on_trace:
  assumes "start_walk opts s = Ok ws" "wo_trace opts = Some tr"
  shows "on_trace ctx tr ws \<and> ws_pcs ws = [] \<and> tr \<noteq> [] \<and> walk_cap ws = length tr + 8"
  using assms by (auto simp: start_walk_def cursor_new_def bind_res_eq_Ok cursor_current_def pc_at_def on_trace_def walk_cap_def cursor_walk_cap_def
      split: option.splits if_splits)

lemma walk_pass_traced:
  assumes tr: "wo_trace opts = Some tr"
  shows "walk_pass ctx opts hot splits \<noteq> Err WalkerSteps"
    "walk_pass ctx opts hot splits = Ok r \<Longrightarrow> \<exists>k \<le> length tr. wr_block_pcs r = take k tr \<and>
       wr_exit_pc r = (if k < length tr then tr ! k else last tr) \<and> (\<forall>j < k. tr ! j < length (bc_insns ctx) \<and> jump_follows ctx tr j)"
proof -
  have st: "start_walk opts s \<noteq> Err WalkerSteps" for s
    by (auto simp: start_walk_def cursor_new_def bind_res_eq_Err split: option.splits if_splits)
  show "walk_pass ctx opts hot splits \<noteq> Err WalkerSteps"
    using st start_on_trace [OF _ tr] traced_loop_terminates [of ctx tr] by (fastforce simp: walk_pass_def bind_res_eq_Err)
  assume "walk_pass ctx opts hot splits = Ok r"
  then obtain ws where ws: "start_walk opts (with_retry_plans hot splits) = Ok ws" "walk_loop ctx (target_discriminator opts) (walk_cap ws) ws = Ok r"
    by (auto simp: walk_pass_def bind_res_eq_Ok)
  note s = start_on_trace [OF ws(1) tr, of ctx]
  obtain w w' pc f where w: "on_trace ctx tr w" "walk_turn ctx (target_discriminator opts) w = Ok (Stop w' pc f)"
      "wr_block_pcs r = ws_pcs w'" "wr_exit_pc r = pc" using trace_walk.loop_stops [OF ws(2), of tr] s by auto
  obtain k where k: "k \<le> length tr" "ws_cursor w = Some \<lparr>tc_pcs = tr, tc_index = k\<rparr>" "ws_pcs w = take k tr" "ws_pc w = tr ! (k - 1)"
      "\<forall>j < k. tr ! j < length (bc_insns ctx) \<and> jump_follows ctx tr j" using w(1) unfolding on_trace_def by blast
  have "pc = (if k < length tr then tr ! k else last tr)" using stop_state [OF w(2)] k s
    by (auto simp: cursor_current_def pc_at_def last_conv_nth)
  then show "\<exists>k \<le> length tr. wr_block_pcs r = take k tr \<and>
       wr_exit_pc r = (if k < length tr then tr ! k else last tr) \<and> (\<forall>j < k. tr ! j < length (bc_insns ctx) \<and> jump_follows ctx tr j)"
    using k(1,3,5) w(3,4) stop_state [OF w(2)] by auto
qed

subsection \<open>Properties\<close>

text \<open>A program that reads a byte and then the eight bytes around it: the walk needs one retry.\<close>

definition sample_ctx :: binary_ctx where
  "sample_ctx = (let is = [\<lparr>opc = 0x71, dst = 3, src = 1, off = 3, imm = 0\<rparr>, \<lparr>opc = 0x79, dst = 2, src = 1, off = 0, imm = 0\<rparr>,
      \<lparr>opc = EXIT, dst = 0, src = 0, off = 0, imm = 0\<rparr>] in
     \<lparr>bc_version = V0, bc_insns = is, bc_pc_map = from_insns is, bc_text_offset = 0, bc_functions = [], bc_registry = (\<lambda>_. None),
      bc_ro = \<lparr>ro_vm_addr = 0, ro_bytes = []\<rparr>, bc_hash = (\<lambda>_. 0)\<rparr>)"

definition sample_options :: "nat list option \<Rightarrow> walk_options" where
  "sample_options tr = \<lparr>wo_trace = tr, target_discriminator = None, arm_entry = None, program_entry = 0\<rparr>"

text \<open>C5: A finished walk is not vacuous in its memory cells: it has no overlap error, no pending retry and no unused name, the
  precondition binds every touched register exactly once to its initial name, and when the path dispatched no syscall the memory
  atoms of the precondition are the cells of the state and no two of them share a byte.\<close>

theorem walk_cells_apart:
  assumes "walk_and_exec ctx opts = Ok r" "offsets_ok ctx"
  shows "overlap_errors (wr_state r) = [] \<and> new_hot (wr_state r) = [] \<and> new_blob_splits (wr_state r) = [] \<and>
    fn_reserved (names (wr_state r)) = [] \<and> regs_ok (wr_state r) \<and>
    (syscall_pcs (wr_state r) = [] \<longrightarrow> atom_places (pre (wr_state r)) = map place (mem (wr_state r)) \<and> sorted_wrt apart (mem (wr_state r)))"
  using walk_retry_ok [of ctx opts 8 "[]" "[]" r] walk_pass_ok [of ctx opts _ _ r] assms
  by (auto simp: walk_and_exec_def state_ok_def clean_def ledger_ok_def)

theorem walk_cells_apart_witness:
  "\<exists>r. walk_and_exec sample_ctx (sample_options None) = Ok r \<and> length (mem (wr_state r)) = 8 \<and> sorted_wrt apart (mem (wr_state r))"
proof -
  have "case walk_and_exec sample_ctx (sample_options None) of Ok r \<Rightarrow> length (mem (wr_state r)) = 8 \<and> syscall_pcs (wr_state r) = [] | _ \<Rightarrow> False"
    by code_simp
  then obtain r where r: "walk_and_exec sample_ctx (sample_options None) = Ok r" "length (mem (wr_state r)) = 8" "syscall_pcs (wr_state r) = []"
    by (auto split: res.splits)
  have "offsets_ok sample_ctx" by code_simp
  then show ?thesis using walk_cells_apart [OF r(1)] r by blast
qed

text \<open>C9: A traced walk ends and stays on its trace: the step cap is never hit, whatever the program; on success the walked pcs are
  a prefix of the trace, the walk ends at the next traced pc, or at the last one when the trace is used up, every walked pc is an
  instruction, and every walked conditional jump continues at the next instruction or at its decoded target.\<close>

theorem traced_walk_follows:
  assumes "wo_trace opts = Some tr"
  shows "walk_and_exec ctx opts \<noteq> Err WalkerSteps \<and>
    (\<forall>r. walk_and_exec ctx opts = Ok r \<longrightarrow> (\<exists>k \<le> length tr. wr_block_pcs r = take k tr \<and>
       wr_exit_pc r = (if k < length tr then tr ! k else last tr) \<and> (\<forall>j < k. tr ! j < length (bc_insns ctx) \<and> jump_follows ctx tr j)))"
proof -
  have "walk_retry ctx opts n hot splits \<noteq> Err WalkerSteps" for n hot splits
  proof (induction n arbitrary: hot splits)
    case (Suc n)
    then show ?case using walk_pass_traced(1) [OF assms]
      by (auto simp: bind_res_eq_Err split: prod.splits retry_plan.splits if_splits)
  qed simp
  then show ?thesis using walk_retry_ok [of ctx opts 8 "[]" "[]"] walk_pass_traced(2) [OF assms, of ctx] unfolding walk_and_exec_def by metis
qed

theorem traced_walk_follows_witness:
  "\<exists>r. walk_and_exec sample_ctx (sample_options (Some [0, 1, 2])) = Ok r \<and> (\<exists>k \<le> 3. wr_block_pcs r = take k [0, 1, 2])"
proof -
  have o: "wo_trace (sample_options (Some [0, 1, 2])) = Some [0, 1, 2]" by (simp add: sample_options_def)
  have "case walk_and_exec sample_ctx (sample_options (Some [0, 1, 2])) of Ok r \<Rightarrow> True | _ \<Rightarrow> False" by code_simp
  then obtain r where r: "walk_and_exec sample_ctx (sample_options (Some [0, 1, 2])) = Ok r" by (auto split: res.splits)
  have "length [0, 1, 2 :: nat] = 3" by simp
  then show ?thesis using traced_walk_follows [OF o, of sample_ctx] r by metis
qed

end
