(* ===== verification/Retry_Plans.thy ===== *)
theory Retry_Plans
  imports Walk
begin

text \<open>
  The merge of demotion requests into the hot regions (\<open>merge_hot_regions\<close> of \<open>exec/walk.rs\<close>) as set union: a root's
  regions stay apart from each other, they hold the old bytes and the requested ones and no others, and each request
  lies inside a single region, so that the retried walk demotes the whole access.
\<close>

definition gap :: "int \<times> int \<Rightarrow> int \<times> int \<Rightarrow> bool" where
  "gap r q \<longleftrightarrow> snd r < fst q \<or> snd q < fst r"

definition regions_ok :: "(int \<times> int) list \<Rightarrow> bool" where
  "regions_ok rs \<longleftrightarrow> (\<forall>r \<in> set rs. fst r < snd r) \<and> sorted_wrt gap rs"

definition region_bytes :: "(int \<times> int) list \<Rightarrow> int set" where
  "region_bytes rs = (\<Union>r \<in> set rs. {fst r..<snd r})"

definition inside :: "int \<times> int \<Rightarrow> (int \<times> int) list \<Rightarrow> bool" where
  "inside r rs \<longleftrightarrow> (\<exists>q \<in> set rs. fst q \<le> fst r \<and> snd r \<le> snd q)"

lemma gap_sym: "gap r q \<Longrightarrow> gap q r"
  by (auto simp: gap_def)

lemma regions_ok_append:
  "regions_ok (rs @ qs) \<longleftrightarrow> regions_ok rs \<and> regions_ok qs \<and> (\<forall>r \<in> set rs. \<forall>q \<in> set qs. gap r q)"
  by (auto simp: regions_ok_def sorted_wrt_append)

text \<open>Absorbing a touching region joins the two intervals and keeps its distance from every other region.\<close>

lemma join_gap:
  assumes "gap k (a, b)" "gap k (l, h)" "l \<le> b" "a \<le> h" "fst k < snd k"
  shows "gap k (min a l, max b h)"
  using assms by (auto simp: gap_def)

lemma join_bytes: "(a :: int) < b \<Longrightarrow> l < h \<Longrightarrow> l \<le> b \<Longrightarrow> a \<le> h \<Longrightarrow> {min a l..<max b h} = {a..<b} \<union> {l..<h}"
  by auto

lemma absorb_all:
  assumes "foldl absorb_region (a, b, kept) rs = (a', b', kept')" "a < b" "regions_ok (kept @ rs)" "\<forall>k \<in> set kept. gap k (a, b)"
  shows "regions_ok (kept' @ [(a', b')]) \<and> region_bytes (kept' @ [(a', b')]) = region_bytes kept \<union> {a..<b} \<union> region_bytes rs \<and>
    a' \<le> a \<and> b \<le> b' \<and> (\<forall>r \<in> set (kept @ rs). inside r (kept' @ [(a', b')]))"
  using assms
proof (induction rs arbitrary: a b kept)
  case Nil
  then have "a' = a" "b' = b" "kept' = kept" by simp_all
  then show ?case using Nil.prems by (auto simp: regions_ok_append region_bytes_def inside_def) (simp_all add: regions_ok_def)
next
  case (Cons r rs)
  obtain l h where r: "r = (l, h)" by fastforce
  have ok: "regions_ok (kept @ rs)" "l < h" "\<forall>k \<in> set kept. gap k (l, h) \<and> fst k < snd k" "\<forall>q \<in> set rs. gap (l, h) q"
    using Cons.prems(3) by (auto simp: regions_ok_def sorted_wrt_append r)
  show ?case
  proof (cases "l \<le> b \<and> a \<le> h")
    case True
    have "foldl absorb_region (min a l, max b h, kept) rs = (a', b', kept')" using Cons.prems(1) True absorb_region_def [of "(a, b, kept)" r] by (simp add: r)
    moreover have "\<forall>k \<in> set kept. gap k (min a l, max b h)" using ok(3) Cons.prems(4) True join_gap by blast
    moreover have "min a l < max b h" using Cons.prems(2) by auto
    ultimately have IH: "regions_ok (kept' @ [(a', b')]) \<and> region_bytes (kept' @ [(a', b')]) = region_bytes kept \<union> {min a l..<max b h} \<union> region_bytes rs \<and>
        a' \<le> min a l \<and> max b h \<le> b' \<and> (\<forall>r \<in> set (kept @ rs). inside r (kept' @ [(a', b')]))" using Cons.IH ok(1) by blast
    then show ?thesis using join_bytes [OF Cons.prems(2) ok(2)] True by (auto simp: r region_bytes_def inside_def)
  next
    case False
    then have g: "gap (l, h) (a, b)" by (auto simp: gap_def)
    have "foldl absorb_region (a, b, kept @ [(l, h)]) rs = (a', b', kept')" using Cons.prems(1) False absorb_region_def [of "(a, b, kept)" r] by (auto simp: r split: if_splits)
    moreover have "regions_ok ((kept @ [(l, h)]) @ rs)" using Cons.prems(3) by (simp add: r)
    moreover have "\<forall>k \<in> set (kept @ [(l, h)]). gap k (a, b)" using Cons.prems(4) g by auto
    ultimately have IH: "regions_ok (kept' @ [(a', b')]) \<and>
        region_bytes (kept' @ [(a', b')]) = region_bytes (kept @ [(l, h)]) \<union> {a..<b} \<union> region_bytes rs \<and>
        a' \<le> a \<and> b \<le> b' \<and> (\<forall>r \<in> set ((kept @ [(l, h)]) @ rs). inside r (kept' @ [(a', b')]))" using Cons.IH Cons.prems(2) by blast
    then show ?thesis by (auto simp: r region_bytes_def)
  qed
qed

lemma merge_region_exact:
  assumes "lo < hi" "regions_ok rs"
  shows "regions_ok (merge_region lo hi rs)" "region_bytes (merge_region lo hi rs) = {lo..<hi} \<union> region_bytes rs"
    "inside (lo, hi) (merge_region lo hi rs)" "r \<in> set rs \<Longrightarrow> inside r (merge_region lo hi rs)"
proof -
  obtain a b kept where f: "foldl absorb_region (lo, hi, []) rs = (a, b, kept)" by (metis prod.exhaust)
  note m = absorb_all [OF f assms(1)]
  show "regions_ok (merge_region lo hi rs)" "region_bytes (merge_region lo hi rs) = {lo..<hi} \<union> region_bytes rs"
    "inside (lo, hi) (merge_region lo hi rs)" "r \<in> set rs \<Longrightarrow> inside r (merge_region lo hi rs)"
    using m assms(2) by (auto simp: merge_region_def f region_bytes_def inside_def)
qed

lemma inside_trans: "inside r rs \<Longrightarrow> (\<And>q. q \<in> set rs \<Longrightarrow> inside q rs') \<Longrightarrow> inside r rs'"
  unfolding inside_def by (meson order_trans)

lemma regions_of_insert: "regions_of (bt_insert root rs hot) root' = (if root' = root then rs else regions_of hot root')"
  by (simp add: regions_of_def)

definition hot_plan_ok :: "(string \<times> (int \<times> int) list) list \<Rightarrow> bool" where
  "hot_plan_ok hot \<longleftrightarrow> (\<forall>rs \<in> ran (map_of hot). regions_ok rs)"

lemma hot_plan_regions: "hot_plan_ok hot \<Longrightarrow> regions_ok (regions_of hot root)"
  by (cases "map_of hot root") (simp_all add: hot_plan_ok_def regions_of_def regions_ok_def [of "[]"], blast intro: ranI)

definition requested :: "(string \<times> int \<times> int) list \<Rightarrow> string \<Rightarrow> int set" where
  "requested news root = (\<Union>(r, lo, hi) \<in> set news. if r = root then {lo..<hi} else {})"

lemma merge_plan:
  assumes "hot_plan_ok hot" "\<forall>(root, lo, hi) \<in> set news. lo < hi"
  shows "hot_plan_ok (merge_hot_regions hot news) \<and>
    (\<forall>root. region_bytes (regions_of (merge_hot_regions hot news) root) = region_bytes (regions_of hot root) \<union> requested news root) \<and>
    (\<forall>root. \<forall>r \<in> set (regions_of hot root). inside r (regions_of (merge_hot_regions hot news) root)) \<and>
    (\<forall>(root, lo, hi) \<in> set news. inside (lo, hi) (regions_of (merge_hot_regions hot news) root))"
  using assms
proof (induction news arbitrary: hot)
  case Nil
  then show ?case by (auto simp: merge_hot_regions_def requested_def inside_def)
next
  case (Cons n news)
  obtain root lo hi where n: "n = (root, lo, hi)" by (metis prod.exhaust)
  let ?h = "bt_insert root (merge_region lo hi (regions_of hot root)) hot"
  have lh: "lo < hi" using Cons.prems(2) by (auto simp: n)
  note m = merge_region_exact [OF lh hot_plan_regions [OF Cons.prems(1), of root]]
  have ok: "hot_plan_ok ?h" using Cons.prems(1) m(1) by (auto simp: hot_plan_ok_def ran_def split: if_splits)
  have h': "merge_hot_regions hot (n # news) = merge_hot_regions ?h news" by (simp add: merge_hot_regions_def n)
  have "\<forall>(root, lo, hi) \<in> set news. lo < hi" using Cons.prems(2) by auto
  note IH = Cons.IH [OF ok this]
  have k: "inside r (regions_of ?h rt)" if "r \<in> set (regions_of hot rt)" for r rt
    using that m(4) by (auto simp: regions_of_insert inside_def)
  have i: "inside r (regions_of (merge_hot_regions ?h news) rt)" if "inside r (regions_of ?h rt)" for r rt
    using inside_trans [OF that] IH by blast
  have "inside (lo, hi) (regions_of (merge_hot_regions ?h news) root)" using i [of "(lo, hi)" root] m(3) by (simp add: regions_of_insert)
  moreover have "requested (n # news) rt = (if rt = root then {lo..<hi} else {}) \<union> requested news rt" for rt
    by (auto simp: requested_def n)
  ultimately show ?case using IH k i m(2) unfolding h' by (auto simp: n regions_of_insert)
qed

subsection \<open>Properties\<close>

text \<open>C20: Merging demotion requests is set union: every root's hot regions stay pairwise apart and non-empty, they cover exactly
  the bytes hot before and the bytes requested, nothing becomes cold, and a state started with the merged plan treats every
  requested range as one hot range.\<close>

theorem merge_hot_regions_exact:
  assumes "hot_plan_ok hot" "\<forall>(root, lo, hi) \<in> set news. lo < hi"
    and "s = with_retry_plans (merge_hot_regions hot news) splits"
  shows "hot_plan_ok (hot_regions s) \<and>
    (\<forall>root. region_bytes (hot_of s root) = region_bytes (regions_of hot root) \<union> requested news root) \<and>
    (\<forall>(root, lo, hi) \<in> set news. hot_covers s root lo hi)"
proof (intro conjI)
  have h: "hot_regions s = merge_hot_regions hot news" by (simp add: assms(3) with_retry_plans_def)
  then have o: "hot_of s = regions_of (merge_hot_regions hot news)" by (simp add: fun_eq_iff hot_of_def regions_of_def)
  note m = merge_plan [OF assms(1,2)]
  show "hot_plan_ok (hot_regions s)" using m h by simp
  show "\<forall>root. region_bytes (hot_of s root) = region_bytes (regions_of hot root) \<union> requested news root" using m o by simp
  show "\<forall>(root, lo, hi) \<in> set news. hot_covers s root lo hi"
    using m unfolding hot_covers_def o by (fastforce simp: inside_def list_ex_iff)
qed

theorem merge_hot_regions_exact_witness:
  "(let s = with_retry_plans (merge_hot_regions [(''r1'', [(0, 8), (16, 20)])] [(''r1'', 20, 24), (''r1'', 4, 17)]) [] in
    hot_of s ''r1'' = [(0, 24)] \<and> hot_covers s ''r1'' 20 24 \<and> hot_covers s ''r1'' 4 17)"
proof -
  let ?hot = "[(''r1'', [(0, 8), (16, 20)])] :: (string \<times> (int \<times> int) list) list"
  let ?news = "[(''r1'', 20, 24), (''r1'', 4, 17)] :: (string \<times> int \<times> int) list"
  have "hot_plan_ok ?hot" by (simp add: hot_plan_ok_def regions_ok_def gap_def)
  moreover have "\<forall>(root, lo, hi) \<in> set ?news. lo < hi" by simp
  ultimately have "\<forall>(root, lo, hi) \<in> set ?news. hot_covers (with_retry_plans (merge_hot_regions ?hot ?news) []) root lo hi"
    using merge_hot_regions_exact [OF _ _ refl, of ?hot ?news "[]"] by blast
  moreover have "hot_of (with_retry_plans (merge_hot_regions ?hot ?news) []) ''r1'' = [(0, 24)]" by code_simp
  ultimately show ?thesis by (simp add: Let_def)
qed

end
