(* ===== verification/Panic_Chain.thy ===== *)
theory Panic_Chain
  imports Cfg Isa
begin

text \<open>
  Panic-chain witnesses of \<open>qed-analysis/src/discover/noreturn.rs\<close>.  A depth-first walk collects, for
  every function the graph says never returns, the steps that lead each of its runs to the
  \<open>sol_panic_\<close> call, in the order the proof checker \<open>noRetCheck\<close> needs: a step continues only at steps
  before it.  The walk's recursion is bounded by the addresses not yet active; running out of the bound
  is \<open>Panic\<close>, shown not to occur.
\<close>

datatype no_ret_step = Straight nat nat | CallLocal nat nat | CondBranch nat nat | PanicCall nat

fun step_pc :: "no_ret_step \<Rightarrow> nat" where
  "step_pc (Straight p _) = p"
| "step_pc (CallLocal p _) = p"
| "step_pc (CondBranch p _) = p"
| "step_pc (PanicCall p) = p"

record no_ret_witness =
  nw_heads :: "nat list"
  nw_steps :: "no_ret_step list"
  nw_skipped :: "(nat \<times> string) list"

fun step_to_lean :: "no_ret_step \<Rightarrow> string" where
  "step_to_lean (Straight p n) = ''.straight '' @ digits p @ '' '' @ digits n"
| "step_to_lean (CallLocal p t) = ''.callLocal '' @ digits p @ '' '' @ digits t"
| "step_to_lean (CondBranch p t) = ''.branch '' @ digits p @ '' '' @ digits t"
| "step_to_lean (PanicCall p) = ''.panicCall '' @ digits p"

definition witness_to_lean :: "no_ret_witness \<Rightarrow> string" where
  "witness_to_lean w =
     ''{ heads := ['' @ join '', '' (map digits (nw_heads w)) @ '']'' @ [char_of (10::nat)] @
     ''    steps := ['' @ join '', '' (map step_to_lean (nw_steps w)) @ ''] }''"

text \<open>The derived debug form of \<open>Option<&Flow>\<close>, which the reason of a skipped chain quotes.\<close>

definition quoted :: "string \<Rightarrow> string" where
  "quoted s = char_of (34::nat) # s @ [char_of (34::nat)]"

fun flow_debug :: "flow \<Rightarrow> string" where
  "flow_debug Seq = ''Seq''"
| "flow_debug (Jump t) = ''Jump('' @ digits t @ '')''"
| "flow_debug (Branch t) = ''Branch('' @ digits t @ '')''"
| "flow_debug (FCall t) = ''Call('' @ digits t @ '')''"
| "flow_debug (FSyscall h n) = ''Syscall { hash: '' @ digits (unat h) @ '', name: '' @
     (case n of None \<Rightarrow> ''None'' | Some s \<Rightarrow> ''Some('' @ quoted s @ '')'') @ '' }''"
| "flow_debug FCallReg = ''CallReg''"
| "flow_debug FExit = ''Exit''"
| "flow_debug Unresolved = ''Unresolved''"

definition get_flow :: "flow list \<Rightarrow> nat \<Rightarrow> flow option" where
  "get_flow fl pc = (if pc < length fl then Some (fl ! pc) else None)"

definition chain_stops :: "nat \<Rightarrow> flow option \<Rightarrow> string" where
  "chain_stops pc f = digits pc @ '': '' @
     (case f of None \<Rightarrow> ''None'' | Some g \<Rightarrow> ''Some('' @ flow_debug g @ '')'') @ '' before a panic call''"

record chain_walk =
  cw_done :: "nat set"
  cw_active :: "nat set"
  cw_steps :: "no_ret_step list"

definition seq_run :: "flow list \<Rightarrow> nat \<Rightarrow> nat" where
  "seq_run fl pc = length (takeWhile (\<lambda>p. fl ! p = Seq) [pc..<length fl])"

definition ends_step :: "no_ret_step \<Rightarrow> chain_walk \<times> (string, unit) res \<Rightarrow> chain_walk \<times> (string, no_ret_step) res" where
  "ends_step s x = (case x of (w, r) \<Rightarrow> (w, bind_res r (\<lambda>_. Ok s)))"

definition finish_visit :: "nat \<Rightarrow> chain_walk \<times> (string, no_ret_step) res \<Rightarrow> chain_walk \<times> (string, unit) res" where
  "finish_visit pc x = (case x of (w, r) \<Rightarrow> (case r of
      Ok s \<Rightarrow> (w\<lparr>cw_active := cw_active w - {pc}, cw_done := insert pc (cw_done w), cw_steps := cw_steps w @ [s]\<rparr>, Ok ())
    | Err e \<Rightarrow> (w, Err e)
    | Panic \<Rightarrow> (w, Panic)))"

fun visit :: "nat \<Rightarrow> flow list \<Rightarrow> nat \<Rightarrow> chain_walk \<Rightarrow> chain_walk \<times> (string, unit) res" where
  "visit 0 fl pc w = (w, Panic)"
| "visit (Suc n) fl pc w =
     (if pc \<in> cw_done w then (w, Ok ())
      else if pc \<in> cw_active w then (w, Err (''panic chain loops at '' @ digits pc))
      else
        (let w1 = w\<lparr>cw_active := insert pc (cw_active w)\<rparr>; len = seq_run fl pc in
         finish_visit pc
           (if len > 0 then ends_step (Straight pc len) (visit n fl (pc + len) w1)
            else (case get_flow fl pc of
                Some (FCall t) \<Rightarrow> ends_step (CallLocal pc t) (visit n fl t w1)
              | Some (Branch t) \<Rightarrow>
                  ends_step (CondBranch pc t)
                    (case visit n fl t w1 of
                       (w2, Ok u) \<Rightarrow> visit n fl (pc + 1) w2
                     | (w2, Err e) \<Rightarrow> (w2, Err e)
                     | (w2, Panic) \<Rightarrow> (w2, Panic))
              | Some (FSyscall h (Some m)) \<Rightarrow>
                  if m = ''sol_panic_'' then (w1, Ok (PanicCall pc))
                  else (w1, Err (chain_stops pc (Some (FSyscall h (Some m)))))
              | other \<Rightarrow> (w1, Err (chain_stops pc other))))))"

declare visit.simps(2) [simp del]

text \<open>One round of the loop over the functions: a chain that fails is dropped whole.\<close>

definition witness_turn :: "flow list \<Rightarrow> chain_walk \<times> nat list \<times> (nat \<times> string) list \<Rightarrow> nat \<Rightarrow>
    (string, chain_walk \<times> nat list \<times> (nat \<times> string) list) res" where
  "witness_turn fl s f = (case s of (w, heads, skipped) \<Rightarrow>
     (case visit (length fl + 1) fl f w of
        (w', Ok u) \<Rightarrow> Ok (w', heads @ [f], skipped)
      | (w', Err reason) \<Rightarrow>
          Ok (w'\<lparr>cw_done := cw_done w, cw_steps := take (length (cw_steps w)) (cw_steps w'), cw_active := {}\<rparr>,
              heads, skipped @ [(f, reason)])
      | (w', Panic) \<Rightarrow> Panic))"

definition noreturn_witness :: "cfg \<Rightarrow> (string, no_ret_witness) res" where
  "noreturn_witness c =
     bind_res (map_err (\<lambda>_. []) (reachable_functions c)) (\<lambda>reachable.
     bind_res (foldM (witness_turn (flows c)) (\<lparr>cw_done = {}, cw_active = {}, cw_steps = []\<rparr>, [], [])
       (filter (\<lambda>f. f \<in> reachable) (sorted_list_of_set (noreturn c)))) (\<lambda>(w, heads, skipped).
     Ok \<lparr>nw_heads = heads, nw_steps = cw_steps w, nw_skipped = skipped\<rparr>))"

subsection \<open>What the checker accepts\<close>

text \<open>The proof checker's test, over the decoded flow: a step may continue only at addresses accepted
  before it, and every head must be the address of a step.\<close>

fun step_ok :: "flow list \<Rightarrow> nat list \<Rightarrow> no_ret_step \<Rightarrow> bool" where
  "step_ok fl dn (Straight p n) \<longleftrightarrow> (\<forall>i \<in> set [0..<n]. get_flow fl (p + i) = Some Seq) \<and> p + n \<in> set dn"
| "step_ok fl dn (CallLocal p t) \<longleftrightarrow> get_flow fl p = Some (FCall t) \<and> t \<in> set dn"
| "step_ok fl dn (CondBranch p t) \<longleftrightarrow> get_flow fl p = Some (Branch t) \<and> t \<in> set dn \<and> p + 1 \<in> set dn"
| "step_ok fl dn (PanicCall p) \<longleftrightarrow>
     (case get_flow fl p of Some (FSyscall h (Some m)) \<Rightarrow> m = ''sol_panic_'' | _ \<Rightarrow> False)"

fun steps_ok :: "flow list \<Rightarrow> nat list \<Rightarrow> no_ret_step list \<Rightarrow> bool" where
  "steps_ok fl dn [] = True"
| "steps_ok fl dn (s # ss) \<longleftrightarrow> step_ok fl dn s \<and> steps_ok fl (step_pc s # dn) ss"

definition no_ret_check :: "flow list \<Rightarrow> no_ret_witness \<Rightarrow> bool" where
  "no_ret_check fl w \<longleftrightarrow> steps_ok fl [] (nw_steps w) \<and> set (nw_heads w) \<subseteq> step_pc ` set (nw_steps w)"

text \<open>Every run from the address ends in the \<open>sol_panic_\<close> call, after finitely many steps.\<close>

inductive panics :: "flow list \<Rightarrow> nat \<Rightarrow> nat \<Rightarrow> bool" for fl where
  p_call: "get_flow fl pc = Some (FSyscall h (Some ''sol_panic_'')) \<Longrightarrow> panics fl 0 pc"
| p_seq: "get_flow fl pc = Some Seq \<Longrightarrow> panics fl d (pc + 1) \<Longrightarrow> panics fl (Suc d) pc"
| p_local: "get_flow fl pc = Some (FCall t) \<Longrightarrow> panics fl d t \<Longrightarrow> panics fl (Suc d) pc"
| p_branch: "get_flow fl pc = Some (Branch t) \<Longrightarrow> panics fl d t \<Longrightarrow> panics fl d' (pc + 1) \<Longrightarrow>
    panics fl (Suc (max d d')) pc"

inductive_cases panicsE: "panics fl d pc"

definition ends_in_panic :: "flow list \<Rightarrow> nat \<Rightarrow> bool" where
  "ends_in_panic fl pc \<longleftrightarrow> (\<exists>d. panics fl d pc)"

subsection \<open>The walk in one rule\<close>

text \<open>The step of an address and the addresses it continues at, and visits made one after the other.\<close>

definition chain_next :: "flow list \<Rightarrow> nat \<Rightarrow> (no_ret_step \<times> nat list) option" where
  "chain_next fl pc =
     (if seq_run fl pc > 0 then Some (Straight pc (seq_run fl pc), [pc + seq_run fl pc])
      else (case get_flow fl pc of
          Some (FCall t) \<Rightarrow> Some (CallLocal pc t, [t])
        | Some (Branch t) \<Rightarrow> Some (CondBranch pc t, [t, pc + 1])
        | Some (FSyscall h (Some m)) \<Rightarrow> if m = ''sol_panic_'' then Some (PanicCall pc, []) else None
        | _ \<Rightarrow> None))"

fun visit_seq :: "(nat \<Rightarrow> chain_walk \<Rightarrow> chain_walk \<times> (string, unit) res) \<Rightarrow> nat list \<Rightarrow> chain_walk \<Rightarrow> chain_walk \<times> (string, unit) res" where
  "visit_seq v [] w = (w, Ok ())"
| "visit_seq v (t # ts) w = (case v t w of (w', r) \<Rightarrow> if r = Ok () then visit_seq v ts w' else (w', r))"

lemma visit_seq_one: "visit_seq v [t] w = v t w"
  by (cases "v t w") simp

lemma visit_seq_two:
  "visit_seq v [t, u] w = (case v t w of (w2, Ok x) \<Rightarrow> v u w2 | (w2, Err e) \<Rightarrow> (w2, Err e) | (w2, Panic) \<Rightarrow> (w2, Panic))"
  by (cases "v t w", cases "snd (v t w)") (simp_all del: visit_seq.simps(2) add: visit_seq.simps(2) [of v t] visit_seq_one)

lemma visit_fresh:
  assumes "pc \<notin> cw_done w" "pc \<notin> cw_active w"
  shows "visit (Suc n) fl pc w = finish_visit pc
     (let w1 = w\<lparr>cw_active := insert pc (cw_active w)\<rparr> in
      case chain_next fl pc of
        None \<Rightarrow> (w1, Err (chain_stops pc (get_flow fl pc)))
      | Some (s, ts) \<Rightarrow> ends_step s (visit_seq (visit n fl) ts w1))"
proof -
  let ?w1 = "w\<lparr>cw_active := insert pc (cw_active w)\<rparr>"
  consider (run) "seq_run fl pc > 0" | (none) "seq_run fl pc = 0" "get_flow fl pc = None"
    | (some) f where "seq_run fl pc = 0" "get_flow fl pc = Some f" by (cases "get_flow fl pc") auto
  then show ?thesis
  proof cases
    case some
    then show ?thesis using assms
      by (cases f) (simp_all del: visit_seq.simps(2) add: visit.simps(2) chain_next_def visit_seq_one visit_seq_two ends_step_def split: option.split)
  qed (use assms in \<open>simp_all del: visit_seq.simps(2) add: visit.simps(2) chain_next_def visit_seq_one Let_def\<close>)
qed

lemma seq_run_flow: "i < seq_run fl pc \<Longrightarrow> get_flow fl (pc + i) = Some Seq"
proof -
  assume i: "i < seq_run fl pc"
  let ?xs = "[pc..<length fl]" and ?P = "\<lambda>p. fl ! p = Seq"
  have "i < length fl - pc" using i length_takeWhile_le [of ?P ?xs] by (simp add: seq_run_def)
  moreover have "takeWhile ?P ?xs ! i \<in> set (takeWhile ?P ?xs)" using i by (intro nth_mem) (simp add: seq_run_def)
  then have "?P (takeWhile ?P ?xs ! i)" using set_takeWhileD by fast
  ultimately show ?thesis using i by (simp add: takeWhile_nth seq_run_def get_flow_def)
qed

lemma seq_run_pos: "seq_run fl pc > 0 \<longleftrightarrow> get_flow fl pc = Some Seq"
proof
  show "get_flow fl pc = Some Seq" if "seq_run fl pc > 0" using seq_run_flow [OF that] by simp
  assume "get_flow fl pc = Some Seq"
  then have "[pc..<length fl] = pc # [Suc pc..<length fl]" "fl ! pc = Seq"
    by (auto simp: get_flow_def upt_conv_Cons split: if_splits)
  then show "seq_run fl pc > 0" by (simp add: seq_run_def)
qed

lemma chain_next_ok:
  assumes "chain_next fl pc = Some (s, ts)"
  shows "pc < length fl" "step_pc s = pc" "set ts \<subseteq> set dn \<Longrightarrow> step_ok fl dn s"
proof -
  have "get_flow fl pc \<noteq> None"
    using assms seq_run_pos [of fl pc] by (auto simp: chain_next_def split: if_splits option.splits)
  then show "pc < length fl" by (simp add: get_flow_def split: if_splits)
  show "step_pc s = pc" using assms by (auto simp: chain_next_def split: if_splits option.splits flow.splits)
  show "step_ok fl dn s" if "set ts \<subseteq> set dn"
    using assms that seq_run_flow [of _ fl pc]
    by (auto simp: chain_next_def split: if_splits option.splits flow.splits)
qed

subsection \<open>The steps stay in check order\<close>

lemma steps_ok_snoc: "steps_ok fl dn (ss @ [s]) \<longleftrightarrow> steps_ok fl dn ss \<and> step_ok fl (rev (map step_pc ss) @ dn) s"
  by (induction ss arbitrary: dn) auto

definition chain_ok :: "flow list \<Rightarrow> chain_walk \<Rightarrow> bool" where
  "chain_ok fl w \<longleftrightarrow> steps_ok fl [] (cw_steps w) \<and> cw_done w = step_pc ` set (cw_steps w)"

definition grows :: "flow list \<Rightarrow> chain_walk \<Rightarrow> chain_walk \<Rightarrow> bool" where
  "grows fl w w' \<longleftrightarrow> chain_ok fl w' \<and> (\<exists>ys. cw_steps w' = cw_steps w @ ys)"

lemma grows_refl: "chain_ok fl w \<Longrightarrow> cw_done w' = cw_done w \<Longrightarrow> cw_steps w' = cw_steps w \<Longrightarrow> grows fl w w'"
  by (simp add: grows_def chain_ok_def)

lemma grows_trans: "grows fl w w' \<Longrightarrow> grows fl w' w'' \<Longrightarrow> grows fl w w''"
  by (auto simp: grows_def)

lemma grows_done: "chain_ok fl w \<Longrightarrow> grows fl w w' \<Longrightarrow> cw_done w \<subseteq> cw_done w'"
  by (auto simp: grows_def chain_ok_def)

lemma visit_seq_inv:
  assumes v: "\<And>t w w' r. v t w = (w', r) \<Longrightarrow> chain_ok fl w \<Longrightarrow>
      grows fl w w' \<and> (r = Ok () \<longrightarrow> cw_active w' = cw_active w \<and> t \<in> cw_done w')"
  shows "visit_seq v ts w = (w', r) \<Longrightarrow> chain_ok fl w \<Longrightarrow>
      grows fl w w' \<and> (r = Ok () \<longrightarrow> cw_active w' = cw_active w \<and> set ts \<subseteq> cw_done w')"
proof (induction ts arbitrary: w)
  case Nil
  then show ?case by (simp add: grows_refl)
next
  case (Cons t ts)
  obtain w1 r1 where v1: "v t w = (w1, r1)" by fastforce
  note one = v [OF v1 Cons.prems(2)]
  show ?case
  proof (cases "r1 = Ok ()")
    case False
    then show ?thesis using Cons.prems(1) v1 one by auto
  next
    case True
    then have "visit_seq v ts w1 = (w', r)" using Cons.prems(1) v1 by simp
    moreover have "chain_ok fl w1" using one by (simp add: grows_def)
    ultimately have "grows fl w1 w' \<and> (r = Ok () \<longrightarrow> cw_active w' = cw_active w1 \<and> set ts \<subseteq> cw_done w')"
      by (rule Cons.IH)
    then show ?thesis using one True grows_trans grows_done \<open>chain_ok fl w1\<close> by (metis list.simps(15) insert_subset subsetD)
  qed
qed

lemma visit_inv:
  "visit n fl pc w = (w', r) \<Longrightarrow> chain_ok fl w \<Longrightarrow>
     grows fl w w' \<and> (r = Ok () \<longrightarrow> cw_active w' = cw_active w \<and> pc \<in> cw_done w')"
proof (induction n arbitrary: pc w w' r)
  case 0
  then show ?case by (auto simp: grows_refl)
next
  case (Suc n)
  show ?case
  proof (cases "pc \<in> cw_done w \<or> pc \<in> cw_active w")
    case True
    then show ?thesis using Suc.prems by (auto simp: visit.simps(2) grows_refl split: if_splits)
  next
    case False
    let ?w1 = "w\<lparr>cw_active := insert pc (cw_active w)\<rparr>"
    have ok1: "chain_ok fl ?w1" using Suc.prems(2) by (simp add: chain_ok_def)
    note vis = visit_fresh [of pc w n fl, unfolded Let_def]
    show ?thesis
    proof (cases "chain_next fl pc")
      case None
      then have "w' = ?w1" "r \<noteq> Ok ()" using Suc.prems(1) False vis by (simp_all add: finish_visit_def)
      then show ?thesis using Suc.prems(2) by (auto intro: grows_refl)
    next
      case (Some x)
      then obtain s ts where nx: "chain_next fl pc = Some (s, ts)" by (cases x) auto
      obtain w2 r2 where vs: "visit_seq (visit n fl) ts ?w1 = (w2, r2)" by fastforce
      have inv: "grows fl ?w1 w2 \<and> (r2 = Ok () \<longrightarrow> cw_active w2 = cw_active ?w1 \<and> set ts \<subseteq> cw_done w2)"
        by (rule visit_seq_inv [OF Suc.IH vs ok1])
      then have gr: "grows fl w w2" by (simp add: grows_def)
      have fin: "(w', r) = finish_visit pc (ends_step s (w2, r2))" using Suc.prems(1) False vis nx vs by simp
      show ?thesis
      proof (cases "r2 = Ok ()")
        case False
        then have "w' = w2" "r \<noteq> Ok ()" using fin by (cases r2; simp add: finish_visit_def ends_step_def)+
        then show ?thesis using gr by simp
      next
        case True
        then have w': "w' = w2\<lparr>cw_active := cw_active w2 - {pc}, cw_done := insert pc (cw_done w2), cw_steps := cw_steps w2 @ [s]\<rparr>"
          using fin by (simp add: finish_visit_def ends_step_def)
        have "set ts \<subseteq> set (rev (map step_pc (cw_steps w2)) @ [])"
          using inv True by (auto simp: grows_def chain_ok_def)
        then have "chain_ok fl w'"
          using chain_next_ok(2,3) [OF nx] gr by (auto simp: w' chain_ok_def grows_def steps_ok_snoc)
        moreover have "cw_active w' = cw_active w" using inv True False w' by auto
        ultimately show ?thesis using gr by (auto simp: w' grows_def)
      qed
    qed
  qed
qed

subsection \<open>The bound is enough\<close>

lemma visit_bound:
  "card ({..<length fl} - cw_active w) < n \<Longrightarrow> chain_ok fl w \<Longrightarrow> snd (visit n fl pc w) \<noteq> Panic"
proof (induction n arbitrary: pc w)
  case (Suc n)
  let ?w1 = "w\<lparr>cw_active := insert pc (cw_active w)\<rparr>"
  have seq: "set ts \<subseteq> X \<Longrightarrow> cw_active w1 = cw_active ?w1 \<Longrightarrow> chain_ok fl w1 \<Longrightarrow> pc < length fl \<Longrightarrow> pc \<notin> cw_active w \<Longrightarrow>
      snd (visit_seq (visit n fl) ts w1) \<noteq> Panic" for ts w1 X
  proof (induction ts arbitrary: w1)
    case (Cons t ts)
    have "card ({..<length fl} - cw_active w1) < card ({..<length fl} - cw_active w)"
      using Cons.prems by (intro psubset_card_mono) auto
    then have "card ({..<length fl} - cw_active w1) < n" using Suc.prems(1) by simp
    then have "snd (visit n fl t w1) \<noteq> Panic" using Suc.IH Cons.prems by blast
    moreover obtain w2 r where v: "visit n fl t w1 = (w2, r)" by fastforce
    ultimately show ?case
      using visit_inv [OF v] Cons.prems Cons.IH [of w2] by (auto simp: grows_def)
  qed simp
  show ?case
  proof (cases "pc \<in> cw_done w \<or> pc \<in> cw_active w")
    case True
    then show ?thesis by (auto simp: visit.simps(2))
  next
    case False
    have ok1: "chain_ok fl ?w1" using Suc.prems(2) by (simp add: chain_ok_def)
    show ?thesis
    proof (cases "chain_next fl pc")
      case None
      then show ?thesis using False by (simp add: visit_fresh finish_visit_def)
    next
      case (Some x)
      then obtain s ts where nx: "chain_next fl pc = Some (s, ts)" by (cases x) auto
      obtain w2 r2 where vs: "visit_seq (visit n fl) ts ?w1 = (w2, r2)" by fastforce
      have "r2 \<noteq> Panic" using seq [OF subset_refl refl ok1 chain_next_ok(1) [OF nx]] False vs by (metis snd_conv)
      then show ?thesis using False nx vs by (cases r2) (simp_all add: visit_fresh finish_visit_def ends_step_def)
    qed
  qed
qed simp

subsection \<open>The chains found are the chains there are\<close>

lemma panics_run:
  "(\<And>i. i < n \<Longrightarrow> get_flow fl (pc + i) = Some Seq) \<Longrightarrow> panics fl d (pc + n) \<Longrightarrow> panics fl (d + n) pc"
proof (induction n arbitrary: pc)
  case (Suc n)
  have "panics fl (d + n) (pc + 1)" using Suc.IH [of "pc + 1"] Suc.prems(1) [of "Suc _"] Suc.prems(2) by simp
  then show ?case using panics.p_seq Suc.prems(1) [of 0] by fastforce
qed simp

lemma step_ok_panics:
  assumes "step_ok fl dn s" "\<forall>p \<in> set dn. ends_in_panic fl p"
  shows "ends_in_panic fl (step_pc s)"
  using assms
proof (cases s)
  case (Straight p n)
  then obtain d where "panics fl d (p + n)" using assms by (auto simp: ends_in_panic_def)
  then have "panics fl (d + n) p" using assms Straight by (intro panics_run) auto
  then show ?thesis using Straight by (auto simp: ends_in_panic_def)
next
  case (CallLocal p t)
  then obtain d where "panics fl d t" using assms by (auto simp: ends_in_panic_def)
  then show ?thesis using assms CallLocal p_local [of fl p t d] by (auto simp: ends_in_panic_def)
next
  case (CondBranch p t)
  then have "ends_in_panic fl t" "ends_in_panic fl (p + 1)" using assms by auto
  then obtain d d' where "panics fl d t" "panics fl d' (p + 1)" by (auto simp: ends_in_panic_def)
  then show ?thesis using assms CondBranch p_branch [of fl p t d d'] by (auto simp: ends_in_panic_def)
qed (auto simp: ends_in_panic_def intro: panics.intros split: option.splits flow.splits)

lemma steps_ok_panics:
  "steps_ok fl dn ss \<Longrightarrow> \<forall>p \<in> set dn. ends_in_panic fl p \<Longrightarrow> \<forall>s \<in> set ss. ends_in_panic fl (step_pc s)"
  by (induction ss arbitrary: dn) (auto dest: step_ok_panics)

lemma panics_unrun:
  "panics fl d pc \<Longrightarrow> (\<And>i. i < n \<Longrightarrow> get_flow fl (pc + i) = Some Seq) \<Longrightarrow> n \<le> d \<and> panics fl (d - n) (pc + n)"
proof (induction n arbitrary: d pc)
  case (Suc n)
  have "get_flow fl pc = Some Seq" using Suc.prems(2) [of 0] by simp
  then obtain e where "d = Suc e" "panics fl e (pc + 1)" using Suc.prems(1) by (auto elim: panicsE)
  then show ?case using Suc.IH [of e "pc + 1"] Suc.prems(2) [of "Suc _"] by simp
qed simp

lemma panics_next:
  assumes "panics fl d pc"
  obtains s ts where "chain_next fl pc = Some (s, ts)" "\<forall>t \<in> set ts. \<exists>e < d. panics fl e t"
proof (cases "seq_run fl pc > 0")
  case True
  then have "seq_run fl pc \<le> d \<and> panics fl (d - seq_run fl pc) (pc + seq_run fl pc)"
    by (intro panics_unrun assms seq_run_flow)
  then have "\<exists>e < d. panics fl e (pc + seq_run fl pc)" using True by (intro exI [of _ "d - seq_run fl pc"]) auto
  then show ?thesis using that True by (simp add: chain_next_def)
next
  case False
  then have "get_flow fl pc \<noteq> Some Seq" by (simp add: seq_run_pos)
  with assms show ?thesis
  proof (cases rule: panics.cases)
    case (p_call h)
    then show ?thesis using that False by (simp add: chain_next_def)
  next
    case (p_local t e)
    then show ?thesis using that False by (simp add: chain_next_def) blast
  next
    case (p_branch t e e')
    moreover have "e < Suc (max e e')" "e' < Suc (max e e')" by simp_all
    ultimately show ?thesis using that False by (simp add: chain_next_def) blast
  qed simp
qed

lemma panics_unique: "panics fl d pc \<Longrightarrow> panics fl e pc \<Longrightarrow> d = e"
proof (induction arbitrary: e rule: panics.induct)
  case (p_call pc h)
  then show ?case by (auto elim: panicsE)
next
  case (p_seq pc d)
  from p_seq.prems p_seq.hyps(1) obtain u where "e = Suc u" "panics fl u (pc + 1)" by (auto elim: panicsE)
  then show ?case using p_seq.IH by simp
next
  case (p_local pc t d)
  from p_local.prems p_local.hyps(1) obtain u where "e = Suc u" "panics fl u t" by (auto elim: panicsE)
  then show ?case using p_local.IH by simp
next
  case (p_branch pc t d d')
  from p_branch.prems p_branch.hyps(1) obtain u u' where "e = Suc (max u u')" "panics fl u t" "panics fl u' (pc + 1)"
    by (auto elim: panicsE)
  then show ?case using p_branch.IH by simp
qed

text \<open>A chain is found unless an address on it is already active below a deeper chain.\<close>

lemma visit_finds:
  "panics fl d pc \<Longrightarrow> \<forall>a \<in> cw_active w. \<forall>e. panics fl e a \<longrightarrow> d < e \<Longrightarrow> chain_ok fl w \<Longrightarrow>
   visit n fl pc w = (w', r) \<Longrightarrow> r \<noteq> Panic \<Longrightarrow> r = Ok ()"
proof (induction n arbitrary: d pc w w' r)
  case (Suc n)
  let ?w1 = "w\<lparr>cw_active := insert pc (cw_active w)\<rparr>"
  show ?case
  proof (cases "pc \<in> cw_done w")
    case True
    then show ?thesis using Suc.prems(4) by (simp add: visit.simps(2))
  next
    case False
    then have fresh: "pc \<notin> cw_done w" "pc \<notin> cw_active w" using Suc.prems(1,2) by auto
    obtain s ts where nx: "chain_next fl pc = Some (s, ts)" and ts: "\<forall>t \<in> set ts. \<exists>e < d. panics fl e t"
      using panics_next [OF Suc.prems(1)] by metis
    have low: "\<forall>a \<in> cw_active ?w1. \<forall>e. panics fl e a \<longrightarrow> d \<le> e"
      using Suc.prems(2) panics_unique [OF Suc.prems(1)] by (auto simp: less_imp_le)
    have seq: "set us \<subseteq> set ts \<Longrightarrow> cw_active v = cw_active ?w1 \<Longrightarrow> chain_ok fl v \<Longrightarrow>
        visit_seq (visit n fl) us v = (v', q) \<Longrightarrow> q \<noteq> Panic \<Longrightarrow> q = Ok ()" for us v v' q
    proof (induction us arbitrary: v)
      case (Cons u us)
      obtain e where e: "e < d" "panics fl e u" using ts Cons.prems(1) by auto
      obtain v1 q1 where v1: "visit n fl u v = (v1, q1)" by fastforce
      have "q1 \<noteq> Panic" using Cons.prems(4,5) v1 by (auto split: if_splits)
      moreover have "\<forall>a \<in> cw_active v. \<forall>e'. panics fl e' a \<longrightarrow> e < e'"
        using low e(1) Cons.prems(2) by (metis le_eq_less_or_eq less_trans)
      ultimately have "q1 = Ok ()" using Suc.IH [OF e(2) _ Cons.prems(3) v1] by blast
      then show ?case using visit_inv [OF v1 Cons.prems(3)] Cons.prems Cons.IH [of v1] v1 by (auto simp: grows_def)
    qed simp
    obtain w2 r2 where vs: "visit_seq (visit n fl) ts ?w1 = (w2, r2)" by fastforce
    have fin: "(w', r) = finish_visit pc (ends_step s (w2, r2))"
      using Suc.prems(4) fresh nx vs by (simp add: visit_fresh)
    then have "r2 \<noteq> Panic" using Suc.prems(5) by (auto simp: finish_visit_def ends_step_def)
    moreover have "chain_ok fl ?w1" using Suc.prems(3) by (simp add: chain_ok_def)
    ultimately have "r2 = Ok ()" using seq [OF subset_refl refl _ vs] by blast
    then show ?thesis using fin by (simp add: finish_visit_def ends_step_def)
  qed
qed simp

lemma chain_done_panics: "chain_ok fl w \<Longrightarrow> p \<in> cw_done w \<Longrightarrow> ends_in_panic fl p"
  using steps_ok_panics [of fl "[]" "cw_steps w"] by (auto simp: chain_ok_def)

lemma witness_turn_exact:
  assumes w: "chain_ok fl w" "cw_active w = {}"
  obtains w' reason where "grows fl w w'" "cw_active w' = {}" "ends_in_panic fl f \<Longrightarrow> f \<in> cw_done w'"
    "witness_turn fl (w, heads, skipped) f =
       Ok (w', if ends_in_panic fl f then heads @ [f] else heads, if ends_in_panic fl f then skipped else skipped @ [(f, reason)])"
proof -
  obtain w1 r where v: "visit (length fl + 1) fl f w = (w1, r)" by fastforce
  have np: "r \<noteq> Panic" using visit_bound [of fl w "length fl + 1" f] w v by simp
  note inv = visit_inv [OF v w(1)]
  have iff: "r = Ok () \<longleftrightarrow> ends_in_panic fl f"
  proof
    show "ends_in_panic fl f" if "r = Ok ()" using inv that chain_done_panics by (auto simp: grows_def)
    show "r = Ok ()" if "ends_in_panic fl f"
      using that visit_finds [OF _ _ w(1) v np] w(2) by (auto simp: ends_in_panic_def)
  qed
  show ?thesis
  proof (cases r)
    case (Ok u)
    then show ?thesis using that [of w1 "[]"] inv iff v w(2) by (simp add: witness_turn_def)
  next
    case (Err e)
    let ?w = "w1\<lparr>cw_done := cw_done w, cw_steps := take (length (cw_steps w)) (cw_steps w1), cw_active := {}\<rparr>"
    have "grows fl w ?w" using inv w(1) by (intro grows_refl) (auto simp: grows_def)
    then show ?thesis using that [of ?w e] iff v Err by (simp add: witness_turn_def)
  qed (use np in simp)
qed

lemma witness_turns_exact:
  "chain_ok fl w \<Longrightarrow> cw_active w = {} \<Longrightarrow>
   \<exists>w' sk. foldM (witness_turn fl) (w, heads, skipped) fs = Ok (w', heads @ filter (ends_in_panic fl) fs, skipped @ sk) \<and>
     map fst sk = filter (\<lambda>f. \<not> ends_in_panic fl f) fs \<and> grows fl w w' \<and> set (filter (ends_in_panic fl) fs) \<subseteq> cw_done w'"
proof (induction fs arbitrary: w heads skipped)
  case Nil
  then show ?case by (auto intro: grows_refl)
next
  case (Cons f fs)
  obtain w1 reason where t: "grows fl w w1" "cw_active w1 = {}" "ends_in_panic fl f \<Longrightarrow> f \<in> cw_done w1"
    "witness_turn fl (w, heads, skipped) f =
       Ok (w1, if ends_in_panic fl f then heads @ [f] else heads, if ends_in_panic fl f then skipped else skipped @ [(f, reason)])"
    using witness_turn_exact [OF Cons.prems] by metis
  have ok1: "chain_ok fl w1" using t(1) by (simp add: grows_def)
  obtain w' sk where IH: "foldM (witness_turn fl) (w1, if ends_in_panic fl f then heads @ [f] else heads,
        if ends_in_panic fl f then skipped else skipped @ [(f, reason)]) fs =
      Ok (w', (if ends_in_panic fl f then heads @ [f] else heads) @ filter (ends_in_panic fl) fs,
        (if ends_in_panic fl f then skipped else skipped @ [(f, reason)]) @ sk)"
    "map fst sk = filter (\<lambda>f. \<not> ends_in_panic fl f) fs" "grows fl w1 w'" "set (filter (ends_in_panic fl) fs) \<subseteq> cw_done w'"
    using Cons.IH [OF ok1 t(2)] by blast
  have "f \<in> cw_done w'" if "ends_in_panic fl f" using t(3) that grows_done [OF ok1 IH(3)] by blast
  then show ?case
    using t(4) IH grows_trans [OF t(1) IH(3)] by (cases "ends_in_panic fl f") (auto intro!: exI [of _ w'])
qed

inductive_cases returnsE: "returns fl pc"

lemma returns_cases:
  assumes "returns fl pc" "get_flow fl pc = Some f"
  shows "f = FExit \<or> (\<exists>t. f = FCall t \<and> returns fl t) \<or>
    (\<forall>t. f \<noteq> FCall t) \<and> (\<exists>s \<in> set (successors fl {} pc). returns fl s)"
  using assms(1) by (rule returnsE) (use assms(2) in \<open>auto simp: get_flow_def split: if_splits\<close>)

lemma panics_not_returns: "panics fl d pc \<Longrightarrow> \<not> returns fl pc"
proof (induction rule: panics.induct)
  case (p_call pc h)
  then have "successors fl {} pc = []"
    by (auto simp: get_flow_def successors_def is_terminal_def NORETURN_SYSCALLS_def split: if_splits)
  then show ?case using returns_cases [OF _ p_call] by auto
next
  case (p_seq pc d)
  then have "successors fl {} pc = [pc + 1]" by (auto simp: get_flow_def successors_def is_terminal_def split: if_splits)
  then show ?case using returns_cases [OF _ p_seq.hyps(1)] p_seq.IH by auto
next
  case (p_local pc t d)
  then show ?case using returns_cases [OF _ p_local.hyps(1)] by auto
next
  case (p_branch pc t d d')
  then have "successors fl {} pc = [t, pc + 1]" by (auto simp: get_flow_def successors_def is_terminal_def split: if_splits)
  then show ?case using returns_cases [OF _ p_branch.hyps(1)] p_branch.IH by auto
qed

text \<open>A small image whose entry calls either a function that aborts or one that panics.\<close>

definition panic_image :: program_image where
  "panic_image = (let is = [\<lparr>opc = 0x15, dst = 1, src = 0, off = 2, imm = 0\<rparr>, \<lparr>opc = CALL_IMM, dst = 0, src = 0, off = 0, imm = 6\<rparr>,
      \<lparr>opc = EXIT, dst = 0, src = 0, off = 0, imm = 0\<rparr>, \<lparr>opc = CALL_IMM, dst = 0, src = 0, off = 0, imm = 7\<rparr>,
      \<lparr>opc = EXIT, dst = 0, src = 0, off = 0, imm = 0\<rparr>, \<lparr>opc = MOV64_IMM, dst = 1, src = 0, off = 0, imm = 0\<rparr>,
      \<lparr>opc = CALL_IMM, dst = 0, src = 0, off = 0, imm = 9\<rparr>, \<lparr>opc = EXIT, dst = 0, src = 0, off = 0, imm = 0\<rparr>,
      \<lparr>opc = CALL_IMM, dst = 0, src = 0, off = 0, imm = 10\<rparr>, \<lparr>opc = EXIT, dst = 0, src = 0, off = 0, imm = 0\<rparr>] in
    \<lparr>im_insns = is, im_version = V0, im_pc_map = from_insns is,
     im_registry = (\<lambda>h. if h = 7 then Some 5 else if h = 6 then Some 8 else None), im_entry_slot = 0,
     im_hash = (\<lambda>n. if n = ''abort'' then 10 else if n = ''sol_panic_'' then 9 else 1)\<rparr>)"

definition panic_cfg :: cfg where
  "panic_cfg = \<lparr>flows = [Branch 3, FCall 8, FExit, FCall 5, FExit, Seq, FSyscall 9 (Some ''sol_panic_''), FExit,
       FSyscall 10 (Some ''abort''), FExit], entry = 0,
     funs = [(0, {0, 1, 3}), (5, {5, 6}), (8, {8})], noreturn = {0, 5, 8}\<rparr>"

lemma panic_build: "build panic_image = Ok (Some panic_cfg)"
  by code_simp

text \<open>C15: The panic-chain search is exact.  For every graph the builder makes, the search ends with a
  witness whose heads are the reachable no-return functions all of whose runs end in a \<open>sol_panic_\<close>
  call, in ascending order; every other reachable no-return function is skipped with a reason, none is
  dropped or listed twice; the steps pass the proof checker's ordered test; and no head returns.\<close>

theorem noreturn_witness_exact:
  assumes "build im = Ok (Some c)"
  shows "\<exists>S w. reachable_functions c = Ok S \<and> noreturn_witness c = Ok w \<and>
     nw_heads w = filter (ends_in_panic (flows c)) (sorted_list_of_set (noreturn c \<inter> S)) \<and>
     map fst (nw_skipped w) = filter (\<lambda>f. \<not> ends_in_panic (flows c) f) (sorted_list_of_set (noreturn c \<inter> S)) \<and>
     no_ret_check (flows c) w \<and> list_all (\<lambda>f. \<not> returns (flows c) f) (nw_heads w)"
proof -
  obtain S where S: "reachable_functions c = Ok S" using reachable_functions_total [OF assms] by blast
  let ?fl = "flows c" and ?fs = "filter (\<lambda>f. f \<in> S) (sorted_list_of_set (noreturn c))"
  obtain nr where "noreturn c \<subseteq> nr" "finite nr"
    using build_Ok [OF assms] noreturn_loop_fixpoint noreturn_step_bounded
    by (metis (no_types, lifting) List.finite_set cfg.select_convs(4) option.inject)
  then have fin: "finite (noreturn c)" by (rule finite_subset)
  have fs: "?fs = sorted_list_of_set (noreturn c \<inter> S)"
    by (rule sorted_distinct_set_unique) (use fin in \<open>auto simp: sorted_filter [of id, simplified]\<close>)
  let ?w0 = "\<lparr>cw_done = {}, cw_active = {}, cw_steps = []\<rparr>"
  obtain w sk where run: "foldM (witness_turn ?fl) (?w0, [], []) ?fs = Ok (w, [] @ filter (ends_in_panic ?fl) ?fs, [] @ sk)"
    "map fst sk = filter (\<lambda>f. \<not> ends_in_panic ?fl f) ?fs" "grows ?fl ?w0 w" "set (filter (ends_in_panic ?fl) ?fs) \<subseteq> cw_done w"
    using witness_turns_exact [of ?fl ?w0 "[]" "[]" ?fs] by (auto simp: chain_ok_def)
  have "list_all (\<lambda>f. \<not> returns ?fl f) (filter (ends_in_panic ?fl) ?fs)"
    using panics_not_returns by (auto simp: list_all_iff ends_in_panic_def)
  then show ?thesis
    using S run by (simp add: noreturn_witness_def fs no_ret_check_def grows_def chain_ok_def)
qed

text \<open>The entry's chain fails at the abort after three steps were recorded; they are dropped again.\<close>

theorem noreturn_witness_exact_witness:
  "\<exists>w. noreturn_witness panic_cfg = Ok w \<and> nw_heads w = [5] \<and> nw_steps w = [PanicCall 6, Straight 5 1] \<and>
     map fst (nw_skipped w) = [0, 8] \<and> no_ret_check (flows panic_cfg) w \<and> \<not> returns (flows panic_cfg) 5"
proof -
  have w: "map_res id (\<lambda>w. (nw_heads w, nw_steps w, map fst (nw_skipped w))) (noreturn_witness panic_cfg) =
      Ok ([5], [PanicCall 6, Straight 5 1], [0, 8])" by code_simp
  obtain w where "noreturn_witness panic_cfg = Ok w" "no_ret_check (flows panic_cfg) w"
    "list_all (\<lambda>f. \<not> returns (flows panic_cfg) f) (nw_heads w)"
    using noreturn_witness_exact [OF panic_build] by blast
  then show ?thesis using w by auto
qed

end
