(* ===== verification/Input_Layout.thy ===== *)
theory Input_Layout
  imports Serialize
begin

text \<open>
  The checked positions of \<open>qed-analysis/src/input_layout.rs\<close>, which proof generators use to name a
  byte of the input region, against the serializer that writes the region.
\<close>

record input_offsets =
  io_account_data :: "nat list"
  io_instruction_data :: nat

definition usize_add :: "nat \<Rightarrow> nat \<Rightarrow> nat option" where
  "usize_add a b = (if a + b < 2 ^ 64 then Some (a + b) else None)"

definition offset_step :: "nat \<times> nat list \<Rightarrow> nat \<Rightarrow> (string, nat \<times> nat list) res" where
  "offset_step s len = (case s of (cursor, account_data) \<Rightarrow>
     bind_res (ok_or ''account offset overflow'' (usize_add cursor 88)) (\<lambda>at.
     bind_res (ok_or ''account size overflow''
       (map_option (\<lambda>n. n div 8 * 8) (Option.bind (usize_add len 10240) (\<lambda>n. usize_add n 7)))) (\<lambda>padded.
     bind_res (ok_or ''input size overflow'' (Option.bind (usize_add cursor 96) (\<lambda>n. usize_add n padded))) (\<lambda>cursor.
     Ok (cursor, account_data @ [at])))))"

definition aligned_input_offsets :: "nat list \<Rightarrow> (string, input_offsets) res" where
  "aligned_input_offsets lengths =
     bind_res (foldM offset_step (8, []) lengths) (\<lambda>(cursor, account_data).
     bind_res (ok_or ''instruction offset overflow'' (usize_add cursor 8)) (\<lambda>ix.
     Ok \<lparr>io_account_data = account_data, io_instruction_data = ix\<rparr>))"

subsection \<open>Positions in closed form\<close>

definition slot_len :: "nat \<Rightarrow> nat" where
  "slot_len len = 96 + (10247 + len) div 8 * 8"

definition slot_start :: "nat list \<Rightarrow> nat \<Rightarrow> nat" where
  "slot_start lens i = 8 + sum_list (map slot_len (take i lens))"

lemma slot_start_Suc: "i < length lens \<Longrightarrow> slot_start lens (Suc i) = slot_start lens i + slot_len (lens ! i)"
  by (simp add: slot_start_def take_Suc_conv_app_nth)

lemma slot_start_mono: "i \<le> j \<Longrightarrow> slot_start lens i \<le> slot_start lens j"
proof -
  assume "i \<le> j"
  then have "take j lens = take i lens @ take (j - i) (drop i lens)" by (metis le_add_diff_inverse take_add)
  then show ?thesis by (simp add: slot_start_def)
qed

lemma offset_steps:
  assumes "slot_start lens (length lens) < 2 ^ 64"
  shows "n \<le> length lens \<Longrightarrow>
    foldM offset_step (8, []) (take n lens) = Ok (slot_start lens n, map (\<lambda>i. slot_start lens i + 88) [0..<n])"
proof (induction n)
  case 0
  then show ?case by (simp add: slot_start_def)
next
  case (Suc n)
  let ?c = "slot_start lens n" and ?l = "lens ! n"
  have next_start: "slot_start lens (Suc n) = ?c + slot_len ?l" using slot_start_Suc Suc.prems by simp
  have "slot_start lens (Suc n) < 2 ^ 64"
    using slot_start_mono [OF Suc.prems, of lens] assms by linarith
  then have "?c + 96 + (10247 + ?l) div 8 * 8 < 2 ^ 64" by (simp add: next_start slot_len_def)
  moreover have "10247 + ?l < (10247 + ?l) div 8 * 8 + 8" by linarith
  ultimately have "offset_step (?c, xs) ?l = Ok (slot_start lens (Suc n), xs @ [?c + 88])" for xs
    by (simp add: offset_step_def usize_add_def next_start slot_len_def)
  then show ?case using Suc by (simp add: take_Suc_conv_app_nth foldM_append)
qed

lemma aligned_input_offsets_eq:
  assumes "slot_start lens (length lens) + 8 < 2 ^ 64"
  shows "aligned_input_offsets lens =
     Ok \<lparr>io_account_data = map (\<lambda>i. slot_start lens i + 88) [0..<length lens],
         io_instruction_data = slot_start lens (length lens) + 8\<rparr>"
  using offset_steps [of lens "length lens"] assms
  by (simp add: aligned_input_offsets_def usize_add_def)

subsection \<open>The serializer's positions\<close>

definition meta_lens :: "accounts \<Rightarrow> account_meta list \<Rightarrow> nat list" where
  "meta_lens accs ms = map (\<lambda>m. length (data (the (find_account (meta_key m) accs)))) ms"

lemma length_meta_lens [simp]: "length (meta_lens accs ms) = length ms"
  by (simp add: meta_lens_def)

lemma distinct_no_dups:
  assumes "distinct (map meta_key ms)" "i < length ms"
  shows "dup_map ms ! i = None"
proof (rule ccontr)
  assume "dup_map ms ! i \<noteq> None"
  then obtain j where j: "dup_map ms ! i = Some j" by auto
  then have "j < i" "meta_key (ms ! j) = meta_key (ms ! i)" using dm.dup_before dm.dup_same assms(2) by auto
  then show False using assms nth_eq_iff_index_eq [OF assms(1), of j i] by simp
qed

lemma padded_slot: "length (write_record ms m a) = slot_len (length (data a))"
proof -
  let ?n = "length (data a)"
  have "8 dvd ?n + align_offset_to_bpf_u128 ?n" by (rule ser_pad.pad_dvd)
  then obtain k where k: "?n + align_offset_to_bpf_u128 ?n = 8 * k" by (auto simp: dvd_def)
  have "align_offset_to_bpf_u128 ?n < 8" by (rule ser_pad.pad_less)
  then have "(10247 + ?n) div 8 = 1280 + k" using k by (intro div_nat_eqI) simp_all
  then show ?thesis using k by (simp add: length_write_record slot_len_def MAX_PERMITTED_DATA_INCREASE_def)
qed

lemma slots_at:
  assumes "distinct (map meta_key ms)"
  shows "i \<le> length ms \<Longrightarrow> 8 + length (slots accs ms i) = slot_start (meta_lens accs ms) i"
proof (induction i)
  case 0
  then show ?case by (simp add: slot_start_def)
next
  case (Suc i)
  then show ?case
    using distinct_no_dups [OF assms, of i]
    by (simp add: slot_start_Suc slot_bytes_def padded_slot) (simp add: meta_lens_def)
qed

lemma record_data: "take (length (data a)) (drop 88 (write_record ms m a @ ys)) = data a"
  by (simp add: write_record_def Let_def)

lemma input_image_data:
  fixes accs :: accounts
  assumes "distinct (map meta_key (ix_accounts ix))" "i < length (ix_accounts ix)"
  defines "a \<equiv> the (find_account (meta_key (ix_accounts ix ! i)) accs)"
  shows "take (length (data a)) (drop (slot_start (meta_lens accs (ix_accounts ix)) i + 88) (input_image accs ix pid)) = data a"
proof -
  let ?ms = "ix_accounts ix"
  have "dm.origin ?ms i = i" using distinct_no_dups [OF assms(1,2)] by (simp add: dm.origin_def)
  then obtain ys where "drop (record_offset accs ?ms i) (input_image accs ix pid) = write_record ?ms (?ms ! i) a @ ys"
    using input_image_at_record [OF assms(2), of accs pid] slot_origin [OF assms(2), of accs] by (metis a_def)
  moreover have "record_offset accs ?ms i = slot_start (meta_lens accs ?ms) i"
    using slots_at [OF assms(1), of i accs] assms(2) \<open>dm.origin ?ms i = i\<close> by (simp add: record_offset_def)
  ultimately show ?thesis using record_data [of a ?ms "?ms ! i" ys] by (metis add.commute drop_drop)
qed

lemma input_image_trailer:
  fixes accs :: accounts
  assumes "distinct (map meta_key (ix_accounts ix))"
  defines "n \<equiv> slot_start (meta_lens accs (ix_accounts ix)) (length (ix_accounts ix))"
  shows "take (length (ix_data ix)) (drop (n + 8) (input_image accs ix pid)) = ix_data ix"
    and "length (input_body accs ix pid) = n + 40 + length (ix_data ix)"
proof -
  let ?ms = "ix_accounts ix"
  let ?pre = "le64 (word_of_nat (length ?ms)) @ slots accs ?ms (length ?ms) @ le64 (word_of_nat (length (ix_data ix)))"
  have n: "length ?pre = n + 8" "n = 8 + length (slots accs ?ms (length ?ms))"
    using slots_at [OF assms(1) order_refl, of accs] by (simp_all add: n_def)
  have b: "input_body accs ix pid = ?pre @ ix_data ix @ key_bytes pid" by (simp add: input_body_def)
  show "take (length (ix_data ix)) (drop (n + 8) (input_image accs ix pid)) = ix_data ix"
    unfolding input_image_def b n(1) [symmetric] by simp
  show "length (input_body accs ix pid) = n + 40 + length (ix_data ix)" unfolding b using n(2) by simp
qed

subsection \<open>Properties\<close>

text \<open>C12: The offsets the proof generators compute are the serializer's.  For an instruction whose
  references are all to different accounts, the checked arithmetic does not overflow on the lengths of
  the accounts' data, and in the buffer the serializer writes the data of the \<open>i\<close>-th account starts at
  the \<open>i\<close>-th offset and the instruction data at the instruction offset.\<close>

theorem input_offsets_match_serializer:
  assumes "serialize_parameters ix accs pid = Ok b" "is_slice b" "distinct (map meta_key (ix_accounts ix))"
  shows "\<exists>offs. aligned_input_offsets (meta_lens accs (ix_accounts ix)) = Ok offs \<and>
     length (io_account_data offs) = length (ix_accounts ix) \<and>
     (\<forall>i < length (ix_accounts ix). \<exists>a. find_account (meta_key (ix_accounts ix ! i)) accs = Some a \<and>
        take (length (data a)) (drop (io_account_data offs ! i) b) = data a) \<and>
     take (length (ix_data ix)) (drop (io_instruction_data offs) b) = ix_data ix"
proof -
  let ?ms = "ix_accounts ix" and ?lens = "meta_lens accs (ix_accounts ix)"
  have b: "b = input_image accs ix pid" and found: "\<forall>i < length ?ms. find_account (meta_key (?ms ! i)) accs \<noteq> None"
    using assms(1) by (auto simp: serialize_parameters_eq list_all_length split: if_splits)
  have "slot_start ?lens (length ?lens) + 8 < 2 ^ 64"
    using assms(2) input_image_trailer(2) [OF assms(3), of accs pid] by (simp add: is_slice_def b input_image_def)
  note offs = aligned_input_offsets_eq [OF this]
  have "\<exists>a. find_account (meta_key (?ms ! i)) accs = Some a \<and>
      take (length (data a)) (drop (slot_start ?lens i + 88) b) = data a" if "i < length ?ms" for i
    using found input_image_data [OF assms(3) that, of accs pid] that by (force simp: b)
  then show ?thesis unfolding offs using input_image_trailer(1) [OF assms(3), of accs pid] by (simp add: b)
qed

definition two_account_ix :: instruction where
  "two_account_ix = sample_ix\<lparr>ix_accounts := take 2 (ix_accounts sample_ix)\<rparr>"

theorem input_offsets_match_serializer_witness:
  "\<exists>b offs. serialize_parameters two_account_ix sample_accounts 9 = Ok b \<and> aligned_input_offsets [2, 0] = Ok offs \<and>
     io_account_data offs = [96, 10440] \<and> take 2 (drop 96 b) = [1, 2] \<and> take 2 (drop (io_instruction_data offs) b) = [7, 7]"
proof -
  let ?b = "input_image sample_accounts two_account_ix 9"
  have ser: "serialize_parameters two_account_ix sample_accounts 9 = Ok ?b"
    by (simp add: serialize_parameters_eq two_account_ix_def sample_ix_def sample_accounts_def find_account_def)
  have d: "distinct (map meta_key (ix_accounts two_account_ix))" by (simp add: two_account_ix_def sample_ix_def)
  have lens: "meta_lens sample_accounts (ix_accounts two_account_ix) = [2, 0]"
    by (simp add: meta_lens_def two_account_ix_def sample_ix_def sample_accounts_def find_account_def account_of_def)
  have small: "align_offset_to_bpf_u128 n < 8" for n by (rule ser_pad.pad_less)
  have "length (input_body sample_accounts two_account_ix 9) < 40000"
    using input_image_trailer(2) [OF d, of sample_accounts 9, unfolded lens]
    by (simp add: slot_start_def slot_len_def two_account_ix_def sample_ix_def)
  then have "is_slice ?b"
    using small [of "length (input_body sample_accounts two_account_ix 9)"]
    by (simp add: is_slice_def input_image_def length_pointer_array) (simp add: two_account_ix_def sample_ix_def)
  note w = input_offsets_match_serializer [OF ser this d, unfolded lens]
  have offs: "aligned_input_offsets [2, 0] = Ok \<lparr>io_account_data = [96, 10440], io_instruction_data = 20696\<rparr>"
    by (simp add: aligned_input_offsets_def offset_step_def usize_add_def)
  have ix: "length (ix_accounts two_account_ix) = 2" "length (ix_data two_account_ix) = 2" "ix_data two_account_ix = [7, 7]"
    by (simp_all add: two_account_ix_def sample_ix_def)
  have f: "find_account (meta_key (ix_accounts two_account_ix ! 0)) sample_accounts = Some (account_of 50 [1, 2] 9 False 0)"
    by (simp add: two_account_ix_def sample_ix_def sample_accounts_def find_account_def)
  from w obtain offs where o: "aligned_input_offsets [2, 0] = Ok offs"
    "\<exists>a. find_account (meta_key (ix_accounts two_account_ix ! 0)) sample_accounts = Some a \<and>
      take (length (data a)) (drop (io_account_data offs ! 0) ?b) = data a"
    "take (length (ix_data two_account_ix)) (drop (io_instruction_data offs) ?b) = ix_data two_account_ix"
    unfolding ix by (metis zero_less_numeral)
  have "take 2 (drop 96 ?b) = [1, 2]" using o(1,2) unfolding f offs by (auto simp: account_of_def numeral_2_eq_2)
  moreover have "take 2 (drop 20696 ?b) = [7, 7]" using o(1,3) unfolding ix offs by (auto simp: numeral_2_eq_2)
  ultimately show ?thesis using ser offs by simp
qed

end
