(* ===== verification/Atoms.thy ===== *)
theory Atoms
  imports Branch_Witness Sym_State
begin

text \<open>
  The assertions of a lifted theorem (\<open>qedlift/src/emit.rs\<close>): how atoms print as a separating
  conjunction, with address expressions folded to their abstraction parameters; the heap form of the
  same atoms; the postcondition read off the final symbolic state; and the region requirements, grouped
  as the proof composes them.  A \<open>BTreeMap\<close> of abstractions is the list of its entries in key order.
\<close>

subsection \<open>Printing atoms\<close>

abbreviation maps_to :: string where "maps_to \<equiv> [CHR 0xE2, CHR 0x86, CHR 0xA6]"
abbreviation newline :: string where "newline \<equiv> [CHR 0x0A]"
abbreviation atom_sep :: string where "atom_sep \<equiv> '' **'' @ newline @ ''      ''"
abbreviation clause_and :: string where
  "clause_and \<equiv> '') '' @ [CHR 0xE2, CHR 0x88, CHR 0xA7] @ newline @ ''                  ''"

type_synonym folds = "(string \<times> string) list"

definition lean_arrow :: "width \<Rightarrow> string" where
  "lean_arrow w = maps_to @ (case w of Byte \<Rightarrow> [CHR 0xE2, CHR 0x82, CHR 0x98] | Half \<Rightarrow> ''U16'' | Word_w \<Rightarrow> ''U32'' | Dword \<Rightarrow> ''U64'')"

definition fold_abstractions :: "string \<Rightarrow> folds \<Rightarrow> string" where
  "fold_abstractions s subst =
     foldl (\<lambda>out k. case map_of subst k of Some p \<Rightarrow> replace_token out k p | None \<Rightarrow> out) s
       (sort_key (\<lambda>k. - int (length k)) (map fst subst))"

definition base_to_lean :: "folds \<Rightarrow> expr \<Rightarrow> string" where
  "base_to_lean subst b = (case map_of subst (to_lean b) of Some p \<Rightarrow> p | None \<Rightarrow> atom_lean b)"

definition atom_to_lean_with_subst :: "atom \<Rightarrow> folds \<Rightarrow> string" where
  "atom_to_lean_with_subst a subst =
     (let sub = (\<lambda>e. fold_abstractions (to_lean e) subst) in
      case a of
        Atom_Reg r v \<Rightarrow> ''(.'' @ reg_lit r @ '' '' @ maps_to @ [CHR 0xE1, CHR 0xB5, CHR 0xA3] @ '' '' @ sub v @ '')''
      | Atom_Mem b d w v k \<Rightarrow>
          if k \<noteq> 0 then ''(effectiveAddr '' @ base_to_lean subst b @ '' '' @
              (if d < 0 then ''('' @ show_int d @ '')'' else show_int d) @ '' + '' @ show_int k @ '' '' @ lean_arrow w @ '' '' @ sub v @ '')''
          else ''(effectiveAddr '' @ base_to_lean subst b @ '' '' @ lean_off d @ '' '' @ lean_arrow w @ '' '' @ sub v @ '')''
      | Atom_Bytes e v \<Rightarrow> ''('' @ sub e @ '' '' @ maps_to @ ''Bytes '' @ bytes_to_lean v @ '')''
      | Atom_Bytes32 e n \<Rightarrow> ''('' @ sub e @ '' '' @ maps_to @ ''Bytes32 '' @ n @ '')''
      | Atom_ReturnData v \<Rightarrow> ''('' @ maps_to @ ''ReturnData '' @ bytes_to_lean v @ '')'')"

definition atoms_to_lean :: "atom list \<Rightarrow> folds \<Rightarrow> string" where
  "atoms_to_lean as subst = (if as = [] then ''emp'' else join atom_sep (map (\<lambda>a. atom_to_lean_with_subst a subst) as))"

subsection \<open>The heap form\<close>

definition HEAP_START_I :: int where "HEAP_START_I = 0x300000000"
definition HEAP_END_I :: int where "HEAP_END_I = 0x300000000 + 0x8000"

definition checked_i64_add :: "int \<Rightarrow> int \<Rightarrow> int option" where
  "checked_i64_add a b = (if - (2 ^ 63) \<le> a + b \<and> a + b < 2 ^ 63 then Some (a + b) else None)"

definition heap_cell_addr :: "expr \<Rightarrow> int \<Rightarrow> int option" where
  "heap_cell_addr b d =
     Option.bind (case b of Const k \<Rightarrow> Some k | ToU64 (Const k) \<Rightarrow> Some k | _ \<Rightarrow> None) (\<lambda>k.
     Option.bind (checked_i64_add k d) (\<lambda>a.
     if HEAP_START_I \<le> a \<and> a < HEAP_END_I then Some a else None))"

definition atom_to_lean_heap :: "atom \<Rightarrow> folds \<Rightarrow> string" where
  "atom_to_lean_heap a subst = (case a of
      Atom_Mem b d w v k \<Rightarrow>
        (case (if w = Dword then heap_cell_addr b d else None) of
           Some p \<Rightarrow> (let x = fold_abstractions (to_lean v) subst in
              if p = HEAP_START_I then ''(heapBumpPtr ('' @ x @ ''))''
              else ''(heapBlockU64 ('' @ atom_lean b @ '') ('' @ x @ ''))'')
         | None \<Rightarrow> atom_to_lean_with_subst a subst)
    | _ \<Rightarrow> atom_to_lean_with_subst a subst)"

definition atoms_to_lean_heap :: "atom list \<Rightarrow> folds \<Rightarrow> string" where
  "atoms_to_lean_heap as subst = join atom_sep (map (\<lambda>a. atom_to_lean_heap a subst) as)"

subsection \<open>The postcondition\<close>

definition post_atom :: "sym_state \<Rightarrow> atom \<Rightarrow> atom" where
  "post_atom s a = (case a of
      Atom_Reg r _ \<Rightarrow> Atom_Reg r (case map_of (regs s) r of Some v \<Rightarrow> v | None \<Rightarrow> InitReg (reg_initial_name r))
    | Atom_Mem b d w _ k \<Rightarrow>
        Atom_Mem b d w (case find (\<lambda>c. cell_key c = (to_lean b, d, k, w)) (mem s) of
          Some c \<Rightarrow> mc_value c | None \<Rightarrow> InitMem ''?'') k
    | Atom_Bytes e v \<Rightarrow> Atom_Bytes e (case map_of (byte_blob_post s) (to_lean e) of Some p \<Rightarrow> p | None \<Rightarrow> v)
    | Atom_Bytes32 e n \<Rightarrow> Atom_Bytes32 e (case map_of (bytes32_post s) (to_lean e) of Some p \<Rightarrow> p | None \<Rightarrow> n)
    | Atom_ReturnData v \<Rightarrow> Atom_ReturnData (case returndata_post s of Some p \<Rightarrow> p | None \<Rightarrow> v))"

definition post_atoms :: "atom list \<Rightarrow> sym_state \<Rightarrow> atom list" where
  "post_atoms initial_pre s = map (post_atom s) initial_pre"

subsection \<open>Region requirements\<close>

text \<open>The group of each clause: a fresh one at every index that does not continue the clause before.\<close>

fun group_ids_from :: "nat set \<Rightarrow> nat \<Rightarrow> nat \<Rightarrow> nat \<Rightarrow> nat list" where
  "group_ids_from conts i gid 0 = []"
| "group_ids_from conts i gid (Suc n) =
     (let gid = (if i \<noteq> 0 \<and> i \<notin> conts then gid + 1 else gid) in gid # group_ids_from conts (i + 1) gid n)"

definition width_bytes :: "width \<Rightarrow> nat" where
  "width_bytes w = (case w of Byte \<Rightarrow> 1 | Half \<Rightarrow> 2 | Word_w \<Rightarrow> 4 | Dword \<Rightarrow> 8)"

definition clause_to_lean :: "folds \<Rightarrow> region_clause \<Rightarrow> string" where
  "clause_to_lean subst c = (case c of
      Callx_clause e t \<Rightarrow> ''resolveCallx rt ('' @ fold_abstractions (to_lean e) subst @ '') = some '' @ digits t
    | Sysvars_clause env \<Rightarrow> ''rt.sysvars = '' @ env
    | Access b d w writable raw \<Rightarrow>
        (let kind = (if writable then ''containsWritable'' else ''containsRange'') in
         case raw of
           Some (e, n) \<Rightarrow> ''rt.'' @ kind @ '' ('' @ fold_abstractions (to_lean e) subst @ '') ('' @ to_lean n @ '') = true''
         | None \<Rightarrow> ''rt.'' @ kind @ '' (effectiveAddr '' @ base_to_lean subst b @ '' '' @ lean_off d @ '') '' @
             digits (width_bytes w) @ '' = true''))"

definition conj_text :: "string \<Rightarrow> string \<Rightarrow> string" where
  "conj_text cur c = ''('' @ cur @ clause_and @ c"

text \<open>The groups in order, each folded to the left, from the clause and the group it is in.\<close>

fun close_groups :: "string \<Rightarrow> nat \<Rightarrow> (string \<times> nat) list \<Rightarrow> string list" where
  "close_groups cur g [] = [cur]"
| "close_groups cur g ((c, h) # rest) =
     (if h = g then close_groups (conj_text cur c) h rest else cur # close_groups c h rest)"

definition region_req :: "sym_state \<Rightarrow> folds \<Rightarrow> string" where
  "region_req s subst =
     (let clauses = map (clause_to_lean subst) (rr_walk s);
          ids = group_ids_from (rr_continuations s) 0 0 (length (rr_walk s)) in
      case zip clauses ids of
        [] \<Rightarrow> ''True''
      | (c, g) # rest \<Rightarrow> (let groups = close_groups c g rest in foldl conj_text (hd groups) (tl groups)))"

end
