(* ===== verification/Sat_Witness.thy ===== *)
theory Sat_Witness
  imports Atoms Walk_Safety
begin

text \<open>
  The satisfiability witness of a lifted precondition (\<open>build_sat_witness\<close> of \<open>qedlift/src/emit.rs\<close>): an
  assignment that puts the address roots far apart, the footprint of every atom under it, the check that
  no two footprints meet, and the text of the checked example.  Error messages are their diagnostic kind.
  The sums \<open>s + n\<close> of the overlap test are the checked \<open>u64\<close> additions of a debug build, which panic;
  the counter of bases, which 36 bits of allocations would take to overflow, wraps.
\<close>

subsection \<open>Blob sizes\<close>

definition is_space :: "char \<Rightarrow> bool" where
  "is_space c = (let b = of_char c :: nat in b = 32 \<or> (9 \<le> b \<and> b \<le> 13))"

definition trim :: "string \<Rightarrow> string" where
  "trim s = rev (dropWhile is_space (rev (dropWhile is_space s)))"

definition strip_prefix :: "string \<Rightarrow> string \<Rightarrow> string option" where
  "strip_prefix p s = (if take (length p) s = p then Some (drop (length p) s) else None)"

definition strip_suffix :: "string \<Rightarrow> string \<Rightarrow> string option" where
  "strip_suffix p s = map_option rev (strip_prefix (rev p) (rev s))"

text \<open>\<open>str::parse::<u64>\<close>: an optional plus sign, then digits, and the value in range.\<close>

definition parse_u64 :: "string \<Rightarrow> nat option" where
  "parse_u64 s =
     (let ds = (case s of c # t \<Rightarrow> if c = CHR ''+'' then t else s | [] \<Rightarrow> []);
          n = foldl (\<lambda>a c. 10 * a + (of_char c - 48)) 0 ds in
      if ds \<noteq> [] \<and> list_all digit_char ds \<and> n < 2 ^ 64 then Some n else None)"

definition const_blob_size :: "string \<Rightarrow> nat option" where
  "const_blob_size s =
     (let t = trim s in
      case parse_u64 t of
        Some n \<Rightarrow> Some n
      | None \<Rightarrow>
          Option.bind (strip_prefix ''('' t) (\<lambda>x.
          Option.bind (strip_suffix '')'' x) (\<lambda>x.
          Option.bind (strip_prefix ''toU64'' (trim x)) (\<lambda>x.
          let after = trim x in
          case parse_u64 after of
            Some n \<Rightarrow> Some n
          | None \<Rightarrow> Option.bind (strip_suffix ''% 2 ^ (8 * 8)'' after) (\<lambda>x. parse_u64 (trim x))))))"

subsection \<open>The assignment\<close>

definition param_exprs :: "folds \<Rightarrow> atom list \<Rightarrow> (string \<times> expr) list" where
  "param_exprs abs_subst as =
     foldl (\<lambda>m a. case a of
         Atom_Mem b d w v k \<Rightarrow> (case map_of abs_subst (to_lean b) of Some p \<Rightarrow> or_insert p b m | None \<Rightarrow> m)
       | _ \<Rightarrow> m) [] as"

definition addr_exprs :: "atom list \<Rightarrow> expr list" where
  "addr_exprs as = concat (map (\<lambda>a. case a of
      Atom_Mem b _ _ _ _ \<Rightarrow> [b] | Atom_Bytes e _ \<Rightarrow> [e] | Atom_Bytes32 e _ \<Rightarrow> [e] | _ \<Rightarrow> []) as)"

definition first_base :: u64 where "first_base = 0x400000000"
definition base_step :: u64 where "base_step = 0x10000000"

text \<open>Variable roots get the next base directly.\<close>

definition root_var :: "expr \<Rightarrow> string option" where
  "root_var e = (case fst (canon_root_expr e 0) of Some (InitReg n) \<Rightarrow> Some n | Some (InitMem n) \<Rightarrow> Some n | _ \<Rightarrow> None)"

definition place_var :: "env \<times> u64 \<Rightarrow> expr \<Rightarrow> env \<times> u64" where
  "place_var s e = (case s of (env, nb) \<Rightarrow> (case root_var e of
      Some n \<Rightarrow> if map_of env n = None then (bt_insert n nb env, nb + base_step) else s
    | None \<Rightarrow> s))"

text \<open>A derived root is steered to the next base through its free variable, once per rendering.\<close>

definition place_derived :: "env \<times> u64 \<times> string set \<Rightarrow> expr \<Rightarrow> (diagnostic_kind, env \<times> u64 \<times> string set) res" where
  "place_derived s e = (case s of (env, nb, solved) \<Rightarrow>
     (case fst (canon_root_expr e 0) of
        None \<Rightarrow> Ok s
      | Some root \<Rightarrow>
          if root_var e \<noteq> None \<or> to_lean root \<in> solved then Ok s
          else if eval_expr root env \<noteq> None then Ok (env, nb, insert (to_lean root) solved)
          else (case solve_expr root nb env of (ok, env') \<Rightarrow>
            if ok then Ok (env', nb + base_step, insert (to_lean root) solved) else Err WitnessFailed)))"

definition sat_env :: "atom list \<Rightarrow> string list \<Rightarrow> (diagnostic_kind, env) res" where
  "sat_env as vars =
     (let es = addr_exprs as; (env, nb) = foldl place_var ([], first_base) es in
      bind_res (foldM place_derived (env, nb, {}) es) (\<lambda>(env, _, _). Ok (zero_fill vars env)))"

type_synonym abstraction = "string \<times> string \<times> string"

definition param_val :: "(string \<times> expr) list \<Rightarrow> env \<Rightarrow> env \<Rightarrow> abstraction \<Rightarrow> (diagnostic_kind, env) res" where
  "param_val param_expr env m a =
     bind_res (ok_or WitnessFailed (map_of param_expr (fst a))) (\<lambda>e.
     bind_res (ok_or WitnessFailed (eval_expr e env)) (\<lambda>v. Ok (bt_insert (fst a) v m)))"

subsection \<open>Footprints\<close>

text \<open>\<open>base + off\<close> clamped at zero, then \<open>+ delta as u128\<close>, then \<open>as u64\<close>.\<close>

definition eff :: "u64 \<Rightarrow> int \<Rightarrow> int \<Rightarrow> (diagnostic_kind, u64) res" where
  "eff base d k =
     (let a = uint base + d; a = (if a < 0 then 0 else a); t = a + k mod 2 ^ 128 in
      if t < 2 ^ 128 then Ok (word_of_int t) else Panic)"

record foot =
  ft_mem :: "(u64 \<times> u64) option"
  ft_reg :: "nat option"
  ft_cs :: bool

type_synonym sat_atom = "string \<times> foot \<times> (string \<times> string) list"

definition mem_foot :: "u64 \<Rightarrow> nat \<Rightarrow> foot" where
  "mem_foot a n = \<lparr>ft_mem = Some (a, word_of_nat n), ft_reg = None, ft_cs = False\<rparr>"

definition cell_ctor :: "width \<Rightarrow> string" where
  "cell_ctor w = (case w of Byte \<Rightarrow> ''.byte'' | Half \<Rightarrow> ''.u16'' | Word_w \<Rightarrow> ''.u32'' | Dword \<Rightarrow> ''.u64'')"

definition zero_bytes :: "nat \<Rightarrow> string" where
  "zero_bytes n = ''(replicateByte 0 '' @ digits n @ '')''"

definition eval_or_fail :: "expr \<Rightarrow> env \<Rightarrow> (diagnostic_kind, u64) res" where
  "eval_or_fail e env = ok_or WitnessFailed (eval_expr e env)"

definition sat_atom :: "sym_state \<Rightarrow> env \<Rightarrow> atom \<Rightarrow> (diagnostic_kind, sat_atom) res" where
  "sat_atom s env a = (case a of
      Atom_Reg r v \<Rightarrow> bind_res (eval_or_fail v env) (\<lambda>x.
        Ok (''.reg .'' @ reg_lit r @ '' '' @ digits (unat x), \<lparr>ft_mem = None, ft_reg = Some r, ft_cs = False\<rparr>, []))
    | Atom_Mem b d w v k \<Rightarrow>
        bind_res (eval_or_fail b env) (\<lambda>base.
        bind_res (eff base d k) (\<lambda>p.
        bind_res (eval_or_fail v env) (\<lambda>x.
        Ok (cell_ctor w @ '' '' @ digits (unat p) @ '' '' @ digits (unat x), mem_foot p (width_bytes w), []))))
    | Atom_Bytes e v \<Rightarrow>
        bind_res (eval_or_fail e env) (\<lambda>p. (case v of
           Replicate f n \<Rightarrow> Err WitnessFailed
         | Sym name \<Rightarrow>
             bind_res (ok_or WitnessFailed (map_option snd (find (\<lambda>(n, _). n = name) (memset_blobs s)))) (\<lambda>size_s.
             bind_res (ok_or WitnessFailed (const_blob_size size_s)) (\<lambda>sz.
             Ok (''.bytes '' @ digits (unat p) @ '' '' @ zero_bytes sz, mem_foot p sz, [(name, zero_bytes sz)])))))
    | Atom_Bytes32 e name \<Rightarrow>
        bind_res (eval_or_fail e env) (\<lambda>p.
        if name \<in> set (bytearray_vars s)
        then Ok (''.bytes32 '' @ digits (unat p) @ '' (replicateByte 0 32)'', mem_foot p 32, [(name, ''(replicateByte 0 32)'')])
        else Ok (''.bytes32 '' @ digits (unat p) @ '' '' @ name, mem_foot p 32, []))
    | Atom_ReturnData v \<Rightarrow> (case v of
         Replicate f n \<Rightarrow> Err WitnessFailed
       | Sym name \<Rightarrow> Ok (''.retData ByteArray.empty'', \<lparr>ft_mem = None, ft_reg = None, ft_cs = False\<rparr>, [(name, ''ByteArray.empty'')])))"

definition sat_atoms :: "sym_state \<Rightarrow> env \<Rightarrow> atom list \<Rightarrow> (diagnostic_kind, sat_atom list) res" where
  "sat_atoms s env as =
     bind_res (foldM (\<lambda>acc a. bind_res (sat_atom s env a) (\<lambda>x. Ok (acc @ [x]))) [] as) (\<lambda>xs.
     Ok (xs @ (if saw_call s then [(''.callStack []'', \<lparr>ft_mem = None, ft_reg = None, ft_cs = True\<rparr>, [])] else [])))"

definition mem_clash :: "foot \<Rightarrow> foot \<Rightarrow> (diagnostic_kind, bool) res" where
  "mem_clash x y = (case (ft_mem x, ft_mem y) of
      (Some (s1, n1), Some (s2, n2)) \<Rightarrow>
        if n1 > 0 \<and> n2 > 0 then
          bind_res (case checked_add s1 n1 of Some e \<Rightarrow> Ok e | None \<Rightarrow> Panic) (\<lambda>e1.
          if e1 > s2 then bind_res (case checked_add s2 n2 of Some e \<Rightarrow> Ok e | None \<Rightarrow> Panic) (\<lambda>e2. Ok (e2 > s1))
          else Ok False)
        else Ok False
    | _ \<Rightarrow> Ok False)"

definition check_pair :: "foot \<Rightarrow> unit \<Rightarrow> foot \<Rightarrow> (diagnostic_kind, unit) res" where
  "check_pair x u y =
     bind_res (mem_clash x y) (\<lambda>clash.
     if clash \<or> (ft_reg x \<noteq> None \<and> ft_reg x = ft_reg y) \<or> (ft_cs x \<and> ft_cs y) then Err WitnessFailed else Ok ())"

fun check_feet :: "foot list \<Rightarrow> (diagnostic_kind, unit) res" where
  "check_feet [] = Ok ()"
| "check_feet (x # ys) = bind_res (foldM (check_pair x) () ys) (\<lambda>_. check_feet ys)"

subsection \<open>The text\<close>

definition sat_header :: string where
  "sat_header = ''/-! ## Satisfiability witness (soundness-audit H8)'' @ newline @ newline
      @ ''The triple'' @ [CHR 0x27] @ ''s precondition is SATISFIABLE at the concrete'' @ newline
      @ ''assignment below '' @ em_dash @ '' an overlapping (vacuous) sepConj would fail'' @ newline
      @ bq @ ''native_decide'' @ bq @ '' here, so vacuity cannot ship. The guards pin'' @ newline
      @ ''each '' @ bq @ ''addrK'' @ bq @ '' literal to its '' @ bq @ ''h_addrK'' @ bq @ '' defining equation at the'' @ newline
      @ ''assignment; the witness goal is the theorem'' @ [CHR 0x27] @ ''s precondition with'' @ newline
      @ ''the variables instantiated, so the reflected '' @ bq @ ''SatWitness'' @ bq @ '' atoms'' @ newline
      @ ''are tied to the real pre by the elaborator'' @ [CHR 0x27] @ ''s defeq check.'' @ newline
      @ ''Value-level path hypotheses ('' @ bq @ ''h_branch*'' @ bq @ '') are not certified'' @ newline
      @ ''consistent '' @ em_dash @ '' they are outside the overlap-vacuity class this'' @ newline
      @ ''guards against. -/'' @ newline @ newline"

definition apply_tokens :: "(string \<times> string) list \<Rightarrow> string \<Rightarrow> string" where
  "apply_tokens tokens s = foldl (\<lambda>out (k, v). replace_token out k v) s tokens"

fun sat_guards :: "env \<Rightarrow> (string \<Rightarrow> string) \<Rightarrow> abstraction list \<Rightarrow> string list \<Rightarrow> (diagnostic_kind, string) res" where
  "sat_guards vals0 sub [] rhs = Ok []"
| "sat_guards vals0 sub (a # as) [] = Panic"
| "sat_guards vals0 sub (a # as) (r # rs) =
     (case map_of vals0 (fst a) of
        None \<Rightarrow> Panic
      | Some v \<Rightarrow> bind_res (sat_guards vals0 sub as rs) (\<lambda>t.
          Ok (''example : '' @ digits (unat v) @ '' = '' @ sub r @ '' := by native_decide'' @ newline @ t)))"

definition sat_text :: "atom list \<Rightarrow> folds \<Rightarrow> bool \<Rightarrow> (string \<Rightarrow> string) \<Rightarrow> string list \<Rightarrow> string" where
  "sat_text as abs_subst call sub atoms =
     ''open Memory in'' @ newline @ ''example : '' @ [CHR 0xE2, CHR 0x88, CHR 0x83] @ '' s,'' @ newline @ ''    ('' @
     sub (atoms_to_lean as abs_subst) @ (if call then '' ** callStackIs []'' else []) @ '') s := by'' @ newline @
     ''  have w := SatWitness.sat_witness'' @ newline @ ''    ['' @ join ('','' @ newline @ ''     '') atoms @ '']'' @ newline @
     ''    (by native_decide)'' @ newline @ ''  exact w'' @ newline @ newline"

definition build_sat_witness ::
    "atom list \<Rightarrow> sym_state \<Rightarrow> abstraction list \<Rightarrow> folds \<Rightarrow> string list \<Rightarrow> string list \<Rightarrow> (diagnostic_kind, string) res" where
  "build_sat_witness as s abstractions abs_subst folded_rhs vars =
     bind_res (sat_env as vars) (\<lambda>env.
     bind_res (foldM (param_val (param_exprs abs_subst as) env) [] abstractions) (\<lambda>param_vals.
     bind_res (sat_atoms s env as) (\<lambda>xs.
     bind_res (check_feet (map (fst \<circ> snd) xs)) (\<lambda>_.
     let tokens = map (\<lambda>v. (v, digits (unat (case map_of env v of Some x \<Rightarrow> x | None \<Rightarrow> 0)))) vars @
           map (\<lambda>(p, x). (p, digits (unat x))) param_vals @ concat (map (snd \<circ> snd) xs);
         sub = apply_tokens tokens in
     bind_res (sat_guards param_vals sub abstractions folded_rhs) (\<lambda>guards.
     Ok (sat_header @ guards @ (if abstractions \<noteq> [] then newline else []) @
         sat_text as abs_subst (saw_call s) sub (map fst xs)))))))"

subsection \<open>What the atoms own\<close>

datatype resource = ResReg nat | ResByte nat | ResStack

text \<open>The address the assertion names: \<open>Int.toNat (base + off) + delta\<close>, without a bound.\<close>

definition lean_addr :: "u64 \<Rightarrow> int \<Rightarrow> int \<Rightarrow> nat" where
  "lean_addr base d k = nat (uint base + d) + nat k"

definition span :: "nat \<Rightarrow> nat \<Rightarrow> resource set" where
  "span a n = ResByte ` {a..<a + n}"

definition atom_res :: "sym_state \<Rightarrow> env \<Rightarrow> atom \<Rightarrow> resource set option" where
  "atom_res s env a = (case a of
      Atom_Reg r v \<Rightarrow> map_option (\<lambda>_. {ResReg r}) (eval_expr v env)
    | Atom_Mem b d w v k \<Rightarrow> bind2 (eval_expr b env) (eval_expr v env) (\<lambda>base _. Some (span (lean_addr base d k) (width_bytes w)))
    | Atom_Bytes e (Sym name) \<Rightarrow>
        bind2 (eval_expr e env) (Option.bind (map_of (memset_blobs s) name) const_blob_size) (\<lambda>p n. Some (span (unat p) n))
    | Atom_Bytes32 e _ \<Rightarrow> map_option (\<lambda>p. span (unat p) 32) (eval_expr e env)
    | Atom_ReturnData (Sym _) \<Rightarrow> Some {}
    | _ \<Rightarrow> None)"

text \<open>A cell whose address fits a \<open>u64\<close>; the other atoms evaluate to one.\<close>

definition in_u64 :: "env \<Rightarrow> atom \<Rightarrow> bool" where
  "in_u64 env a = (case a of
      Atom_Mem b d w v k \<Rightarrow> 0 \<le> k \<and> (case eval_expr b env of Some base \<Rightarrow> lean_addr base d k < 2 ^ 64 | None \<Rightarrow> False)
    | _ \<Rightarrow> True)"

definition foot_res :: "foot \<Rightarrow> resource set" where
  "foot_res f = (case ft_mem f of Some (a, n) \<Rightarrow> span (unat a) (unat n) | None \<Rightarrow> {}) \<union>
     (case ft_reg f of Some r \<Rightarrow> {ResReg r} | None \<Rightarrow> {}) \<union> (if ft_cs f then {ResStack} else {})"

lemma eff_lean:
  assumes "eff base d k = Ok p" "0 \<le> k" "lean_addr base d k < 2 ^ 64"
  shows "unat p = lean_addr base d k"
proof -
  let ?a = "max 0 (uint base + d)"
  have k: "k < 2 ^ 128" using assms(2,3) by (simp add: lean_addr_def nat_less_iff)
  have l: "int (lean_addr base d k) = ?a + k" using assms(2) by (simp add: lean_addr_def)
  have "k mod 2 ^ 128 = k" using k assms(2) by simp
  then have "p = word_of_int (?a + k)"
    using assms(1) by (auto simp: eff_def Let_def max_def split: if_splits)
  then have "p = word_of_nat (lean_addr base d k)" by (metis l of_int_of_nat_eq)
  then show ?thesis using assms(3) by (simp add: unat_of_nat)
qed

lemma width_bytes_word: "unat (word_of_nat (width_bytes w) :: u64) = width_bytes w"
  by (cases w) (simp_all add: width_bytes_def)

lemma find_map_of: "map_option snd (find (\<lambda>(n, _). n = k) m) = map_of m k"
  by (induction m) auto

lemma const_blob_size_bound: "const_blob_size s = Some n \<Longrightarrow> n < 2 ^ 64"
proof -
  have p: "parse_u64 t = Some m \<Longrightarrow> m < 2 ^ 64" for t m by (auto simp: parse_u64_def Let_def split: if_splits)
  show "const_blob_size s = Some n \<Longrightarrow> n < 2 ^ 64"
    by (auto simp: const_blob_size_def Let_def Option.bind_eq_Some_conv split: option.splits dest: p [simplified])
qed

lemma sat_atom_foot:
  assumes "sat_atom s env a = Ok (t, f, subs)"
  shows "\<exists>R. atom_res s env a = Some R \<and> (in_u64 env a \<longrightarrow> foot_res f = R)"
proof (cases a)
  case (Atom_Mem b d w v k)
  then obtain base x p where e: "eval_expr b env = Some base" "eval_expr v env = Some x" "eff base d k = Ok p" "f = mem_foot p (width_bytes w)"
    using assms by (auto simp: sat_atom_def eval_or_fail_def bind_res_eq_Ok)
  then show ?thesis
    using eff_lean [of base d k p] by (simp add: Atom_Mem atom_res_def bind2_def in_u64_def foot_res_def mem_foot_def width_bytes_word)
next
  case (Atom_Bytes e v)
  then obtain p name sz where e: "eval_expr e env = Some p" "v = Sym name" "Option.bind (map_of (memset_blobs s) name) const_blob_size = Some sz"
      "f = mem_foot p sz"
    using assms by (cases v) (auto simp: sat_atom_def eval_or_fail_def bind_res_eq_Ok find_map_of)
  moreover have "sz < 2 ^ 64" using e(3) const_blob_size_bound by (auto simp: Option.bind_eq_Some_conv)
  moreover have "unat (word_of_nat sz :: u64) = sz" using \<open>sz < 2 ^ 64\<close> by (simp add: unat_of_nat)
  ultimately show ?thesis
    by (auto simp: Atom_Bytes atom_res_def bind2_def foot_res_def mem_foot_def Option.bind_eq_Some_conv)
qed (use assms in \<open>auto simp: sat_atom_def eval_or_fail_def bind_res_eq_Ok atom_res_def foot_res_def mem_foot_def split: bytes_val.splits if_splits\<close>)

lemma span_disjoint: "a + n \<le> b \<Longrightarrow> span a n \<inter> span b m = {}" "b + m \<le> a \<Longrightarrow> span a n \<inter> span b m = {}"
  by (auto simp: span_def)

lemma mem_clash_False:
  assumes "mem_clash x y = Ok False" "ft_mem x = Some (s1, n1)" "ft_mem y = Some (s2, n2)"
  shows "span (unat s1) (unat n1) \<inter> span (unat s2) (unat n2) = {}"
proof (cases "n1 = 0 \<or> n2 = 0")
  case True
  then show ?thesis by (auto simp: span_def)
next
  case False
  then have pos: "n1 > 0" "n2 > 0" by (simp_all add: word_neq_0_conv)
  have sum: "unat (s + n) = unat s + unat n" if "checked_add s n = Some e" for s n e
    using that by (auto simp: checked_add_def unat_word_ariths split: if_splits)
  obtain e1 where e1: "checked_add s1 n1 = Some e1" using assms pos by (auto simp: mem_clash_def split: option.splits)
  then have u1: "unat e1 = unat s1 + unat n1" using sum [OF e1] by (auto simp: checked_add_def split: if_splits)
  show ?thesis
  proof (cases "e1 > s2")
    case False
    then have "unat s1 + unat n1 \<le> unat s2" using u1 by (simp add: word_less_nat_alt)
    then show ?thesis by (rule span_disjoint)
  next
    case True
    then obtain e2 where e2: "checked_add s2 n2 = Some e2" "\<not> e2 > s1"
      using assms pos e1 by (auto simp: mem_clash_def split: option.splits)
    then have "unat s2 + unat n2 \<le> unat s1" using sum [OF e2(1)] by (auto simp: checked_add_def word_less_nat_alt split: if_splits)
    then show ?thesis by (rule span_disjoint)
  qed
qed

lemma check_pair_ok: "check_pair x u y = Ok v \<Longrightarrow> foot_res x \<inter> foot_res y = {}"
proof -
  assume "check_pair x u y = Ok v"
  then have c: "mem_clash x y = Ok False" "\<not> (ft_reg x \<noteq> None \<and> ft_reg x = ft_reg y)" "\<not> (ft_cs x \<and> ft_cs y)"
    by (auto simp: check_pair_def bind_res_eq_Ok split: if_splits)
  have "(case ft_mem x of Some (a, n) \<Rightarrow> span (unat a) (unat n) | None \<Rightarrow> {}) \<inter>
        (case ft_mem y of Some (a, n) \<Rightarrow> span (unat a) (unat n) | None \<Rightarrow> {}) = {}"
    using mem_clash_False [OF c(1)] by (auto split: option.splits)
  then show ?thesis using c(2,3) by (auto simp: foot_res_def span_def split: option.splits if_splits)
qed

lemma check_pairs_ok: "foldM (check_pair x) u ys = Ok v \<Longrightarrow> \<forall>y \<in> set ys. foot_res x \<inter> foot_res y = {}"
  by (induction ys arbitrary: u) (auto simp: bind_res_eq_Ok dest: check_pair_ok)

lemma check_feet_ok: "check_feet fs = Ok u \<Longrightarrow> sorted_wrt (\<lambda>x y. foot_res x \<inter> foot_res y = {}) fs"
  by (induction fs) (auto simp: bind_res_eq_Ok dest: check_pairs_ok)

lemma sat_atoms_all:
  "foldM (\<lambda>acc a. bind_res (sat_atom s env a) (\<lambda>x. Ok (acc @ [x]))) acc as = Ok xs \<Longrightarrow>
   \<exists>ys. xs = acc @ ys \<and> list_all2 (\<lambda>a x. sat_atom s env a = Ok x) as ys"
proof (induction as arbitrary: acc)
  case (Cons a as)
  then obtain x where x: "sat_atom s env a = Ok x"
    "foldM (\<lambda>acc a. bind_res (sat_atom s env a) (\<lambda>x. Ok (acc @ [x]))) (acc @ [x]) as = Ok xs"
    by (auto simp: bind_res_eq_Ok)
  then show ?case using Cons.IH [OF x(2)] by auto
qed simp

lemma separate_atoms:
  assumes "list_all2 (\<lambda>a x. sat_atom s env a = Ok x) as ys" "sorted_wrt (\<lambda>x y. foot_res x \<inter> foot_res y = {}) (map (fst \<circ> snd) ys)"
  shows "list_all (\<lambda>a. atom_res s env a \<noteq> None) as \<and>
     sorted_wrt (\<lambda>a b. in_u64 env a \<and> in_u64 env b \<longrightarrow> the (atom_res s env a) \<inter> the (atom_res s env b) = {}) as"
proof -
  have len: "length as = length ys" using assms(1) by (rule list_all2_lengthD)
  have foot: "\<exists>R. atom_res s env (as ! i) = Some R \<and> (in_u64 env (as ! i) \<longrightarrow> foot_res (fst (snd (ys ! i))) = R)"
    if "i < length as" for i
    using sat_atom_foot [of s env "as ! i" "fst (ys ! i)" "fst (snd (ys ! i))" "snd (snd (ys ! i))"] list_all2_nthD [OF assms(1) that] by simp
  have "the (atom_res s env (as ! i)) \<inter> the (atom_res s env (as ! j)) = {}"
    if "i < j" "j < length as" "in_u64 env (as ! i)" "in_u64 env (as ! j)" for i j
  proof -
    have "foot_res (fst (snd (ys ! i))) \<inter> foot_res (fst (snd (ys ! j))) = {}"
      using sorted_wrt_nth_less [OF assms(2), of i j] that len by simp
    then show ?thesis using foot [of i] foot [of j] that by auto
  qed
  moreover have "list_all (\<lambda>a. atom_res s env a \<noteq> None) as" unfolding list_all_length using foot by fastforce
  ultimately show ?thesis by (simp add: sorted_wrt_iff_nth_less)
qed

subsection \<open>The postcondition of a walk\<close>

text \<open>Two atoms over the same resource, and an atom whose value is the state's.\<close>

fun same_resource :: "atom \<Rightarrow> atom \<Rightarrow> bool" where
  "same_resource (Atom_Reg r _) (Atom_Reg r' _) \<longleftrightarrow> r = r'"
| "same_resource (Atom_Mem b d w _ k) (Atom_Mem b' d' w' _ k') \<longleftrightarrow> b = b' \<and> d = d' \<and> w = w' \<and> k = k'"
| "same_resource (Atom_Bytes e _) (Atom_Bytes e' _) \<longleftrightarrow> e = e'"
| "same_resource (Atom_Bytes32 e _) (Atom_Bytes32 e' _) \<longleftrightarrow> e = e'"
| "same_resource (Atom_ReturnData _) (Atom_ReturnData _) \<longleftrightarrow> True"
| "same_resource _ _ \<longleftrightarrow> False"

fun current :: "sym_state \<Rightarrow> atom \<Rightarrow> bool" where
  "current s (Atom_Reg r v) \<longleftrightarrow> map_of (regs s) r = Some v"
| "current s (Atom_Mem b d w v k) \<longleftrightarrow> (\<exists>c \<in> set (mem s). cell_key c = (to_lean b, d, k, w) \<and> mc_value c = v)"
| "current s a \<longleftrightarrow> True"

lemma post_same_resource: "list_all2 same_resource as (post_atoms as s)"
proof -
  have "same_resource a (post_atom s a)" for a by (cases a) (simp_all add: post_atom_def)
  then show ?thesis by (simp add: post_atoms_def list.rel_map list_all2_same)
qed

lemma post_reg_current:
  assumes "regs_ok s" "Atom_Reg r v \<in> set (pre s)"
  shows "current s (post_atom s (Atom_Reg r v))"
proof -
  obtain xs ys where "pre s = xs @ [Atom_Reg r v] @ ys" using split_list [OF assms(2)] by auto
  then have "r \<in> fst ` set (reg_atoms (pre s))" by (simp only: reg_atoms_append reg_atoms_simps) simp
  then have "r \<in> dom (map_of (regs s))" using assms(1) unfolding regs_ok_def by blast
  then show ?thesis by (auto simp: post_atom_def)
qed

lemma post_mem_current:
  assumes "atom_places (pre s) = map place (mem s)" "Atom_Mem b d w v k \<in> set (pre s)"
  shows "current s (post_atom s (Atom_Mem b d w v k))"
proof -
  obtain xs ys where "pre s = xs @ [Atom_Mem b d w v k] @ ys" using split_list [OF assms(2)] by auto
  then have "(b, d, w, k) \<in> set (atom_places (pre s))" by (simp only: atom_places_append atom_places_simps) simp
  then obtain c where c: "c \<in> set (mem s)" "place c = (b, d, w, k)" unfolding assms(1) by auto
  let ?P = "\<lambda>c. cell_key c = (to_lean b, d, k, w)"
  have "?P c" using c(2) by (simp add: place_def cell_key_def)
  then have "find ?P (mem s) \<noteq> None" using c(1) unfolding find_None_iff by blast
  then obtain c' where f: "find ?P (mem s) = Some c'" by blast
  then have "?P c' \<and> c' \<in> set (mem s)" by (rule find_SomeD)
  then show ?thesis using f by (auto simp: post_atom_def)
qed

subsection \<open>Reading blob sizes back\<close>

lemma trim_word:
  assumes "s \<noteq> []" "\<not> is_space (hd s)" "\<not> is_space (last s)"
  shows "trim s = s"
proof -
  have "dropWhile is_space s = s" using assms(1,2) by (cases s) auto
  moreover have "dropWhile is_space (rev s) = rev s" using assms(1,3) by (cases s rule: rev_cases) auto
  ultimately show ?thesis by (simp add: trim_def)
qed

lemma trim_space [simp]: "trim (CHR '' '' # s) = trim s"
  by (simp add: trim_def is_space_def)

lemma trim_space_end: "trim (s @ '' '') = trim s"
proof (cases "dropWhile is_space s")
  case Nil
  then have "\<forall>c \<in> set s. is_space c" by (simp add: dropWhile_eq_Nil_conv)
  then have "dropWhile is_space (s @ '' '') = []" unfolding dropWhile_eq_Nil_conv by (auto simp: is_space_def)
  then show ?thesis by (simp only: trim_def Nil)
next
  case (Cons c cs)
  then have "\<not> (\<forall>x \<in> set s. is_space x)" using dropWhile_eq_Nil_conv [of is_space s] by (metis list.distinct(1))
  then obtain x where "x \<in> set s" "\<not> is_space x" by blast
  then have "dropWhile is_space (s @ '' '') = dropWhile is_space s @ '' ''" by (rule dropWhile_append1)
  then have "trim (s @ '' '') = rev (dropWhile is_space (CHR '' '' # rev (dropWhile is_space s)))" by (simp only: trim_def) simp
  then show ?thesis by (simp add: trim_def is_space_def)
qed

lemma digits_nonempty: "digits n \<noteq> []"
  by (subst digits.simps) simp

lemma digit_not_space: "digit_char c \<Longrightarrow> \<not> is_space c" "digit_char c \<Longrightarrow> c \<noteq> CHR ''+''" "digit_char c \<Longrightarrow> c \<noteq> CHR ''(''"
  by (auto simp: digit_char_def is_space_def Let_def)

lemma trim_digits: "trim (digits n) = digits n"
  using trim_word [OF digits_nonempty] digits_chars [of _ n] digit_not_space(1) digits_nonempty
  by (metis hd_in_set last_in_set)

lemma parse_digits: "n < 2 ^ 64 \<Longrightarrow> parse_u64 (digits n) = Some n"
proof -
  assume n: "n < 2 ^ 64"
  obtain c t where d: "digits n = c # t" using digits_nonempty by (meson neq_Nil_conv)
  have "c \<noteq> CHR ''+''" using digits_chars [of c n] digit_not_space(2) d by simp
  moreover have "list_all digit_char (digits n)" using digits_chars by (auto simp: list_all_iff)
  ultimately show ?thesis using n digits_value [of n] by (simp add: parse_u64_def d)
qed

subsection \<open>Properties\<close>

text \<open>C7: An emitted satisfiability witness is one.  If \<open>build_sat_witness\<close> succeeds, then under its
  assignment every atom of the precondition evaluates, and any two atoms whose cell addresses fit 64 bits
  own disjoint resources (registers, bytes): a precondition in which two atoms claim the same register
  or share a byte is never certified.\<close>

theorem sat_witness_sound:
  assumes "build_sat_witness as s abstractions abs_subst folded_rhs vars = Ok txt"
  shows "\<exists>env. sat_env as vars = Ok env \<and> list_all (\<lambda>a. atom_res s env a \<noteq> None) as \<and>
     sorted_wrt (\<lambda>a b. in_u64 env a \<and> in_u64 env b \<longrightarrow> the (atom_res s env a) \<inter> the (atom_res s env b) = {}) as"
proof -
  obtain env xs where e: "sat_env as vars = Ok env" "sat_atoms s env as = Ok xs" "check_feet (map (fst \<circ> snd) xs) = Ok ()"
    using assms by (auto simp: build_sat_witness_def bind_res_eq_Ok)
  obtain ys zs where ys: "xs = ys @ zs" "list_all2 (\<lambda>a x. sat_atom s env a = Ok x) as ys"
    using e(2) sat_atoms_all [of s env "[]" as] by (auto simp: sat_atoms_def bind_res_eq_Ok)
  have "sorted_wrt (\<lambda>x y. foot_res x \<inter> foot_res y = {}) (map (fst \<circ> snd) ys)"
    using check_feet_ok [OF e(3)] by (simp add: ys(1) sorted_wrt_append)
  then show ?thesis using e(1) separate_atoms [OF ys(2)] by blast
qed

text \<open>A register, the cell it points to and one further on.\<close>

definition demo_pre :: "atom list" where
  "demo_pre = [Atom_Reg 1 (InitReg ''baseAddr''), Atom_Mem (InitReg ''baseAddr'') 8 Dword (InitMem ''m'') 0,
     Atom_Mem (WrapAdd (InitReg ''baseAddr'') (ToU64 (Const 16))) 0 Dword (InitMem ''n'') 0]"

definition plain_state :: sym_state where "plain_state = with_retry_plans [] []"

lemma sat_witness_plain:
  "sat_env as vars = Ok env \<Longrightarrow> sat_atoms s env as = Ok xs \<Longrightarrow> check_feet (map (fst \<circ> snd) xs) = Ok () \<Longrightarrow>
   \<exists>txt. build_sat_witness as s [] abs_subst rhs vars = Ok txt"
  by (simp add: build_sat_witness_def Let_def)

lemma demo_env: "sat_env demo_pre [''baseAddr'', ''m'', ''n''] = Ok [(''baseAddr'', 0x400000000), (''m'', 0), (''n'', 0)]"
  by code_simp

lemma demo_feet:
  "\<exists>xs. sat_atoms plain_state [(''baseAddr'', 0x400000000), (''m'', 0), (''n'', 0)] demo_pre = Ok xs \<and>
     map (fst \<circ> snd) xs = [\<lparr>ft_mem = None, ft_reg = Some 1, ft_cs = False\<rparr>, \<lparr>ft_mem = Some (0x400000008, 8), ft_reg = None, ft_cs = False\<rparr>,
         \<lparr>ft_mem = Some (0x400000010, 8), ft_reg = None, ft_cs = False\<rparr>]"
  by (simp add: sat_atoms_def sat_atom_def demo_pre_def eval_or_fail_def eff_def Let_def mem_foot_def width_bytes_def plain_state_def
      with_retry_plans_def bind2_def)

theorem sat_witness_sound_witness:
  "\<exists>env. sat_env demo_pre [''baseAddr'', ''m'', ''n''] = Ok env \<and>
     the (atom_res plain_state env (demo_pre ! 1)) \<inter> the (atom_res plain_state env (demo_pre ! 2)) = {}"
proof -
  obtain xs where xs: "sat_atoms plain_state [(''baseAddr'', 0x400000000), (''m'', 0), (''n'', 0)] demo_pre = Ok xs"
    and feet: "map (fst \<circ> snd) xs = [\<lparr>ft_mem = None, ft_reg = Some 1, ft_cs = False\<rparr>, \<lparr>ft_mem = Some (0x400000008, 8), ft_reg = None, ft_cs = False\<rparr>,
         \<lparr>ft_mem = Some (0x400000010, 8), ft_reg = None, ft_cs = False\<rparr>]" using demo_feet by (elim exE conjE) (rule that)
  have "check_feet (map (fst \<circ> snd) xs) = Ok ()"
    unfolding feet by (simp add: check_pair_def mem_clash_def checked_add_def)
  then obtain ex where "build_sat_witness demo_pre plain_state [] [] [] [''baseAddr'', ''m'', ''n''] = Ok ex"
    using sat_witness_plain [OF demo_env xs] by blast
  note w = sat_witness_sound [OF this]
  have u: "in_u64 [(''baseAddr'', 0x400000000), (''m'', 0), (''n'', 0)] (demo_pre ! i)" if "i = 1 \<or> i = 2" for i
    using that by (auto simp: demo_pre_def in_u64_def lean_addr_def bind2_def)
  let ?env = "[(''baseAddr'', 0x400000000), (''m'', 0), (''n'', 0)]"
  have "sorted_wrt (\<lambda>a b. in_u64 ?env a \<and> in_u64 ?env b \<longrightarrow>
      the (atom_res plain_state ?env a) \<inter> the (atom_res plain_state ?env b) = {}) demo_pre"
    using w unfolding demo_env by auto
  from sorted_wrt_nth_less [OF this, of 1 2] u [of 1] u [of 2] demo_env show ?thesis
    by (simp add: demo_pre_def [THEN arg_cong, of length])
qed



text \<open>The size of a constant blob is read back from its rendering: a decimal numeral, a wrapped
  constant and a 64-bit immediate store of any value from 0 to \<open>2 ^ 63 - 1\<close> parse to that value.\<close>

theorem blob_size_reads_back:
  assumes "n < 2 ^ 63"
  shows "const_blob_size (digits n) = Some n \<and> const_blob_size (atom_lean (ToU64 (Const (int n)))) = Some n \<and>
    const_blob_size (atom_lean (StDwordImm (int n))) = Some n"
proof -
  let ?d = "digits n"
  have p: "parse_u64 ?d = Some n" using parse_digits assms by simp
  have ends: "trim ((x # xs) @ [y]) = (x # xs) @ [y]" if "\<not> is_space x" "\<not> is_space y" for x xs y
    using trim_word [of "(x # xs) @ [y]"] that by simp
  have par: "\<not> is_space (CHR ''('')" "\<not> is_space (CHR '')'')" by (simp_all add: is_space_def)
  have paren: "trim (paren t) = paren t" "parse_u64 (paren t) = None"
    "strip_prefix ''('' (paren t) = Some (t @ '')'')" "strip_suffix '')'' (t @ '')'') = Some t"
    "strip_prefix ''toU64'' (''toU64 '' @ t) = Some (CHR '' '' # t)" for t
    using ends [OF par, of t]
    by (simp_all add: paren_def parse_u64_def digit_char_def strip_prefix_def strip_suffix_def Let_def)
  have sz: "const_blob_size (paren (''toU64 '' @ t)) =
      (case parse_u64 (trim t) of Some n \<Rightarrow> Some n | None \<Rightarrow> Option.bind (strip_suffix ''% 2 ^ (8 * 8)'' (trim t)) (\<lambda>x. parse_u64 (trim x)))"
    if "t \<noteq> []" "\<not> is_space (last t)" for t
  proof -
    have "trim (''toU64 '' @ t) = ''toU64 '' @ t" using that by (intro trim_word) (simp_all add: is_space_def)
    then show ?thesis
      unfolding const_blob_size_def Let_def paren by (simp only: option.case bind.simps paren trim_space)
  qed
  have last_d: "\<not> is_space (last ?d)" using digits_chars [of "last ?d" n] digits_nonempty digit_not_space(1) by (metis last_in_set)
  have "const_blob_size ?d = Some n" by (simp add: const_blob_size_def trim_digits p)
  moreover have "const_blob_size (paren (''toU64 '' @ ?d)) = Some n"
    by (subst sz) (simp_all add: digits_nonempty last_d trim_digits p)
  moreover have "const_blob_size (paren (''toU64 '' @ ?d @ '' % 2 ^ (8 * 8)'')) = Some n"
  proof -
    let ?t = "?d @ '' % 2 ^ (8 * 8)''"
    have "hd ?t = hd ?d" using digits_nonempty by simp
    then have t: "trim ?t = ?t"
      using digits_chars [of "hd ?d" n] digit_not_space(1) digits_nonempty by (intro trim_word) (simp_all add: is_space_def)
    have np: "parse_u64 ?t = None"
    proof -
      obtain c u where d: "?d = c # u" using digits_nonempty by (meson neq_Nil_conv)
      have "c \<noteq> CHR ''+''" using digits_chars [of c n] digit_not_space(2) d by simp
      then show ?thesis by (simp add: parse_u64_def d digit_char_def Let_def)
    qed
    have "strip_suffix ''% 2 ^ (8 * 8)'' ?t = Some (?d @ '' '')" by (simp add: strip_suffix_def strip_prefix_def)
    then show ?thesis by (subst sz) (simp_all add: is_space_def t np trim_space_end trim_digits p)
  qed
  ultimately show ?thesis
    by (simp add: atom_lean_def atomise_def show_int_def lean_off_def)
qed

theorem blob_size_reads_back_witness:
  "const_blob_size ''64'' = Some 64 \<and> const_blob_size ''(toU64 64)'' = Some 64 \<and>
    const_blob_size ''(toU64 64 % 2 ^ (8 * 8))'' = Some 64"
proof -
  have d: "digits 64 = ''64''" by code_simp
  show ?thesis using blob_size_reads_back [of 64]
    by (simp add: atom_lean_def atomise_def show_int_def lean_off_def d paren_def)
qed

end
