(* ===== verification/Ledger_Witness.thy ===== *)
theory Ledger_Witness
  imports Sat_Witness
begin

text \<open>
  The footprint ledger of the walk against the satisfiability witness of the emitter: when every cell is
  addressed from a variable by a moderate displacement, the assignment of \<open>build_sat_witness\<close> puts the roots
  further apart than the cells reach, so the bytes the ledger keeps apart symbolically are apart concretely
  and the emitter cannot refuse the precondition.
\<close>

subsection \<open>Addresses that are a variable and a displacement\<close>

text \<open>A constant operand that evaluates, and a base that is a variable plus constants.\<close>

definition literal :: "expr \<Rightarrow> int option" where
  "literal e = (case const_of_expr e of
      Some k \<Rightarrow> if eval_expr e [] = Some (word_of_int k) then Some k else None | None \<Rightarrow> None)"

fun var_disp :: "expr \<Rightarrow> (string \<times> u64) option" where
  "var_disp (InitReg n) = Some (n, 0)"
| "var_disp (InitMem n) = Some (n, 0)"
| "var_disp (ToU64 e) = var_disp e"
| "var_disp (WrapAdd a b) = (case const_of_expr b of
      Some _ \<Rightarrow> (case (literal b, var_disp a) of (Some k, Some (n, j)) \<Rightarrow> Some (n, word_of_int k + j) | _ \<Rightarrow> None)
    | None \<Rightarrow> (case (literal a, var_disp b) of (Some k, Some (n, j)) \<Rightarrow> Some (n, word_of_int k + j) | _ \<Rightarrow> None))"
| "var_disp (WrapSub a b) = (case (literal b, var_disp a) of (Some k, Some (n, j)) \<Rightarrow> Some (n, j - word_of_int k) | _ \<Rightarrow> None)"
| "var_disp e = None"

lemma const_eval: "const_of_expr e = Some k \<Longrightarrow> eval_expr e env = eval_expr e []"
proof (induction e)
  case (ToU64 e)
  then show ?case by (cases e) simp_all
qed simp_all

lemma literal_eval: "literal e = Some k \<Longrightarrow> const_of_expr e = Some k \<and> eval_expr e env = Some (word_of_int k)"
  using const_eval [of e k env] by (simp add: literal_def split: option.splits if_splits)

lemma var_disp_const: "var_disp e = Some x \<Longrightarrow> const_of_expr e = None"
  by (induction e) auto

lemma var_disp_eval: "var_disp e = Some (n, j) \<Longrightarrow> eval_expr e env = map_option (\<lambda>x. x + j) (map_of env n)"
proof (induction e arbitrary: j)
  case (ToU64 e)
  then have "eval_expr (ToU64 e) env = eval_expr e env" by (cases e) auto
  then show ?case using ToU64 by simp
next
  case (WrapAdd a b)
  show ?case
  proof (cases "const_of_expr b")
    case None
    then obtain k i where k: "literal a = Some k" "var_disp b = Some (n, i)" "j = word_of_int k + i"
      using WrapAdd.prems by (auto split: option.splits)
    then show ?thesis using WrapAdd.IH(2) [of i] literal_eval [of a k env]
      by (cases "map_of env n") (simp_all add: bind2_def)
  next
    case (Some k')
    then obtain k i where k: "literal b = Some k" "var_disp a = Some (n, i)" "j = word_of_int k + i"
      using WrapAdd.prems by (auto split: option.splits)
    then show ?thesis using WrapAdd.IH(1) [of i] literal_eval [of b k env]
      by (cases "map_of env n") (simp_all add: bind2_def)
  qed
next
  case (WrapSub a b)
  then obtain k i where k: "literal b = Some k" "var_disp a = Some (n, i)" "j = i - word_of_int k"
    by (auto split: option.splits)
  then show ?case using WrapSub.IH(1) [of i] literal_eval [of b k env]
    by (cases "map_of env n") (simp_all add: bind2_def)
qed (auto simp: option.map_ident)

lemma wrap_word: "(word_of_int (wrap_i64 d) :: u64) = word_of_int d"
  by (simp add: wrap_eq [symmetric] wrap_id)

lemma var_disp_canon:
  "var_disp e = Some (n, j) \<Longrightarrow> \<exists>d'. canon_go e d = Some (n, d') \<and> (word_of_int d' :: u64) = word_of_int d + j"
proof (induction e arbitrary: j d)
  case (WrapAdd a b)
  then show ?case
  proof (cases "const_of_expr b")
    case None
    then obtain k i where k: "literal a = Some k" "var_disp b = Some (n, i)" "j = word_of_int k + i"
      using WrapAdd.prems by (auto split: option.splits)
    then show ?thesis using None WrapAdd.IH(2) [of i "wrap_i64 (d + k)"] literal_eval [of a k "[]"] wrap_word [of "d + k"] by (auto simp: add.assoc)
  next
    case (Some k')
    then obtain k i where k: "literal b = Some k" "var_disp a = Some (n, i)" "j = word_of_int k + i"
      using WrapAdd.prems by (auto split: option.splits)
    then show ?thesis using Some WrapAdd.IH(1) [of i "wrap_i64 (d + k)"] literal_eval [of b k "[]"] wrap_word [of "d + k"] by (auto simp: add.assoc)
  qed
next
  case (WrapSub a b)
  then obtain k i where k: "literal b = Some k" "var_disp a = Some (n, i)" "j = i - word_of_int k"
    by (auto split: option.splits)
  then show ?case using WrapSub.IH(1) [of i "wrap_i64 (d - k)"] literal_eval [of b k "[]"] wrap_word [of "d - k"] by (auto simp: algebra_simps)
qed auto

lemma var_disp_root: "var_disp e = Some (n, j) \<Longrightarrow> \<forall>acc. fst (canon_root_expr e acc) \<in> {Some (InitReg n), Some (InitMem n)}"
  by (induction e arbitrary: j) (auto simp: literal_eval split: option.splits dest: literal_eval)

lemma root_var_disp: "var_disp e = Some (n, j) \<Longrightarrow> root_var e = Some n"
proof -
  assume "var_disp e = Some (n, j)"
  then have "fst (canon_root_expr e 0) = Some (InitReg n) \<or> fst (canon_root_expr e 0) = Some (InitMem n)"
    using var_disp_root [of e n j] by blast
  then show ?thesis by (auto simp: root_var_def)
qed

subsection \<open>The bases\<close>

definition nth_base :: "nat \<Rightarrow> u64" where
  "nth_base i = first_base + of_nat i * base_step"

definition based :: "string list \<Rightarrow> env \<Rightarrow> bool" where
  "based ns env \<longleftrightarrow> distinct ns \<and> (\<forall>i < length ns. map_of env (ns ! i) = Some (nth_base i)) \<and> dom (map_of env) = set ns"

lemma place_vars:
  "based ns env \<Longrightarrow> nb = nth_base (length ns) \<Longrightarrow> foldl place_var (env, nb) es = (env', nb') \<Longrightarrow>
   \<exists>ms. based (ns @ ms) env' \<and> length ms \<le> length es \<and> (\<forall>e \<in> set es. \<forall>n. root_var e = Some n \<longrightarrow> n \<in> set (ns @ ms))"
proof (induction es arbitrary: ns env nb)
  case Nil
  then show ?case by (intro exI [of _ "[]"]) simp
next
  case (Cons e es)
  show ?case
  proof (cases "\<exists>n. root_var e = Some n \<and> n \<notin> set ns")
    case True
    then obtain n where n: "root_var e = Some n" "n \<notin> set ns" by blast
    then have "map_of env n = None" using Cons.prems(1) unfolding based_def by auto
    then have p: "place_var (env, nb) e = (bt_insert n nb env, nb + base_step)" by (simp add: place_var_def n)
    have "based (ns @ [n]) (bt_insert n nb env)"
      using Cons.prems(1,2) n(2) unfolding based_def by (auto simp: nth_append less_Suc_eq)
    moreover have "nb + base_step = nth_base (length (ns @ [n]))" using Cons.prems(2) by (simp add: nth_base_def algebra_simps)
    moreover have "foldl place_var (bt_insert n nb env, nb + base_step) es = (env', nb')" using Cons.prems(3) p by simp
    ultimately have "\<exists>ms. based ((ns @ [n]) @ ms) env' \<and> length ms \<le> length es \<and>
      (\<forall>e \<in> set es. \<forall>m. root_var e = Some m \<longrightarrow> m \<in> set ((ns @ [n]) @ ms))" by (rule Cons.IH)
    then obtain ms where ms: "based ((ns @ [n]) @ ms) env'" "length ms \<le> length es"
      "\<forall>e \<in> set es. \<forall>m. root_var e = Some m \<longrightarrow> m \<in> set ((ns @ [n]) @ ms)" by blast
    then show ?thesis using n(1) by (intro exI [of _ "n # ms"]) auto
  next
    case False
    then have "place_var (env, nb) e = (env, nb)"
      using Cons.prems(1) by (auto simp: place_var_def based_def split: option.split)
    then obtain ms where "based (ns @ ms) env'" "length ms \<le> length es" "\<forall>e \<in> set es. \<forall>m. root_var e = Some m \<longrightarrow> m \<in> set (ns @ ms)"
      using Cons.IH [OF Cons.prems(1,2)] Cons.prems(3) by auto
    then show ?thesis using False by (intro exI [of _ ms]) auto
  qed
qed

lemma place_derived_vars:
  "\<forall>e \<in> set es. root_var e \<noteq> None \<Longrightarrow> foldM place_derived s es = Ok s"
proof (induction es)
  case (Cons e es)
  then have "place_derived s e = Ok s" by (cases s) (auto simp: place_derived_def split: option.split)
  then show ?case using Cons by simp
qed simp

lemma zero_fill_extends: "map_of env \<subseteq>\<^sub>m map_of (zero_fill vars env) \<and> set vars \<subseteq> dom (map_of (zero_fill vars env))"
proof (induction vars arbitrary: env)
  case (Cons v vars)
  have z: "zero_fill (v # vars) env = zero_fill vars (or_insert v 0 env)" by (simp add: zero_fill_def)
  have "map_of env \<subseteq>\<^sub>m map_of (zero_fill (v # vars) env)"
    unfolding z using or_insert_le Cons.IH by (metis map_le_trans)
  moreover have "v \<in> dom (map_of (or_insert v 0 env))" by (auto simp: map_of_or_insert)
  then have "v \<in> dom (map_of (zero_fill (v # vars) env))" unfolding z using Cons.IH by (metis map_le_implies_dom_le subsetD)
  ultimately show ?case using Cons.IH [of "or_insert v 0 env"] unfolding z by simp
qed (simp add: zero_fill_def)

lemma sat_env_vars:
  assumes "\<forall>e \<in> set (addr_exprs as). root_var e \<noteq> None"
  obtains env ns where "sat_env as vars = Ok env" "distinct ns" "length ns \<le> length (addr_exprs as)"
    "\<And>i. i < length ns \<Longrightarrow> map_of env (ns ! i) = Some (nth_base i)"
    "\<And>e n. e \<in> set (addr_exprs as) \<Longrightarrow> root_var e = Some n \<Longrightarrow> n \<in> set ns" "set vars \<subseteq> dom (map_of env)"
proof -
  let ?es = "addr_exprs as"
  obtain env nb where p: "foldl place_var ([], first_base) ?es = (env, nb)" by fastforce
  have "based [] []" "first_base = nth_base (length ([] :: string list))" by (simp_all add: based_def nth_base_def)
  from place_vars [OF this p] obtain ns where ns: "based ns env" "length ns \<le> length ?es"
    "\<forall>e \<in> set ?es. \<forall>n. root_var e = Some n \<longrightarrow> n \<in> set ns" by auto
  have env: "sat_env as vars = Ok (zero_fill vars env)" by (simp add: sat_env_def p place_derived_vars [OF assms])
  have "map_of (zero_fill vars env) (ns ! i) = Some (nth_base i)" if "i < length ns" for i
    using ns(1) that zero_fill_extends [of env vars] by (auto simp: based_def map_le_def)
  then show ?thesis using that [OF env] ns zero_fill_extends [of env vars] by (auto simp: based_def)
qed

subsection \<open>Cells near their root\<close>

definition near_place :: "expr \<times> int \<times> width \<times> int \<Rightarrow> bool" where
  "near_place p = (case p of (b, d, w, k) \<Rightarrow> off_ok d \<and> 0 \<le> k \<and> k < 8 \<and>
     (case var_disp b of Some (n, j) \<Rightarrow> - (2 ^ 26) \<le> sint j \<and> sint j < 2 ^ 26 | None \<Rightarrow> False))"

text \<open>The distance of a cell from its root.\<close>

definition reach :: "expr \<times> int \<times> width \<times> int \<Rightarrow> int" where
  "reach p = (case p of (b, d, w, k) \<Rightarrow> (case var_disp b of Some (n, j) \<Rightarrow> sint j | None \<Rightarrow> 0) + d + k)"

lemma near_reach: "near_place p \<Longrightarrow> - (2 ^ 27) < reach p \<and> reach p + 8 < 2 ^ 27"
  by (cases p) (auto simp: near_place_def reach_def off_ok_def split: option.splits)

lemma u64_small: "n < 2 ^ 64 \<Longrightarrow> unat (of_nat n :: u64) = n" "0 \<le> z \<Longrightarrow> z < 2 ^ 64 \<Longrightarrow> uint (word_of_int z :: u64) = z"
  by (simp_all add: unat_of_nat uint_word_of_int)

lemma nth_base_uint: "i < 2 ^ 30 \<Longrightarrow> uint (nth_base i) = 0x400000000 + int i * 0x10000000"
proof -
  assume "i < 2 ^ 30"
  then have i: "0x400000000 + i * 0x10000000 < 2 ^ 64" by simp
  have "nth_base i = of_nat (0x400000000 + i * 0x10000000)"
    by (simp add: nth_base_def first_base_def base_step_def)
  then have "unat (nth_base i) = 0x400000000 + i * 0x10000000" using u64_small(1) [OF i] by simp
  then show ?thesis by (simp add: uint_nat)
qed

lemma wbytes_width: "wbytes w = int (width_bytes w)" "0 < width_bytes w" "width_bytes w \<le> 8"
  by (cases w; simp add: wbytes_def width_bytes_def)+

text \<open>A near cell on the \<open>i\<close>-th root is at the base plus its reach.\<close>

lemma near_eff:
  assumes near: "near_place (b, d, w, k)" and v: "var_disp b = Some (n, j)" and env: "map_of env n = Some (nth_base i)" and i: "i < 2 ^ 30"
  shows "\<exists>base p. eval_expr b env = Some base \<and> eff base d k = Ok p \<and> uint p = uint (nth_base i) + reach (b, d, w, k)"
proof -
  let ?B = "uint (nth_base i)"
  have B: "0x400000000 \<le> ?B" "?B < 2 ^ 60" using i by (simp_all add: nth_base_uint)
  have j: "- (2 ^ 26) \<le> sint j" "sint j < 2 ^ 26" "off_ok d" "0 \<le> k" "k < 8" using near v by (auto simp: near_place_def)
  have w: "nth_base i + j = word_of_int (?B + sint j)" by simp
  have "0 \<le> ?B + sint j" "?B + sint j < 2 ^ 64" using B j by auto
  then have u: "uint (nth_base i + j) = ?B + sint j" unfolding w by (rule u64_small)
  let ?a = "?B + sint j + d"
  have a: "0 \<le> ?a" "?a + k < 2 ^ 64" "0 \<le> ?a + k" using B j by (auto simp: off_ok_def)
  have "k mod 2 ^ 128 = k" using j by simp
  then have "eff (nth_base i + j) d k = Ok (word_of_int (?a + k))" using a u by (simp add: eff_def Let_def)
  moreover have "uint (word_of_int (?a + k) :: u64) = ?a + k" using a(3,2) by (rule u64_small)
  moreover have "eval_expr b env = Some (nth_base i + j)" using var_disp_eval [OF v] env by simp
  ultimately show ?thesis using v by (simp add: reach_def algebra_simps)
qed

text \<open>The ledger's footprint of a near cell is its reach.\<close>

lemma near_footprint:
  assumes near: "near_place (place c)" and v: "var_disp (addr_base c) = Some (n, j)"
  shows "footprint c = (n, reach (place c), reach (place c) + wbytes (mc_width c))"
proof -
  let ?d = "addr_off c + mc_delta c"
  have b: "- (2 ^ 27) < reach (place c) \<and> reach (place c) + 8 < 2 ^ 27" by (rule near_reach [OF near])
  have small: "i64 ?d" using near by (auto simp: near_place_def place_def off_ok_def i64_def)
  obtain d' where d': "canon_go (addr_base c) ?d = Some (n, d')" "(word_of_int d' :: u64) = word_of_int ?d + j"
    using var_disp_canon [OF v] by blast
  have "d' = snd (canon_addr (addr_base c) ?d)" using d'(1) by (simp add: canon_addr_def)
  then have "i64 d'" using canon_addr_i64 [OF small] by simp
  then have "d' = wrap_i64 d'" by (simp add: wrap_id)
  also have "(word_of_int d' :: u64) = word_of_int (reach (place c))"
    using d'(2) v by (simp add: reach_def place_def)
  then have "wrap_i64 d' = wrap_i64 (reach (place c))" by (simp add: wrap_eq)
  also have "\<dots> = reach (place c)" using b by (intro wrap_small) auto
  finally have "d' = reach (place c)" .
  moreover have "wrap_i64 (reach (place c) + wbytes (mc_width c)) = reach (place c) + wbytes (mc_width c)"
    using b wbytes_width [of "mc_width c"] by (intro wrap_small) auto
  ultimately show ?thesis using d'(1) by (simp add: footprint_def canon_addr_def)
qed

subsection \<open>Atoms that the assignment separates\<close>

definition near_atom :: "string list \<Rightarrow> atom \<Rightarrow> bool" where
  "near_atom vars a = (case a of
      Atom_Reg r (InitReg n) \<Rightarrow> n \<in> set vars
    | Atom_Mem b d w (InitMem m) k \<Rightarrow> near_place (b, d, w, k) \<and> m \<in> set vars
    | _ \<Rightarrow> False)"

fun foot_at :: "string list \<Rightarrow> atom \<Rightarrow> foot \<Rightarrow> bool" where
  "foot_at ns (Atom_Reg r v) f \<longleftrightarrow> f = \<lparr>ft_mem = None, ft_reg = Some r, ft_cs = False\<rparr>"
| "foot_at ns (Atom_Mem b d w v k) f \<longleftrightarrow> (\<exists>i p j. var_disp b = Some (ns ! i, j) \<and> i < length ns \<and>
     uint p = uint (nth_base i) + reach (b, d, w, k) \<and> f = mem_foot p (width_bytes w))"
| "foot_at ns _ f \<longleftrightarrow> False"

definition cell_at :: "expr \<times> int \<times> width \<times> int \<Rightarrow> mem_cell" where
  "cell_at p = (case p of (b, d, w, k) \<Rightarrow> \<lparr>addr_base = b, addr_off = d, mc_width = w, mc_value = Const 0, mc_delta = k\<rparr>)"

fun atom_apart :: "atom \<Rightarrow> atom \<Rightarrow> bool" where
  "atom_apart (Atom_Reg r _) (Atom_Reg r' _) \<longleftrightarrow> r \<noteq> r'"
| "atom_apart (Atom_Mem b d w _ k) (Atom_Mem b' d' w' _ k') \<longleftrightarrow> apart (cell_at (b, d, w, k)) (cell_at (b', d', w', k'))"
| "atom_apart _ _ \<longleftrightarrow> True"

lemma place_cell_at [simp]: "place (cell_at p) = p"
  by (cases p) (simp add: place_def cell_at_def)

lemma near_sat_atom:
  assumes near: "near_atom vars a" and vars: "set vars \<subseteq> dom (map_of env)"
    and ns: "\<And>i. i < length ns \<Longrightarrow> map_of env (ns ! i) = Some (nth_base i)" "length ns < 2 ^ 30"
    and root: "\<And>e n. e \<in> set (addr_exprs [a]) \<Longrightarrow> root_var e = Some n \<Longrightarrow> n \<in> set ns"
  shows "\<exists>x. sat_atom s env a = Ok x \<and> foot_at ns a (fst (snd x))"
proof (cases a)
  case (Atom_Reg r v)
  then obtain n where "v = InitReg n" "n \<in> set vars" using near by (auto simp: near_atom_def split: expr.splits)
  then show ?thesis using vars by (auto simp: Atom_Reg sat_atom_def eval_or_fail_def)
next
  case (Atom_Mem b d w v k)
  then obtain m where m: "v = InitMem m" "m \<in> set vars" and np: "near_place (b, d, w, k)"
    using near by (auto simp: near_atom_def split: expr.splits)
  then obtain n j where v: "var_disp b = Some (n, j)" by (auto simp: near_place_def split: option.splits)
  then have "n \<in> set ns" using root root_var_disp by (simp add: Atom_Mem addr_exprs_def)
  then obtain i where i: "i < length ns" "ns ! i = n" by (metis in_set_conv_nth)
  obtain base p where p: "eval_expr b env = Some base" "eff base d k = Ok p" "uint p = uint (nth_base i) + reach (b, d, w, k)"
    using near_eff [OF np v] ns i by force
  obtain x where "map_of env m = Some x" using m(2) vars by auto
  then have "sat_atom s env a = Ok (cell_ctor w @ '' '' @ digits (unat p) @ '' '' @ digits (unat x), mem_foot p (width_bytes w), [])"
    using p(1,2) m(1) by (simp add: Atom_Mem sat_atom_def eval_or_fail_def)
  moreover have "foot_at ns a (mem_foot p (width_bytes w))" using v i p(3) by (auto simp: Atom_Mem)
  ultimately show ?thesis by auto
qed (use near in \<open>simp_all add: near_atom_def\<close>)

lemma mem_feet_clear:
  assumes p: "uint p + wbytes w < 2 ^ 63" "uint p' + wbytes w' < 2 ^ 63"
    and apart: "uint p + wbytes w \<le> uint p' \<or> uint p' + wbytes w' \<le> uint p"
  shows "check_pair (mem_foot p (width_bytes w)) () (mem_foot p' (width_bytes w')) = Ok ()"
proof -
  have w: "unat (word_of_nat (width_bytes v) :: u64) = width_bytes v" for v by (rule width_bytes_word)
  have u: "int (unat q) = uint q" for q :: u64 by simp
  have ca: "checked_add q (word_of_nat (width_bytes v)) = Some (q + word_of_nat (width_bytes v)) \<and>
      uint (q + word_of_nat (width_bytes v)) = uint q + wbytes v" if "uint q + wbytes v < 2 ^ 63" for q :: u64 and v
  proof -
    have "int (unat q + width_bytes v) < 2 ^ 64" using that by (simp add: wbytes_width(1))
    then have l: "unat q + width_bytes v < 2 ^ 64" by (metis of_nat_less_iff of_nat_numeral of_nat_power)
    then have "unat (q + word_of_nat (width_bytes v)) = unat q + width_bytes v" by (simp add: unat_word_ariths w)
    then have "uint (q + word_of_nat (width_bytes v)) = uint q + int (width_bytes v)" by (metis of_nat_add u)
    then show ?thesis using l by (simp add: checked_add_def w wbytes_width(1))
  qed
  have "mem_clash (mem_foot p (width_bytes w)) (mem_foot p' (width_bytes w')) = Ok False"
    using apart ca [OF p(1)] ca [OF p(2)] by (auto simp: mem_clash_def mem_foot_def word_less_def)
  then show ?thesis by (simp add: check_pair_def mem_foot_def)
qed

lemma feet_clear:
  assumes "near_atom vars a" "near_atom vars a'" "foot_at ns a f" "foot_at ns a' f'" "atom_apart a a'" "distinct ns" "length ns < 2 ^ 30"
  shows "check_pair f () f' = Ok ()"
proof -
  consider (mm) b d w v k b' d' w' v' k' where "a = Atom_Mem b d w v k" "a' = Atom_Mem b' d' w' v' k'"
    | (other) "ft_mem f = None \<or> ft_mem f' = None" "ft_reg f = None \<or> ft_reg f' = None \<or> ft_reg f \<noteq> ft_reg f'" "\<not> ft_cs f"
    using assms(1-5) by (cases a; cases a') (auto simp: mem_foot_def near_atom_def)
  then show ?thesis
  proof cases
    case mm
    let ?P = "(b, d, w, k)" and ?P' = "(b', d', w', k')"
    have np: "near_place ?P" "near_place ?P'" using assms(1,2) by (auto simp: mm near_atom_def split: expr.splits)
    obtain i p j i' p' j' where f: "var_disp b = Some (ns ! i, j)" "i < length ns" "uint p = uint (nth_base i) + reach ?P"
        "f = mem_foot p (width_bytes w)" "var_disp b' = Some (ns ! i', j')" "i' < length ns"
        "uint p' = uint (nth_base i') + reach ?P'" "f' = mem_foot p' (width_bytes w')"
      using assms(3,4) by (auto simp: mm)
    have B: "uint (nth_base i) = 0x400000000 + int i * 0x10000000" "uint (nth_base i') = 0x400000000 + int i' * 0x10000000"
      using f(2,6) assms(7) by (simp_all add: nth_base_uint)
    have r: "- (2 ^ 27) < reach ?P" "reach ?P + 8 < 2 ^ 27" "- (2 ^ 27) < reach ?P'" "reach ?P' + 8 < 2 ^ 27"
      using near_reach [OF np(1)] near_reach [OF np(2)] by auto
    have wb: "wbytes x \<le> 8" for x by (cases x) (simp_all add: wbytes_def)
    have ap: "apart (cell_at ?P) (cell_at ?P')" using assms(5) by (simp add: mm)
    have "footprint (cell_at ?P) = (ns ! i, reach ?P, reach ?P + wbytes w)"
      "footprint (cell_at ?P') = (ns ! i', reach ?P', reach ?P' + wbytes w')"
      using near_footprint [of "cell_at ?P"] near_footprint [of "cell_at ?P'"] np f(1,5) by (simp_all add: cell_at_def place_def)
    then have split: "ns ! i \<noteq> ns ! i' \<or> reach ?P + wbytes w \<le> reach ?P' \<or> reach ?P' + wbytes w' \<le> reach ?P"
      using ap by (simp add: apart_def)
    have "uint p + wbytes w \<le> uint p' \<or> uint p' + wbytes w' \<le> uint p"
    proof (cases "i = i'")
      case True
      then show ?thesis using split f(3,7) by auto
    next
      case False
      then have "i + 1 \<le> i' \<or> i' + 1 \<le> i" by auto
      then show ?thesis using r wb [of w] wb [of w'] unfolding f(3,7) B by fastforce
    qed
    moreover have "uint p + wbytes w < 2 ^ 63" "uint p' + wbytes w' < 2 ^ 63"
      using r wb [of w] wb [of w'] f(2,6) assms(7) unfolding f(3,7) B by auto
    ultimately show ?thesis unfolding f(4,8) by (intro mem_feet_clear)
  qed (auto simp: check_pair_def mem_clash_def split: option.split)
qed

subsection \<open>The check passes\<close>

lemma sorted_places:
  assumes "sorted_wrt apart (map cell_at (atom_places as))" "distinct (map fst (reg_atoms as))"
  shows "sorted_wrt atom_apart as"
  using assms
proof (induction as)
  case (Cons a as)
  have p: "atom_places (a # as) = atom_places [a] @ atom_places as" "reg_atoms (a # as) = reg_atoms [a] @ reg_atoms as"
    by (metis append_Cons append_Nil atom_places_append reg_atoms_append)+
  have mem: "(b, d, w, k) \<in> set (atom_places as)" if "Atom_Mem b d w v k \<in> set as" for b d w v k
    using split_list [OF that] by (metis append_Cons append_Nil atom_places_append atom_places_simps(3) in_set_conv_decomp)
  have reg: "r \<in> set (map fst (reg_atoms as))" if "Atom_Reg r v \<in> set as" for r v
    using split_list [OF that]
    by (metis append_Cons append_Nil reg_atoms_append reg_atoms_simps(2) in_set_conv_decomp map_append list.simps(9) fst_conv)
  have "atom_apart a a'" if "a' \<in> set as" for a'
    using Cons.prems mem reg that unfolding p by (cases a; cases a') (fastforce simp: sorted_wrt_append)+
  moreover have "sorted_wrt atom_apart as" using Cons unfolding p by (auto simp: sorted_wrt_append)
  ultimately show ?case by simp
qed simp

lemma check_feet_sorted: "sorted_wrt (\<lambda>f f'. check_pair f () f' = Ok ()) fs \<Longrightarrow> check_feet fs = Ok ()"
proof (induction fs)
  case (Cons f fs)
  have "\<forall>f' \<in> set gs. check_pair f () f' = Ok () \<Longrightarrow> foldM (check_pair f) () gs = Ok ()" for gs
    by (induction gs) auto
  then show ?case using Cons by simp
qed simp

lemma sat_atoms_total:
  "\<forall>a \<in> set as. \<exists>x. sat_atom s env a = Ok x \<and> P a (fst (snd x)) \<Longrightarrow>
   \<exists>xs. foldM (\<lambda>acc a. bind_res (sat_atom s env a) (\<lambda>x. Ok (acc @ [x]))) acc as = Ok (acc @ xs) \<and>
     list_all2 (\<lambda>a x. P a (fst (snd x))) as xs"
proof (induction as arbitrary: acc)
  case (Cons a as)
  then obtain x where x: "sat_atom s env a = Ok x" "P a (fst (snd x))" by auto
  obtain xs where "foldM (\<lambda>acc a. bind_res (sat_atom s env a) (\<lambda>x. Ok (acc @ [x]))) (acc @ [x]) as = Ok ((acc @ [x]) @ xs)"
    "list_all2 (\<lambda>a x. P a (fst (snd x))) as xs" using Cons by fastforce
  then show ?case using x by (intro exI [of _ "x # xs"]) simp
qed simp

lemma near_feet_pass:
  assumes near: "list_all (near_atom vars) as" and apart: "sorted_wrt atom_apart as"
    and ns: "distinct ns" "length ns < 2 ^ 30" and feet: "list_all2 (\<lambda>a x. foot_at ns a (fst (snd x))) as xs"
  shows "check_feet (map (fst \<circ> snd) xs @ (if c then [\<lparr>ft_mem = None, ft_reg = None, ft_cs = True\<rparr>] else [])) = Ok ()"
proof -
  have len: "length as = length xs" using feet by (rule list_all2_lengthD)
  have "check_pair (fst (snd (xs ! i))) () (fst (snd (xs ! j))) = Ok ()" if "i < j" "j < length xs" for i j
    using feet_clear [of vars "as ! i" "as ! j" ns] near ns feet that len sorted_wrt_nth_less [OF apart that(1)]
    by (simp add: list_all_length list_all2_conv_all_nth)
  then have pairs: "sorted_wrt (\<lambda>f f'. check_pair f () f' = Ok ()) (map (fst \<circ> snd) xs)"
    by (simp add: sorted_wrt_iff_nth_less)
  have "\<not> ft_cs (fst (snd (xs ! i)))" if "i < length xs" for i
  proof -
    have "foot_at ns (as ! i) (fst (snd (xs ! i)))" using feet that by (simp add: list_all2_conv_all_nth)
    then show ?thesis by (cases "as ! i") (auto simp: mem_foot_def)
  qed
  then have "\<forall>f \<in> set (map (fst \<circ> snd) xs). \<not> ft_cs f" by (simp add: all_set_conv_all_nth)
  then have "\<forall>f \<in> set (map (fst \<circ> snd) xs). check_pair f () \<lparr>ft_mem = None, ft_reg = None, ft_cs = True\<rparr> = Ok ()"
    by (auto simp: check_pair_def mem_clash_def split: option.splits)
  then show ?thesis using pairs by (intro check_feet_sorted) (auto simp: sorted_wrt_append)
qed

lemma near_mem: "near_atom vars (Atom_Mem b d w v k) \<Longrightarrow> near_place (b, d, w, k)"
  by (cases v) (simp_all add: near_atom_def)

lemma near_addr:
  assumes "near_atom vars a" "e \<in> set (addr_exprs [a])"
  shows "\<exists>n j. var_disp e = Some (n, j)"
proof (cases a)
  case (Atom_Mem b d w v k)
  then have "near_place (e, d, w, k)" using assms near_mem by (simp add: addr_exprs_def)
  then show ?thesis by (cases "var_disp e") (auto simp: near_place_def)
next
  case (Atom_Reg r v)
  then show ?thesis using assms(2) by (simp add: addr_exprs_def)
qed (use assms(1) in \<open>simp_all add: near_atom_def\<close>)

lemma addr_exprs_set: "set (addr_exprs as) = (\<Union>a \<in> set as. set (addr_exprs [a]))"
proof (induction as)
  case (Cons a as)
  have "addr_exprs (a # as) = addr_exprs [a] @ addr_exprs as" unfolding addr_exprs_def by simp
  then show ?case using Cons by simp
qed (simp add: addr_exprs_def)

lemma near_witness:
  assumes near: "list_all (near_atom vars) as" and apart: "sorted_wrt atom_apart as" and len: "length as < 2 ^ 30"
  obtains env xs where "sat_env as vars = Ok env" "sat_atoms s env as = Ok xs" "check_feet (map (fst \<circ> snd) xs) = Ok ()"
    "\<And>e. e \<in> set (addr_exprs as) \<Longrightarrow> eval_expr e env \<noteq> None"
proof -
  have roots: "\<exists>n j. var_disp e = Some (n, j)" if "e \<in> set (addr_exprs as)" for e
  proof -
    have "e \<in> (\<Union>a \<in> set as. set (addr_exprs [a]))" using that by (simp only: addr_exprs_set [of as])
    then obtain a where a: "a \<in> set as" "e \<in> set (addr_exprs [a])" by (rule UN_E)
    moreover have "near_atom vars a" using near a(1) by (simp add: list_all_iff)
    ultimately show ?thesis using near_addr by metis
  qed
  have el: "length (addr_exprs as) \<le> length as" unfolding addr_exprs_def by (induction as) (auto split: atom.split)
  have "\<forall>e \<in> set (addr_exprs as). root_var e \<noteq> None" using roots root_var_disp by fastforce
  then obtain env ns where env: "sat_env as vars = Ok env" "distinct ns" "length ns \<le> length (addr_exprs as)"
    "\<And>i. i < length ns \<Longrightarrow> map_of env (ns ! i) = Some (nth_base i)"
    "\<And>e n. e \<in> set (addr_exprs as) \<Longrightarrow> root_var e = Some n \<Longrightarrow> n \<in> set ns" "set vars \<subseteq> dom (map_of env)"
    by (rule sat_env_vars [where vars = vars]) blast
  have l: "length ns < 2 ^ 30" using env(3) el len by simp
  have "\<forall>a \<in> set as. \<exists>x. sat_atom s env a = Ok x \<and> foot_at ns a (fst (snd x))"
  proof
    fix a assume a: "a \<in> set as"
    then have "set (addr_exprs [a]) \<subseteq> set (addr_exprs as)" by (simp only: addr_exprs_set [of as]) (rule UN_upper)
    then have "n \<in> set ns" if "e \<in> set (addr_exprs [a])" "root_var e = Some n" for e n using that env(5) by blast
    moreover have "near_atom vars a" using near a by (simp add: list_all_iff)
    ultimately show "\<exists>x. sat_atom s env a = Ok x \<and> foot_at ns a (fst (snd x))"
      using near_sat_atom [OF _ env(6,4) l] by metis
  qed
  from sat_atoms_total [OF this, of "[]"] obtain xs where
    xs: "foldM (\<lambda>acc a. bind_res (sat_atom s env a) (\<lambda>x. Ok (acc @ [x]))) [] as = Ok xs"
      "list_all2 (\<lambda>a x. foot_at ns a (fst (snd x))) as xs" by auto
  let ?cs = "\<lparr>ft_mem = None, ft_reg = None, ft_cs = True\<rparr>"
  have "sat_atoms s env as = Ok (xs @ (if saw_call s then [(''.callStack []'', ?cs, [])] else []))"
    using xs(1) by (simp add: sat_atoms_def)
  moreover have "check_feet (map (fst \<circ> snd) (xs @ (if saw_call s then [(''.callStack []'', ?cs, [])] else []))) = Ok ()"
    using near_feet_pass [OF near apart env(2) l xs(2), of "saw_call s"] by (cases "saw_call s") simp_all
  moreover have "eval_expr e env \<noteq> None" if e: "e \<in> set (addr_exprs as)" for e
  proof -
    obtain n j where v: "var_disp e = Some (n, j)" using roots [OF e] by blast
    then have "n \<in> set ns" using env(5) e root_var_disp by blast
    then obtain i where "i < length ns" "ns ! i = n" by (metis in_set_conv_nth)
    then show ?thesis using var_disp_eval [OF v] env(4) by auto
  qed
  ultimately show ?thesis using that env(1) by blast
qed

lemma param_vals_total:
  "list_all (\<lambda>a. \<exists>e v. map_of pe (fst a) = Some e \<and> eval_expr e env = Some v) abstractions \<Longrightarrow>
   \<exists>m'. foldM (param_val pe env) m abstractions = Ok m' \<and> fst ` set abstractions \<subseteq> dom (map_of m') \<and> dom (map_of m) \<subseteq> dom (map_of m')"
proof (induction abstractions arbitrary: m)
  case (Cons a as)
  then obtain e v where e: "map_of pe (fst a) = Some e" "eval_expr e env = Some v" by auto
  then have "param_val pe env m a = Ok (bt_insert (fst a) v m)" by (simp add: param_val_def)
  moreover have "list_all (\<lambda>a. \<exists>e v. map_of pe (fst a) = Some e \<and> eval_expr e env = Some v) as" using Cons.prems by simp
  from Cons.IH [OF this, of "bt_insert (fst a) v m"] obtain m' where
    "foldM (param_val pe env) (bt_insert (fst a) v m) as = Ok m'" "fst ` set as \<subseteq> dom (map_of m')"
    "dom (map_of (bt_insert (fst a) v m)) \<subseteq> dom (map_of m')" by blast
  ultimately show ?case by (simp add: subset_iff)
qed simp

lemma sat_guards_total:
  "fst ` set abstractions \<subseteq> dom (map_of m) \<Longrightarrow> length abstractions \<le> length rhs \<Longrightarrow> \<exists>t. sat_guards m sub abstractions rhs = Ok t"
proof (induction abstractions arbitrary: rhs)
  case (Cons a as)
  then obtain r rs where rhs: "rhs = r # rs" by (cases rhs) auto
  obtain v where "map_of m (fst a) = Some v" using Cons.prems(1) by auto
  moreover obtain t where "sat_guards m sub as rs = Ok t" using Cons.IH [of rs] Cons.prems rhs by auto
  ultimately show ?case by (simp add: rhs)
qed simp

lemma param_exprs_addr: "map_of (param_exprs subst as) p = Some e \<Longrightarrow> e \<in> set (addr_exprs as)"
proof (induction as arbitrary: p e rule: rev_induct)
  case (snoc a as)
  have "addr_exprs (as @ [a]) = addr_exprs as @ addr_exprs [a]" by (simp add: addr_exprs_def)
  then show ?case using snoc
    by (cases a) (auto simp: param_exprs_def addr_exprs_def map_of_or_insert split: option.splits if_splits)
qed (simp add: param_exprs_def)

text \<open>The names an abstraction needs: each parameter folds the base of some memory atom.\<close>

definition abstractions_ok :: "atom list \<Rightarrow> folds \<Rightarrow> abstraction list \<Rightarrow> bool" where
  "abstractions_ok as abs_subst abstractions \<longleftrightarrow>
     list_all (\<lambda>a. map_of (param_exprs abs_subst as) (fst a) \<noteq> None) abstractions"

lemma build_near_witness:
  assumes near: "list_all (near_atom vars) as" and apart: "sorted_wrt atom_apart as" and len: "length as < 2 ^ 30"
    and abs: "abstractions_ok as abs_subst abstractions" "length abstractions \<le> length folded_rhs"
  shows "\<exists>out. build_sat_witness as s abstractions abs_subst folded_rhs vars = Ok out"
proof -
  obtain env xs where w: "sat_env as vars = Ok env" "sat_atoms s env as = Ok xs" "check_feet (map (fst \<circ> snd) xs) = Ok ()"
    "\<And>e. e \<in> set (addr_exprs as) \<Longrightarrow> eval_expr e env \<noteq> None" using near_witness [OF near apart len, of s] by metis
  have "list_all (\<lambda>a. \<exists>e v. map_of (param_exprs abs_subst as) (fst a) = Some e \<and> eval_expr e env = Some v) abstractions"
    using abs(1) w(4) param_exprs_addr by (fastforce simp: abstractions_ok_def list_all_iff)
  then obtain m where m: "foldM (param_val (param_exprs abs_subst as) env) [] abstractions = Ok m" "fst ` set abstractions \<subseteq> dom (map_of m)"
    using param_vals_total [of _ env abstractions "[]"] by blast
  have "\<exists>t. sat_guards m sub abstractions folded_rhs = Ok t" for sub
    using sat_guards_total [OF m(2) abs(2)] .
  then obtain g where "\<And>sub. sat_guards m sub abstractions folded_rhs = Ok (g sub)" by metis
  then show ?thesis using w m by (simp add: build_sat_witness_def Let_def)
qed

subsection \<open>Properties\<close>

text \<open>C6: The ledger is strong enough for the emitter.  After a finished walk that dispatched no syscall,
  if every cell is addressed from a variable by less than \<open>2 ^ 26\<close> and carries its initial value's name,
  and every abstraction folds the base of a cell, then \<open>build_sat_witness\<close> succeeds: none of its checks,
  the overlap check included, can refuse the precondition of a walk the ledger passed.\<close>

theorem ledger_gives_witness:
  assumes "walk_and_exec ctx opts = Ok r" "offsets_ok ctx" "syscall_pcs (wr_state r) = []"
    and "list_all (near_atom vars) (pre (wr_state r))" "length (pre (wr_state r)) < 2 ^ 30"
    and "abstractions_ok (pre (wr_state r)) abs_subst abstractions" "length abstractions \<le> length folded_rhs"
  shows "\<exists>out. build_sat_witness (pre (wr_state r)) (wr_state r) abstractions abs_subst folded_rhs vars = Ok out"
proof -
  let ?s = "wr_state r"
  have ok: "state_ok ?s" "overlap_errors ?s = []"
    using walk_retry_ok [of ctx opts 8 "[]" "[]" r] walk_pass_ok [of ctx opts _ _ r] assms(1,2) by (auto simp: walk_and_exec_def)
  then have l: "atom_places (pre ?s) = map place (mem ?s)" "sorted_wrt apart (mem ?s)" "distinct (map fst (reg_atoms (pre ?s)))"
    using assms(3) by (auto simp: state_ok_def ledger_ok_def regs_ok_def)
  have "map place (map cell_at (map place (mem ?s))) = map place (mem ?s)" by simp
  then have "sorted_wrt apart (map cell_at (atom_places (pre ?s)))" using cells_place(2) l(1,2) by metis
  then have "sorted_wrt atom_apart (pre ?s)" using l(3) by (rule sorted_places)
  then show ?thesis using build_near_witness [OF assms(4) _ assms(5-7)] by blast
qed

text \<open>The precondition of the sample walk: three registers and the eight bytes around the first load.\<close>

definition sample_pre :: "atom list" where
  "sample_pre = [Atom_Reg 1 (InitReg ''baseAddr''), Atom_Mem (InitReg ''baseAddr'') 3 Byte (InitMem ''oldMemB_0'') 0,
     Atom_Reg 3 (InitReg ''vR3Old'')] @
     map (\<lambda>(k, m). Atom_Mem (InitReg ''baseAddr'') 0 Byte (InitMem m) k)
       [(0, ''oldMemB_1''), (1, ''oldMemB_2''), (2, ''oldMemB_3''), (4, ''oldMemB_4''), (5, ''oldMemB_5''), (6, ''oldMemB_6''), (7, ''oldMemB_7'')] @
     [Atom_Reg 2 (InitReg ''vR2Old'')]"

definition sample_vars :: "string list" where
  "sample_vars = [''baseAddr'', ''oldMemB_0'', ''oldMemB_1'', ''oldMemB_2'', ''oldMemB_3'', ''oldMemB_4'', ''oldMemB_5'',
     ''oldMemB_6'', ''oldMemB_7'', ''vR2Old'', ''vR3Old'']"

theorem ledger_gives_witness_witness:
  "\<exists>r out. walk_and_exec sample_ctx (sample_options None) = Ok r \<and>
     build_sat_witness sample_pre (wr_state r) [] [] [] sample_vars = Ok out"
proof -
  have "case walk_and_exec sample_ctx (sample_options None) of Ok r \<Rightarrow> pre (wr_state r) = sample_pre \<and> syscall_pcs (wr_state r) = [] | _ \<Rightarrow> False"
    by code_simp
  then obtain r where r: "walk_and_exec sample_ctx (sample_options None) = Ok r" "pre (wr_state r) = sample_pre" "syscall_pcs (wr_state r) = []"
    by (auto split: res.splits)
  have o: "offsets_ok sample_ctx" by code_simp
  have n: "list_all (near_atom sample_vars) sample_pre"
    by (simp add: sample_pre_def sample_vars_def near_atom_def near_place_def off_ok_def)
  have l: "length sample_pre < 2 ^ 30" by (simp add: sample_pre_def)
  from ledger_gives_witness [OF r(1) o r(3), unfolded r(2), OF n l, of "[]" "[]" "[]"] r(1) show ?thesis by (auto simp: abstractions_ok_def)
qed

end
