(* ===== verification/Path_Graph.thy ===== *)
theory Path_Graph
  imports Cfg Isa
begin

text \<open>
  The static successor graph of the success-proof tools (\<open>Graph\<close> of \<open>qed-analysis/src/success_proofs.rs\<close> and the
  path queries of \<open>discover/dispatch.rs\<close>): reachability with stop addresses, the guards every path to an edge
  passes, whether a path to an edge can go through a cycle, and whether a set of branch sides cuts every
  path.  A vector of flags is the set of its true indices; an index out of range is a panic.
\<close>

subsection \<open>The graph\<close>

record path_graph =
  pg_succ :: "nat list list"
  pg_pred :: "nat list list"

definition path_succ :: "nat list \<Rightarrow> nat \<Rightarrow> flow \<Rightarrow> (string, nat list) res" where
  "path_succ noret pc f = (case f of
      FCall t \<Rightarrow> Ok (if t \<in> set noret then [] else [pc + 1])
    | FExit \<Rightarrow> Ok []
    | FCallReg \<Rightarrow> Ok []
    | Jump t \<Rightarrow> Ok [t]
    | Branch t \<Rightarrow> Ok [t, pc + 1]
    | Unresolved \<Rightarrow> Err (''unresolved flow at PC '' @ digits pc)
    | _ \<Rightarrow> Ok [pc + 1])"

primrec collect_res :: "('a \<Rightarrow> ('e, 'b) res) \<Rightarrow> 'a list \<Rightarrow> ('e, 'b list) res" where
  "collect_res f [] = Ok []"
| "collect_res f (x # xs) = bind_res (f x) (\<lambda>y. bind_res (collect_res f xs) (\<lambda>ys. Ok (y # ys)))"

definition succ_rows :: "flow list \<Rightarrow> nat list \<Rightarrow> (string, nat list list) res" where
  "succ_rows fl noret =
     collect_res (\<lambda>(pc, f). path_succ noret pc f) (List.enumerate 0 fl)"

definition add_pred :: "nat \<Rightarrow> nat list list \<Rightarrow> nat \<Rightarrow> (string, nat list list) res" where
  "add_pred pc pred t =
     (if t \<ge> length pred then Err (''out-of-bounds successor '' @ digits pc @ '' -> '' @ digits t)
      else Ok (pred[t := pred ! t @ [pc]]))"

definition pred_rows :: "nat list list \<Rightarrow> (string, nat list list) res" where
  "pred_rows rows = foldM (\<lambda>pred (pc, ts). foldM (add_pred pc) pred ts) (replicate (length rows) []) (List.enumerate 0 rows)"

definition graph_new :: "cfg \<Rightarrow> nat list \<Rightarrow> (string, path_graph) res" where
  "graph_new c noret =
     bind_res (succ_rows (flows c) noret) (\<lambda>rows.
     bind_res (pred_rows rows) (\<lambda>pred.
     Ok \<lparr>pg_succ = rows, pg_pred = pred\<rparr>))"

subsection \<open>Queries\<close>

definition rows_graph :: "nat list list \<Rightarrow> (nat \<Rightarrow> nat list \<Rightarrow> nat list) \<Rightarrow> graph" where
  "rows_graph rows keep = map (\<lambda>(pc, ts). (pc, keep pc ts)) (List.enumerate 0 rows)"

definition flags :: "(unit, nat set) res \<Rightarrow> (string, nat set) res" where
  "flags = map_err (\<lambda>_. [])"

definition reach :: "path_graph \<Rightarrow> nat \<Rightarrow> nat list \<Rightarrow> bool \<Rightarrow> (string, nat set) res" where
  "reach g from0 stops backward =
     flags (explore True (rows_graph (if backward then pg_pred g else pg_succ g)
       (\<lambda>pc ts. if pc \<in> set stops then [] else ts)) {} [from0])"

record guard =
  gd_pc :: nat
  gd_on :: nat

definition is_branch :: "flow \<Rightarrow> bool" where
  "is_branch f = (case f of Branch t \<Rightarrow> True | _ \<Rightarrow> False)"

definition guard_at :: "path_graph \<Rightarrow> cfg \<Rightarrow> nat \<Rightarrow> nat \<Rightarrow> nat set \<Rightarrow> nat set \<Rightarrow> guard list \<Rightarrow> nat \<Rightarrow> (string, guard list) res" where
  "guard_at g c from0 tgt back forward gs pc =
     (if pc = tgt \<or> pc \<notin> back \<or> pc \<notin> forward \<or> \<not> is_branch (flows c ! pc) then Ok gs
      else let on = filter (\<lambda>q. q \<in> back) (pg_succ g ! pc) in
        if length on = 1 then bind_res (reach g from0 [pc] False) (\<lambda>cut.
          Ok (if tgt \<notin> cut then gs @ [\<lparr>gd_pc = pc, gd_on = on ! 0\<rparr>] else gs))
        else Ok gs)"

definition guards :: "path_graph \<Rightarrow> cfg \<Rightarrow> nat \<Rightarrow> nat \<Rightarrow> (string, guard list) res" where
  "guards g c from0 tgt =
     bind_res (reach g tgt [] True) (\<lambda>back.
     bind_res (reach g from0 [] False) (\<lambda>forward.
     foldM (guard_at g c from0 tgt back forward) [] [0..<length (pg_succ g)]))"

definition on_path :: "path_graph \<Rightarrow> cfg \<Rightarrow> nat \<Rightarrow> (string, nat set) res" where
  "on_path g c tgt =
     bind_res (reach g (entry c) [] False) (\<lambda>fwd.
     bind_res (reach g tgt [] True) (\<lambda>back. Ok (fwd \<inter> back)))"

definition cut_by :: "path_graph \<Rightarrow> cfg \<Rightarrow> nat \<Rightarrow> (nat \<times> nat) list \<Rightarrow> (string, bool) res" where
  "cut_by g c tgt cuts =
     bind_res (flags (explore True (rows_graph (pg_succ g) (\<lambda>pc ts. filter (\<lambda>q. (pc, q) \<notin> set cuts) ts)) {} [entry c]))
       (\<lambda>seen. Ok (tgt \<notin> seen))"

text \<open>The three colours of the cycle search, and its loop; the top of the stack is the head.\<close>

datatype colour = White | Grey | Black

definition row_of :: "path_graph \<Rightarrow> nat \<Rightarrow> nat list" where
  "row_of g pc = pg_succ g ! pc"

definition stack_work :: "path_graph \<Rightarrow> (nat \<times> nat) list \<Rightarrow> nat" where
  "stack_work g st = sum_list (map (\<lambda>(pc, i). Suc (length (row_of g pc) - i)) st)"

definition whites :: "colour list \<Rightarrow> nat set" where
  "whites color = {q. q < length color \<and> color ! q = White}"

lemma finite_whites [simp]: "finite (whites color)"
  by (rule finite_subset [of _ "{..<length color}"]) (auto simp: whites_def)

lemma whites_mark: "c \<noteq> White \<Longrightarrow> whites (color[q := c]) = whites color - {q}"
  by (auto simp: whites_def) (metis nth_list_update_eq nth_list_update_neq)+

function dfs :: "path_graph \<Rightarrow> nat set \<Rightarrow> colour list \<Rightarrow> (nat \<times> nat) list \<Rightarrow> bool" where
  "dfs g on color [] = False"
| "dfs g on color ((pc, i) # st) =
     (if i < length (row_of g pc) then
        (let q = row_of g pc ! i in
         if q < length color \<and> q \<in> on then
           (case color ! q of
              Grey \<Rightarrow> True
            | White \<Rightarrow> dfs g on (color[q := Grey]) ((q, 0) # (pc, i + 1) # st)
            | Black \<Rightarrow> dfs g on color ((pc, i + 1) # st))
         else dfs g on color ((pc, i + 1) # st))
      else dfs g on (color[pc := Black]) st)"
  by pat_completeness auto

termination
proof (relation "measures [\<lambda>(g, on, color, st). card (whites color), \<lambda>(g, on, color, st). stack_work g st]", goal_cases)
  case (2 g on color pc i st q)
  have "q \<in> whites color" using 2 by (auto simp: whites_def)
  then have "card (whites color - {q}) < card (whites color)" by (intro card_Diff1_less) simp_all
  then show ?case using 2 by (simp add: whites_mark)
next
  case (5 g on color pc i st)
  have "card (whites (color[pc := Black])) \<le> card (whites color)" by (simp add: whites_mark card_mono)
  then show ?case by (auto simp: stack_work_def)
qed (auto simp: stack_work_def)

declare dfs.simps [simp del]

definition has_cycle :: "path_graph \<Rightarrow> nat set \<Rightarrow> nat \<Rightarrow> (string, bool) res" where
  "has_cycle g on from0 =
     (let n = length (pg_succ g) in
      if from0 < n then Ok (dfs g on ((replicate n White)[from0 := Grey]) [(from0, 0)]) else Panic)"

subsection \<open>Paths\<close>

text \<open>A nonempty list of addresses, each a successor of the one before.\<close>

fun epath :: "(nat \<Rightarrow> nat \<Rightarrow> bool) \<Rightarrow> nat \<Rightarrow> nat \<Rightarrow> nat list \<Rightarrow> bool" where
  "epath E a b [] = False"
| "epath E a b [x] = (x = a \<and> x = b)"
| "epath E a b (x # y # ys) = (x = a \<and> E a y \<and> epath E y b (y # ys))"

definition step_in :: "path_graph \<Rightarrow> nat \<Rightarrow> nat \<Rightarrow> bool" where
  "step_in g a b \<longleftrightarrow> a < length (pg_succ g) \<and> b \<in> set (pg_succ g ! a)"

abbreviation path :: "path_graph \<Rightarrow> nat \<Rightarrow> nat \<Rightarrow> nat list \<Rightarrow> bool" where
  "path g \<equiv> epath (step_in g)"

lemma epath_split: "epath E a c (xs @ b # ys) \<longleftrightarrow> epath E a b (xs @ [b]) \<and> epath E b c (b # ys)"
proof (induction xs arbitrary: a)
  case Nil
  then show ?case by (cases ys) auto
next
  case IH: (Cons x xs)
  show ?case
  proof (cases xs)
    case Nil
    then show ?thesis by (cases ys) auto
  next
    case (Cons y zs)
    then show ?thesis using IH [of y] by simp
  qed
qed

lemma epath_nonempty: "epath E a b xs \<Longrightarrow> xs \<noteq> [] \<and> hd xs = a \<and> last xs = b"
  by (induction E a b xs rule: epath.induct) auto

lemma epath_last: "epath E a b xs \<Longrightarrow> \<exists>ys. xs = ys @ [b]"
  using epath_nonempty by (metis append_butlast_last_id)

lemma epath_first: "epath E a b xs \<Longrightarrow> \<exists>ys. xs = a # ys"
  using epath_nonempty by (metis list.collapse)

lemma epath_edge: "epath E a b (xs @ p # q # ys) \<Longrightarrow> E p q"
  using epath_split [of E a b xs p "q # ys"] by simp

lemma epath_rtranclp: "E\<^sup>*\<^sup>* a b \<longleftrightarrow> (\<exists>xs. epath E a b xs)"
proof
  show "E\<^sup>*\<^sup>* a b \<Longrightarrow> \<exists>xs. epath E a b xs"
  proof (induction rule: converse_rtranclp_induct)
    case base
    have "epath E b b [b]" by simp
    then show ?case by blast
  next
    case (step a x)
    then obtain xs where "epath E x b (x # xs)" using epath_first by metis
    then have "epath E a b (a # x # xs)" using step(1) by simp
    then show ?case by blast
  qed
  have "epath E a b xs \<Longrightarrow> E\<^sup>*\<^sup>* a b" for xs
    by (induction E a b xs rule: epath.induct) (auto intro: converse_rtranclp_into_rtranclp)
  then show "\<exists>xs. epath E a b xs \<Longrightarrow> E\<^sup>*\<^sup>* a b" by blast
qed

lemma epath_mono: "epath E a b xs \<Longrightarrow> (\<And>x y. E x y \<Longrightarrow> F x y) \<Longrightarrow> epath F a b xs"
  by (induction E a b xs rule: epath.induct) auto

subsection \<open>What the graph holds\<close>

lemma collect_res_Ok: "collect_res f xs = Ok ys \<longleftrightarrow> list_all2 (\<lambda>x y. f x = Ok y) xs ys"
  by (induction xs arbitrary: ys) (auto simp: bind_res_eq_Ok list_all2_Cons1)

lemma succ_rows_Ok:
  assumes "succ_rows fl noret = Ok rows"
  shows "length rows = length fl" "pc < length fl \<Longrightarrow> path_succ noret pc (fl ! pc) = Ok (rows ! pc)"
proof -
  have a: "list_all2 (\<lambda>(pc, f) r. path_succ noret pc f = Ok r) (List.enumerate 0 fl) rows"
    using assms by (simp add: succ_rows_def collect_res_Ok case_prod_unfold)
  then show l: "length rows = length fl" by (auto dest: list_all2_lengthD)
  show "path_succ noret pc (fl ! pc) = Ok (rows ! pc)" if "pc < length fl"
    using list_all2_nthD [OF a, of pc] that by (simp add: nth_enumerate_eq)
qed

lemma add_preds:
  "foldM (add_pred pc) pred ts = Ok pred' \<Longrightarrow>
   length pred' = length pred \<and> (\<forall>q \<in> set ts. q < length pred) \<and>
   (\<forall>q < length pred. set (pred' ! q) = set (pred ! q) \<union> {p. p = pc \<and> q \<in> set ts})"
proof (induction ts arbitrary: pred)
  case (Cons t ts)
  have t: "t < length pred"
    by (rule ccontr) (use Cons.prems in \<open>simp add: add_pred_def\<close>)
  then have "add_pred pc pred t = Ok (pred[t := pred ! t @ [pc]])" by (simp add: add_pred_def)
  then have "foldM (add_pred pc) (pred[t := pred ! t @ [pc]]) ts = Ok pred'" using Cons.prems by simp
  from Cons.IH [OF this] show ?case using t by (auto simp: nth_list_update)
qed simp

lemma pred_rows_pairs:
  "foldM (\<lambda>pred (pc, ts). foldM (add_pred pc) pred ts) pred xs = Ok pred' \<Longrightarrow>
   length pred' = length pred \<and> (\<forall>p ts. (p, ts) \<in> set xs \<longrightarrow> (\<forall>q \<in> set ts. q < length pred)) \<and>
   (\<forall>q < length pred. set (pred' ! q) = set (pred ! q) \<union> {p. \<exists>ts. (p, ts) \<in> set xs \<and> q \<in> set ts})"
proof (induction xs arbitrary: pred)
  case (Cons x xs)
  obtain p ts where x: "x = (p, ts)" by fastforce
  with Cons.prems obtain pr where pr: "foldM (add_pred p) pred ts = Ok pr"
    "foldM (\<lambda>pred (pc, ts). foldM (add_pred pc) pred ts) pr xs = Ok pred'" by (auto simp: bind_res_eq_Ok)
  show ?case using add_preds [OF pr(1)] Cons.IH [OF pr(2)] x by auto
qed simp

lemma mem_enumerate: "(i, x) \<in> set (List.enumerate 0 xs) \<longleftrightarrow> i < length xs \<and> x = xs ! i"
  by (auto simp: in_set_enumerate_eq)

text \<open>A graph that was built: its rows are the successors, in range, and \<open>pg_pred\<close> is the converse.\<close>

definition graph_ok :: "path_graph \<Rightarrow> bool" where
  "graph_ok g \<longleftrightarrow> length (pg_pred g) = length (pg_succ g) \<and>
     (\<forall>p q. step_in g p q \<longrightarrow> q < length (pg_succ g)) \<and>
     (\<forall>q < length (pg_succ g). set (pg_pred g ! q) = {p. step_in g p q})"

lemma graph_new_ok:
  assumes "graph_new c noret = Ok g"
  shows "graph_ok g" "succ_rows (flows c) noret = Ok (pg_succ g)"
proof -
  obtain rows pr where r: "succ_rows (flows c) noret = Ok rows" "pred_rows rows = Ok pr" "g = \<lparr>pg_succ = rows, pg_pred = pr\<rparr>"
    using assms by (auto simp: graph_new_def bind_res_eq_Ok)
  then show "succ_rows (flows c) noret = Ok (pg_succ g)" by simp
  from r(2) have p: "foldM (\<lambda>pred (pc, ts). foldM (add_pred pc) pred ts) (replicate (length rows) []) (List.enumerate 0 rows) = Ok pr"
    by (simp add: pred_rows_def)
  show "graph_ok g"
    unfolding graph_ok_def step_in_def r(3) using pred_rows_pairs [OF p] by (auto simp: mem_enumerate)
qed

lemma map_of_rows: "map_of (rows_graph rows keep) a = (if a < length rows then Some (keep a (rows ! a)) else None)"
proof -
  have "rows_graph rows keep = map (\<lambda>a. (a, keep a (rows ! a))) [0..<length rows]"
    by (rule nth_equalityI) (simp_all add: rows_graph_def nth_enumerate_eq)
  then show ?thesis
    by (auto simp: map_of_map_restrict [of "\<lambda>a. keep a (rows ! a)", unfolded comp_def] restrict_map_def)
qed

lemma edge_rows: "edge (rows_graph rows keep) a b \<longleftrightarrow> a < length rows \<and> b \<in> set (keep a (rows ! a))"
  by (simp add: edge_def map_of_rows)

lemma nodes_rows: "nodes (rows_graph rows keep) = {..<length rows}"
  by (auto simp: nodes_map_of map_of_rows split: if_splits)

text \<open>The search over rows whose entries stay in range: it never panics and finds the ends of the paths.\<close>

lemma explore_rows:
  assumes "\<And>a b. a < length rows \<Longrightarrow> b \<in> set (keep a (rows ! a)) \<Longrightarrow> b < length rows" and "s < length rows"
  shows "flags (explore True (rows_graph rows keep) {} [s]) =
    Ok {b. \<exists>xs. epath (\<lambda>a b. a < length rows \<and> b \<in> set (keep a (rows ! a))) s b xs}"
proof -
  let ?G = "rows_graph rows keep" and ?E = "\<lambda>a b. a < length rows \<and> b \<in> set (keep a (rows ! a))"
  obtain S where S: "explore True ?G {} [s] = Ok S"
    using explore_strict [of ?G "[s]" "{}"] assms by (auto simp: edge_rows nodes_rows)
  have e: "edge ?G = ?E" by (intro ext) (simp add: edge_rows)
  have "S = reachable ?G s" by (rule explore_reachable [OF S])
  also have "\<dots> = {b. ?E\<^sup>*\<^sup>* s b}"
  proof -
    have "b < length rows" if "?E\<^sup>*\<^sup>* s b" for b
      using that by (induction rule: rtranclp_induct) (use assms in auto)
    then show ?thesis by (auto simp: reachable_def e nodes_rows)
  qed
  finally show ?thesis unfolding flags_def S by (simp add: epath_rtranclp)
qed

lemma reach_forward:
  assumes "graph_ok g" "s < length (pg_succ g)"
  shows "reach g s stops False = Ok {b. \<exists>xs. epath (\<lambda>a b. a \<notin> set stops \<and> step_in g a b) s b xs}"
proof -
  let ?k = "\<lambda>pc ts. if pc \<in> set stops then [] else ts"
  have e: "(\<lambda>a b. a < length (pg_succ g) \<and> b \<in> set (?k a (pg_succ g ! a))) = (\<lambda>a b. a \<notin> set stops \<and> step_in g a b)"
    by (auto simp: step_in_def fun_eq_iff)
  have r: "b < length (pg_succ g)" if "a < length (pg_succ g)" "b \<in> set (?k a (pg_succ g ! a))" for a b
    using that assms(1) by (auto simp: graph_ok_def step_in_def split: if_splits)
  show ?thesis using explore_rows [of "pg_succ g" ?k s, OF r assms(2)] unfolding e reach_def by simp
qed

lemma reach_all: "graph_ok g \<Longrightarrow> s < length (pg_succ g) \<Longrightarrow> reach g s [] False = Ok {b. \<exists>xs. path g s b xs}"
  by (simp add: reach_forward)

lemma epath_rev: "epath E a b xs \<Longrightarrow> epath (\<lambda>x y. E y x) b a (rev xs)"
proof (induction E a b xs rule: epath.induct)
  case (3 E a b x y ys)
  then have "epath (\<lambda>x y. E y x) b y (rev (y # ys))" "E x y" "x = a" by auto
  then show ?case using epath_split [of "\<lambda>x y. E y x" b a "rev ys" y "[x]"] by simp
qed auto

lemma reach_backward:
  assumes "graph_ok g" "s < length (pg_succ g)"
  shows "reach g s [] True = Ok {b. \<exists>xs. path g b s xs}"
proof -
  have l: "length (pg_pred g) = length (pg_succ g)" using assms(1) by (simp add: graph_ok_def)
  let ?k = "\<lambda>pc ts. if pc \<in> set [] then [] else ts"
  have e: "(\<lambda>a b. a < length (pg_pred g) \<and> b \<in> set (?k a (pg_pred g ! a))) = (\<lambda>a b. step_in g b a)"
    using assms(1) by (fastforce simp: graph_ok_def fun_eq_iff)
  have r: "b < length (pg_pred g)" if "a < length (pg_pred g)" "b \<in> set (?k a (pg_pred g ! a))" for a b
    using that assms(1) by (auto simp: graph_ok_def step_in_def)
  have "flags (explore True (rows_graph (pg_pred g) ?k) {} [s]) =
      Ok {b. \<exists>xs. epath (\<lambda>a b. a < length (pg_pred g) \<and> b \<in> set (?k a (pg_pred g ! a))) s b xs}"
    by (rule explore_rows, erule (1) r, simp add: assms(2) l)
  then have "reach g s [] True = Ok {b. \<exists>xs. epath (\<lambda>a b. step_in g b a) s b xs}"
    by (simp only: e reach_def if_True)
  moreover have "(\<exists>xs. epath (\<lambda>a b. step_in g b a) s b xs) \<longleftrightarrow> (\<exists>xs. path g b s xs)" for b
    using epath_rev [of "\<lambda>a b. step_in g b a" s b] epath_rev [of "step_in g" b s] by blast
  ultimately show ?thesis by simp
qed

subsection \<open>Guards\<close>

lemma epath_avoid:
  "epath (\<lambda>a b. a \<notin> S \<and> E a b) s t xs \<longleftrightarrow> epath E s t xs \<and> set (butlast xs) \<inter> S = {}"
  by (induction E s t xs rule: epath.induct) auto

lemma butlast_in: "epath E a t xs \<Longrightarrow> p \<noteq> t \<Longrightarrow> p \<in> set (butlast xs) \<longleftrightarrow> p \<in> set xs"
  using epath_last by (metis butlast_snoc in_set_conv_decomp set_ConsD set_append Un_iff list.set(1) list.set_intros(1) empty_iff)

lemma split_at: "epath E a t xs \<Longrightarrow> p \<in> set xs \<Longrightarrow> p \<noteq> t \<Longrightarrow> \<exists>ys q zs. xs = ys @ p # q # zs"
  using epath_nonempty by (metis in_set_conv_decomp last_snoc list.exhaust)

lemma foldM_guards:
  assumes "\<And>pc. pc \<in> set pcs \<Longrightarrow> reach g s [pc] False = Ok (without pc)"
  shows "foldM (guard_at g c s t bwd fwd) gs pcs = Ok (gs @ concat (map (\<lambda>pc.
     let on = filter (\<lambda>q. q \<in> bwd) (pg_succ g ! pc) in
     if pc \<noteq> t \<and> pc \<in> bwd \<and> pc \<in> fwd \<and> is_branch (flows c ! pc) \<and> length on = 1 \<and> t \<notin> without pc
     then [\<lparr>gd_pc = pc, gd_on = on ! 0\<rparr>] else []) pcs))"
  using assms by (induction pcs arbitrary: gs) (auto simp: guard_at_def Let_def)

lemma branch_row:
  assumes "graph_new c noret = Ok g" "pc < length (flows c)" "flows c ! pc = Branch b"
  shows "pg_succ g ! pc = [b, pc + 1]"
  using succ_rows_Ok(2) [OF graph_new_ok(2) [OF assms(1)] assms(2)] assms(3) by (simp add: path_succ_def)

lemma step_row: "graph_new c noret = Ok g \<Longrightarrow> step_in g p q \<Longrightarrow> p < length (flows c)"
  using succ_rows_Ok(1) [OF graph_new_ok(2)] by (simp add: step_in_def)

text \<open>The addresses from which the target is reached, those reached, and those reached without passing \<open>pc\<close>.\<close>

definition before :: "path_graph \<Rightarrow> nat \<Rightarrow> nat set" where
  "before g t = {b. \<exists>xs. path g b t xs}"

definition after :: "path_graph \<Rightarrow> nat \<Rightarrow> nat set" where
  "after g s = {b. \<exists>xs. path g s b xs}"

definition after_without :: "path_graph \<Rightarrow> nat \<Rightarrow> nat \<Rightarrow> nat set" where
  "after_without g s pc = {b. \<exists>xs. epath (\<lambda>a b. a \<notin> {pc} \<and> step_in g a b) s b xs}"

definition chosen :: "path_graph \<Rightarrow> cfg \<Rightarrow> nat \<Rightarrow> nat \<Rightarrow> nat \<Rightarrow> guard list" where
  "chosen g c s t pc = (let on = filter (\<lambda>q. q \<in> before g t) (pg_succ g ! pc) in
     if pc \<noteq> t \<and> pc \<in> before g t \<and> pc \<in> after g s \<and> is_branch (flows c ! pc) \<and> length on = 1 \<and> t \<notin> after_without g s pc
     then [\<lparr>gd_pc = pc, gd_on = on ! 0\<rparr>] else [])"

lemma guards_eq:
  assumes "graph_ok g" "length (pg_succ g) = length (flows c)" "s < length (flows c)" "t < length (flows c)"
  shows "guards g c s t = Ok (concat (map (chosen g c s t) [0..<length (flows c)]))"
proof -
  have r: "reach g t [] True = Ok (before g t)" "reach g s [] False = Ok (after g s)" "reach g s [pc] False = Ok (after_without g s pc)" for pc
    using reach_backward [OF assms(1), of t] reach_all [OF assms(1), of s] reach_forward [OF assms(1), of s "[pc]"] assms(2-4)
    by (simp_all add: before_def after_def after_without_def)
  show ?thesis
    using foldM_guards [of "[0..<length (flows c)]" g s "after_without g s" c t "before g t" "after g s" "[]"] r
    by (simp add: guards_def chosen_def [abs_def] assms(2))
qed

lemma chosen_sorted: "sorted_wrt (<) (map gd_pc (concat (map (chosen g c s t) [0..<n])))"
proof -
  have one: "chosen g c s t pc = [] \<or> (\<exists>on. chosen g c s t pc = [\<lparr>gd_pc = pc, gd_on = on\<rparr>])" for pc by (simp add: chosen_def Let_def)
  have "map gd_pc (concat (map (chosen g c s t) pcs)) = filter (\<lambda>pc. chosen g c s t pc \<noteq> []) pcs" for pcs
    by (induction pcs) (use one in fastforce)+
  then show ?thesis by (simp add: sorted_wrt_filter)
qed

lemma unavoidable: "pc \<noteq> t \<Longrightarrow> t \<notin> after_without g s pc \<longleftrightarrow> (\<forall>xs. path g s t xs \<longrightarrow> pc \<in> set xs)"
proof -
  assume "pc \<noteq> t"
  then have "epath (\<lambda>a b. a \<notin> {pc} \<and> step_in g a b) s t xs \<longleftrightarrow> path g s t xs \<and> pc \<notin> set xs" for xs
    using epath_avoid [of "{pc}" "step_in g" s t xs] butlast_in [of "step_in g" s t xs pc] by auto
  then show "t \<notin> after_without g s pc \<longleftrightarrow> (\<forall>xs. path g s t xs \<longrightarrow> pc \<in> set xs)"
    by (simp only: after_without_def mem_Collect_eq) blast
qed

lemma before_suffix: "path g s t (ys @ pc # q # zs) \<Longrightarrow> q \<in> before g t"
  using epath_split [of "step_in g" s t "ys @ [pc]" q zs] by (auto simp: before_def)

text \<open>A branch is chosen exactly when every path passes it and leaves it to the recorded side.\<close>

lemma chosen_guard:
  assumes "graph_new c noret = Ok g" "pc < length (flows c)" "\<lparr>gd_pc = pc, gd_on = on\<rparr> \<in> set (chosen g c s t pc)"
  shows "pc \<noteq> t \<and> (\<exists>b. flows c ! pc = Branch b \<and> b \<noteq> pc + 1) \<and> (\<exists>xs. path g s t xs) \<and>
    (\<forall>xs. path g s t xs \<longrightarrow> pc \<in> set xs \<and> (\<forall>ys q zs. xs = ys @ pc # q # zs \<longrightarrow> q = on))"
proof -
  have l: "pc \<noteq> t" "pc \<in> before g t" "pc \<in> after g s" "t \<notin> after_without g s pc"
    "length (filter (\<lambda>q. q \<in> before g t) (pg_succ g ! pc)) = 1" "on = filter (\<lambda>q. q \<in> before g t) (pg_succ g ! pc) ! 0"
    "is_branch (flows c ! pc)"
    using assms(3) by (auto simp: chosen_def Let_def split: if_splits)
  then obtain b where b: "flows c ! pc = Branch b" by (auto simp: is_branch_def split: flow.splits)
  have row: "pg_succ g ! pc = [b, pc + 1]" by (rule branch_row [OF assms(1,2) b])
  have uniq: "q = on" if "q \<in> before g t" "q \<in> set (pg_succ g ! pc)" for q
    using l(5,6) that unfolding row by (auto split: if_splits)
  have "b \<noteq> pc + 1" using l(5) unfolding row by (auto split: if_splits)
  moreover obtain us vs where us: "path g s pc us" "path g pc t vs" using l(2,3) by (auto simp: before_def after_def)
  moreover have "\<exists>xs. path g s t xs" using epath_rtranclp [of "step_in g"] us by (metis rtranclp_trans)
  moreover have "q = on" if "path g s t (ys @ pc # q # zs)" for ys q zs
    using uniq before_suffix [OF that] epath_edge [OF that] by (simp add: step_in_def)
  ultimately show ?thesis using unavoidable [OF l(1)] l(1,4) b by blast
qed

lemma guard_chosen:
  assumes "graph_new c noret = Ok g" "pc \<noteq> t" "flows c ! pc = Branch b" "b \<noteq> pc + 1" "path g s t xs"
    and all: "\<forall>xs. path g s t xs \<longrightarrow> pc \<in> set xs \<and> (\<forall>ys q zs. xs = ys @ pc # q # zs \<longrightarrow> q = on)"
  shows "pc < length (flows c) \<and> \<lparr>gd_pc = pc, gd_on = on\<rparr> \<in> set (chosen g c s t pc)"
proof -
  have n: "length (pg_succ g) = length (flows c)" using graph_new_ok [OF assms(1)] succ_rows_Ok(1) by blast
  obtain ys q zs where xs: "xs = ys @ pc # q # zs" using split_at assms(2,5) all by metis
  have on: "q = on" using all assms(5) xs by blast
  have parts: "path g s pc (ys @ [pc])" "path g pc t (pc # q # zs)" "step_in g pc q"
    using assms(5) epath_split [of "step_in g" s t ys pc "q # zs"] epath_edge unfolding xs by blast+
  have pc: "pc < length (flows c)" by (rule step_row [OF assms(1) parts(3)])
  have row: "pg_succ g ! pc = [b, pc + 1]" by (rule branch_row [OF assms(1) pc assms(3)])
  have uniq: "q' = on" if q': "q' \<in> before g t" "q' \<in> set (pg_succ g ! pc)" for q'
  proof -
    obtain ws where ws: "path g q' t (q' # ws)" using q'(1) epath_first by (fastforce simp: before_def)
    have "step_in g pc q'" using pc q'(2) n by (simp add: step_in_def)
    then have "path g s t (ys @ pc # q' # ws)"
      using epath_split [of "step_in g" s t ys pc "q' # ws"] parts(1) ws by simp
    then show ?thesis using all by blast
  qed
  have ob: "on \<in> before g t" "on = b \<or> on = pc + 1" using before_suffix assms(5) xs on parts(3) row by (auto simp: step_in_def)
  then have "b \<in> before g t \<longleftrightarrow> b = on" "pc + 1 \<in> before g t \<longleftrightarrow> pc + 1 = on"
    using uniq [of b] uniq [of "pc + 1"] row by force+
  then have "filter (\<lambda>q. q \<in> before g t) (pg_succ g ! pc) = [on]" using ob(2) assms(4) by (elim disjE) (simp_all add: row)
  moreover have "pc \<in> before g t" "pc \<in> after g s" unfolding before_def after_def using parts(1,2) by blast+
  moreover have "t \<notin> after_without g s pc" using unavoidable [OF assms(2)] all by blast
  ultimately show ?thesis using pc assms(2,3) by (simp add: chosen_def is_branch_def)
qed

text \<open>C16: The guards of an edge are the branches no path avoids.  For a graph that was built and two of its
  addresses, \<open>guards\<close> returns, in ascending order, exactly the branches before the edge whose two
  sides differ and for which there is a path, every path passes the branch, and every path leaves it,
  each time, to the recorded side.\<close>

theorem guards_exact:
  assumes "graph_new c noret = Ok g" "s < length (flows c)" "t < length (flows c)"
  shows "\<exists>gs. guards g c s t = Ok gs \<and> sorted_wrt (<) (map gd_pc gs) \<and>
    (\<forall>pc on. \<lparr>gd_pc = pc, gd_on = on\<rparr> \<in> set gs \<longleftrightarrow>
       pc \<noteq> t \<and> (\<exists>b. flows c ! pc = Branch b \<and> b \<noteq> pc + 1) \<and> (\<exists>xs. path g s t xs) \<and>
       (\<forall>xs. path g s t xs \<longrightarrow> pc \<in> set xs \<and> (\<forall>ys q zs. xs = ys @ pc # q # zs \<longrightarrow> q = on)))"
proof -
  have n: "graph_ok g" "length (pg_succ g) = length (flows c)" using graph_new_ok [OF assms(1)] succ_rows_Ok(1) by auto
  have "\<lparr>gd_pc = pc, gd_on = on\<rparr> \<in> set (concat (map (chosen g c s t) [0..<length (flows c)])) \<longleftrightarrow>
      pc < length (flows c) \<and> \<lparr>gd_pc = pc, gd_on = on\<rparr> \<in> set (chosen g c s t pc)" for pc on
    by (auto simp: chosen_def Let_def split: if_splits)
  moreover have "pc < length (flows c) \<and> \<lparr>gd_pc = pc, gd_on = on\<rparr> \<in> set (chosen g c s t pc) \<longleftrightarrow>
       pc \<noteq> t \<and> (\<exists>b. flows c ! pc = Branch b \<and> b \<noteq> pc + 1) \<and> (\<exists>xs. path g s t xs) \<and>
       (\<forall>xs. path g s t xs \<longrightarrow> pc \<in> set xs \<and> (\<forall>ys q zs. xs = ys @ pc # q # zs \<longrightarrow> q = on))" (is "?l \<longleftrightarrow> ?r") for pc on
  proof
    show "?l \<Longrightarrow> ?r" using chosen_guard [OF assms(1)] by (elim conjE)
    show "?r \<Longrightarrow> ?l" by (elim conjE exE) (rule guard_chosen [OF assms(1)])
  qed
  ultimately show ?thesis using guards_eq [OF n assms(2,3)] chosen_sorted
    by (intro exI [of _ "concat (map (chosen g c s t) [0..<length (flows c)])"] conjI allI) (simp_all only:)
qed

text \<open>A branch over an early exit.\<close>

definition skip_cfg :: cfg where
  "skip_cfg = \<lparr>flows = [Branch 2, FExit, Seq, FExit], entry = 0, funs = [], noreturn = {}\<rparr>"

definition skip_graph :: path_graph where
  "skip_graph = \<lparr>pg_succ = [[2, 1], [], [3], []], pg_pred = [[], [0], [0], [2]]\<rparr>"

theorem guards_exact_witness:
  "graph_new skip_cfg [] = Ok skip_graph \<and> guards skip_graph skip_cfg 0 3 = Ok [\<lparr>gd_pc = 0, gd_on = 2\<rparr>] \<and>
    \<not> (\<exists>ys q zs. path skip_graph 0 3 (ys @ 0 # q # zs) \<and> q \<noteq> 2)"
proof -
  have g: "graph_new skip_cfg [] = Ok skip_graph" by code_simp
  have gs: "guards skip_graph skip_cfg 0 3 = Ok [\<lparr>gd_pc = 0, gd_on = 2\<rparr>]" by code_simp
  have n: "0 < length (flows skip_cfg)" "3 < length (flows skip_cfg)" by (simp_all add: skip_cfg_def)
  obtain gs' where a: "guards skip_graph skip_cfg 0 3 = Ok gs'"
    and b: "\<forall>pc on. \<lparr>gd_pc = pc, gd_on = on\<rparr> \<in> set gs' \<longleftrightarrow>
       pc \<noteq> 3 \<and> (\<exists>b. flows skip_cfg ! pc = Branch b \<and> b \<noteq> pc + 1) \<and> (\<exists>xs. path skip_graph 0 3 xs) \<and>
       (\<forall>xs. path skip_graph 0 3 xs \<longrightarrow> pc \<in> set xs \<and> (\<forall>ys q zs. xs = ys @ pc # q # zs \<longrightarrow> q = on))"
    using guards_exact [OF g n] by (elim exE conjE) (rule that)
  have "gs' = [\<lparr>gd_pc = 0, gd_on = 2\<rparr>]" using a gs by simp
  then have "\<lparr>gd_pc = 0, gd_on = 2\<rparr> \<in> set gs'" by simp
  then have "\<forall>xs. path skip_graph 0 3 xs \<longrightarrow> 0 \<in> set xs \<and> (\<forall>ys q zs. xs = ys @ 0 # q # zs \<longrightarrow> q = 2)"
    unfolding b [rule_format] by (elim conjE)
  then have "\<not> (\<exists>ys q zs. path skip_graph 0 3 (ys @ 0 # q # zs) \<and> q \<noteq> 2)" by blast
  then show ?thesis using g gs by blast
qed

subsection \<open>Cuts\<close>

lemma epath_without:
  "epath (\<lambda>a b. (a, b) \<notin> C \<and> E a b) s t xs \<longleftrightarrow> epath E s t xs \<and> (\<forall>ys p q zs. xs = ys @ p # q # zs \<longrightarrow> (p, q) \<notin> C)"
proof (induction E s t xs rule: epath.induct)
  case (3 E s t x y ys)
  have "(\<forall>us p q zs. x # y # ys = us @ p # q # zs \<longrightarrow> (p, q) \<notin> C) \<longleftrightarrow>
      (x, y) \<notin> C \<and> (\<forall>us p q zs. y # ys = us @ p # q # zs \<longrightarrow> (p, q) \<notin> C)" (is "?l \<longleftrightarrow> ?r")
  proof
    assume l: ?l
    have "(x, y) \<notin> C" using l by (metis append_Nil)
    moreover have "(p, q) \<notin> C" if "y # ys = us @ p # q # zs" for us p q zs
      using l that by (metis append_Cons)
    ultimately show ?r by blast
  next
    assume r: ?r
    have "(p, q) \<notin> C" if "x # y # ys = us @ p # q # zs" for us p q zs
      using r that by (cases us) auto
    then show ?l by blast
  qed
  then show ?case using 3 by auto
qed (auto simp: Cons_eq_append_conv)

lemma cut_by_exact:
  assumes "graph_ok g" "entry c < length (pg_succ g)"
  shows "cut_by g c t cuts = Ok (\<forall>xs. path g (entry c) t xs \<longrightarrow> (\<exists>ys p q zs. xs = ys @ p # q # zs \<and> (p, q) \<in> set cuts))"
proof -
  let ?k = "\<lambda>pc. filter (\<lambda>q. (pc, q) \<notin> set cuts)"
  have e: "(\<lambda>a b. a < length (pg_succ g) \<and> b \<in> set (?k a (pg_succ g ! a))) = (\<lambda>a b. (a, b) \<notin> set cuts \<and> step_in g a b)"
    by (auto simp: step_in_def fun_eq_iff)
  have r: "b < length (pg_succ g)" if "a < length (pg_succ g)" "b \<in> set (?k a (pg_succ g ! a))" for a b
    using that assms(1) by (auto simp: graph_ok_def step_in_def)
  have "flags (explore True (rows_graph (pg_succ g) ?k) {} [entry c]) =
      Ok {b. \<exists>xs. epath (\<lambda>a b. a < length (pg_succ g) \<and> b \<in> set (?k a (pg_succ g ! a))) (entry c) b xs}"
    by (rule explore_rows, erule (1) r, rule assms(2))
  then show ?thesis unfolding e cut_by_def by (simp add: epath_without del: explore.simps)
qed

lemma on_path_exact:
  assumes "graph_ok g" "entry c < length (pg_succ g)" "t < length (pg_succ g)"
  shows "on_path g c t = Ok {p. \<exists>ys zs. path g (entry c) t (ys @ p # zs)}"
proof -
  have "(\<exists>xs. path g (entry c) p xs) \<and> (\<exists>xs. path g p t xs) \<longleftrightarrow> (\<exists>ys zs. path g (entry c) t (ys @ p # zs))" for p
    using epath_split [of "step_in g" "entry c" t _ p] epath_last epath_first by metis
  then have "{b. \<exists>xs. path g (entry c) b xs} \<inter> {b. \<exists>xs. path g b t xs} = {p. \<exists>ys zs. path g (entry c) t (ys @ p # zs)}"
    by (intro set_eqI) (simp only: Int_iff mem_Collect_eq)
  then show ?thesis
    using reach_all [OF assms(1,2)] reach_backward [OF assms(1,3)] by (simp only: on_path_def bind_res.simps)
qed

subsection \<open>Cycles\<close>

text \<open>One step of the search: to a successor that is on the path.\<close>

definition hop :: "path_graph \<Rightarrow> nat set \<Rightarrow> nat \<Rightarrow> nat \<Rightarrow> bool" where
  "hop g on a b \<longleftrightarrow> step_in g a b \<and> b \<in> on"

text \<open>The stack is a path of grey addresses; the successors an entry has passed are black or the entry above it.\<close>

fun stack_ok :: "path_graph \<Rightarrow> nat set \<Rightarrow> colour list \<Rightarrow> nat option \<Rightarrow> (nat \<times> nat) list \<Rightarrow> bool" where
  "stack_ok g on color up [] = True"
| "stack_ok g on color up ((p, i) # st) =
     (p < length color \<and> color ! p = Grey \<and> p \<notin> fst ` set st \<and>
      (\<forall>q. up = Some q \<longrightarrow> hop g on p q) \<and>
      (\<forall>j < i. j < length (row_of g p) \<longrightarrow> row_of g p ! j \<in> on \<longrightarrow> color ! (row_of g p ! j) = Black \<or> up = Some (row_of g p ! j)) \<and>
      stack_ok g on color (Some p) st)"

definition black_ok :: "path_graph \<Rightarrow> nat set \<Rightarrow> colour list \<Rightarrow> bool" where
  "black_ok g on color \<longleftrightarrow> (\<forall>p q. p < length color \<and> color ! p = Black \<and> hop g on p q \<longrightarrow> color ! q = Black) \<and>
     (\<forall>p. p < length color \<and> color ! p = Black \<longrightarrow> \<not> (hop g on)\<^sup>+\<^sup>+ p p)"

definition dfs_ok :: "path_graph \<Rightarrow> nat set \<Rightarrow> colour list \<Rightarrow> (nat \<times> nat) list \<Rightarrow> bool" where
  "dfs_ok g on color st \<longleftrightarrow> length color = length (pg_succ g) \<and> stack_ok g on color None st \<and> black_ok g on color \<and>
     (\<forall>p < length color. color ! p = Grey \<longrightarrow> p \<in> fst ` set st)"

lemma recolor: "color[q := c] ! x = (if x = q \<and> q < length color then c else color ! x)"
  by (cases "x = q") (auto simp: list_update_beyond)

lemma stack_recolor:
  assumes "stack_ok g on color up st" "q \<notin> fst ` set st" "color ! q = Black \<longrightarrow> c = Black"
  shows "stack_ok g on (color[q := c]) up st"
  using assms by (induction g on color up st rule: stack_ok.induct) (auto simp: recolor)

lemma stack_grey: "stack_ok g on color up st \<Longrightarrow> x \<in> fst ` set st \<Longrightarrow> color ! x = Grey"
  by (induction g on color up st rule: stack_ok.induct) auto

lemma stack_path: "stack_ok g on color (Some u) st \<Longrightarrow> x \<in> fst ` set st \<Longrightarrow> (hop g on)\<^sup>+\<^sup>+ x u"
proof (induction st arbitrary: u)
  case (Cons e st)
  obtain p i where e: "e = (p, i)" by fastforce
  have pu: "hop g on p u" "stack_ok g on color (Some p) st" using Cons.prems(1) by (simp_all add: e)
  show ?case
  proof (cases "x = p")
    case False
    then have "(hop g on)\<^sup>+\<^sup>+ x p" using Cons.IH [OF pu(2)] Cons.prems(2) by (auto simp: e)
    then show ?thesis using pu(1) by (rule tranclp.trancl_into_trancl)
  qed (use pu in auto)
qed simp

lemma black_step:
  assumes "black_ok g on color" "\<forall>q. hop g on p q \<longrightarrow> color ! q = Black" "color ! p = Grey" "p < length color"
    and bound: "\<And>a b. hop g on a b \<Longrightarrow> b < length color"
  shows "black_ok g on (color[p := Black])"
proof -
  have closed: "color ! b = Black \<and> b < length color" if "(hop g on)\<^sup>+\<^sup>+ a b" "color ! a = Black" "a < length color" for a b
    using that by (induction rule: tranclp_induct) (use assms(1) bound in \<open>auto simp: black_ok_def\<close>)
  have "\<not> (hop g on)\<^sup>+\<^sup>+ p p"
  proof
    assume "(hop g on)\<^sup>+\<^sup>+ p p"
    then obtain q where q: "hop g on p q" "(hop g on)\<^sup>*\<^sup>* q p" by (meson tranclpD)
    then have "color ! q = Black" "q < length color" using assms(2) bound by auto
    then have "color ! p = Black" using rtranclpD [OF q(2)] closed by blast
    then show False using assms(3) by simp
  qed
  moreover have "color ! q = Black" if "hop g on a q" "a = p \<or> color ! a = Black" "a < length color" for a q
    using that assms(1,2) by (auto simp: black_ok_def)
  moreover have "\<not> (hop g on)\<^sup>+\<^sup>+ a a" if "a < length color" "color ! a = Black" for a
    using that assms(1) by (auto simp: black_ok_def)
  ultimately have all: "hop g on a q \<Longrightarrow> a = p \<or> color ! a = Black \<Longrightarrow> a < length color \<Longrightarrow> color ! q = Black"
    "a = p \<or> color ! a = Black \<Longrightarrow> a < length color \<Longrightarrow> \<not> (hop g on)\<^sup>+\<^sup>+ a a" for a q by blast+
  have black: "color[p := Black] ! a = Black \<longleftrightarrow> a = p \<or> color ! a = Black" for a using assms(4) by (simp add: recolor)
  show ?thesis unfolding black_ok_def black length_list_update using all by blast
qed

lemma stack_pop:
  assumes "stack_ok g on color (Some p) st" "p \<notin> fst ` set st" "p < length color"
  shows "stack_ok g on (color[p := Black]) None st"
proof (cases st)
  case (Cons e st')
  obtain q i where e: "e = (q, i)" by fastforce
  have "stack_ok g on (color[p := Black]) (Some q) st'"
    using assms Cons e by (intro stack_recolor) auto
  then show ?thesis using assms Cons e by (auto simp: recolor)
qed simp

text \<open>What a finished search shows: it stops at a cycle, or every address it has seen is off every cycle.\<close>

lemma dfs_exact:
  assumes "dfs_ok g on color st" "graph_ok g"
  shows "if dfs g on color st then \<exists>p \<in> fst ` set st. \<exists>q. (hop g on)\<^sup>*\<^sup>* p q \<and> (hop g on)\<^sup>+\<^sup>+ q q
    else \<exists>final. black_ok g on final \<and> length final = length color \<and>
      (\<forall>p < length color. p \<in> fst ` set st \<or> color ! p = Black \<longrightarrow> final ! p = Black)"
  using assms
proof (induction g on color st rule: dfs.induct)
  case (1 g on color)
  then show ?case by (auto simp: dfs_ok_def dfs.simps)
next
  case (2 g on color pc i st)
  have n: "length color = length (pg_succ g)" and bl: "black_ok g on color"
    and so: "stack_ok g on color None ((pc, i) # st)" and gr: "\<forall>p < length color. color ! p = Grey \<longrightarrow> p \<in> fst ` set ((pc, i) # st)"
    using "2.prems" by (auto simp: dfs_ok_def)
  have pc: "pc < length color" "color ! pc = Grey" "pc \<notin> fst ` set st" and st: "stack_ok g on color (Some pc) st"
    and passed: "\<And>j. j < i \<Longrightarrow> j < length (row_of g pc) \<Longrightarrow> row_of g pc ! j \<in> on \<Longrightarrow> color ! (row_of g pc ! j) = Black"
    using so by auto
  have hop: "hop g on pc (row_of g pc ! j)" if "j < length (row_of g pc)" "row_of g pc ! j \<in> on" for j
    using that pc(1) n by (simp add: hop_def step_in_def row_of_def)
  have bound: "b < length color" if "hop g on a b" for a b
    using that "2.prems"(2) n by (auto simp: hop_def graph_ok_def)
  show ?case
  proof (cases "i < length (row_of g pc)")
    case False
    have "\<forall>q. hop g on pc q \<longrightarrow> color ! q = Black"
      using passed False by (auto simp: hop_def step_in_def row_of_def in_set_conv_nth)
    then have "black_ok g on (color[pc := Black])" using black_step [OF bl _ pc(2,1)] bound by blast
    moreover have "stack_ok g on (color[pc := Black]) None st" by (rule stack_pop [OF st pc(3,1)])
    ultimately have "dfs_ok g on (color[pc := Black]) st" using n gr by (auto simp: dfs_ok_def recolor)
    note IH = "2.IH"(4) [OF False this "2.prems"(2)]
    have d: "dfs g on color ((pc, i) # st) = dfs g on (color[pc := Black]) st" by (subst dfs.simps) (simp add: False)
    show ?thesis
    proof (cases "dfs g on (color[pc := Black]) st")
      case True
      then show ?thesis using IH d by auto
    next
      case no: False
      then obtain final where f: "black_ok g on final" "length final = length color"
        "\<And>p. p < length color \<Longrightarrow> p \<in> fst ` set st \<or> color[pc := Black] ! p = Black \<Longrightarrow> final ! p = Black"
        using IH by auto
      have "final ! p = Black" if "p < length color" "p \<in> fst ` set ((pc, i) # st) \<or> color ! p = Black" for p
        using f(3) [of p] that by (auto simp: recolor)
      then show ?thesis unfolding d using f(1,2) no by auto
    qed
  next
    case True
    define q where "q = row_of g pc ! i"
    show ?thesis
    proof (cases "q < length color \<and> q \<in> on \<and> color ! q \<noteq> Black")
      case False
      have "color ! q = Black" if "q \<in> on"
        using False that bound [OF hop [OF True]] by (auto simp: q_def)
      then have "row_of g pc ! j \<in> on \<Longrightarrow> j < Suc i \<Longrightarrow> j < length (row_of g pc) \<Longrightarrow> color ! (row_of g pc ! j) = Black" for j
        using passed [of j] by (cases "j = i") (auto simp: q_def)
      then have ok: "dfs_ok g on color ((pc, i + 1) # st)"
        using n bl st pc gr by (auto simp: dfs_ok_def)
      have "dfs g on color ((pc, i) # st) = dfs g on color ((pc, i + 1) # st)"
        by (subst dfs.simps) (use True False in \<open>auto simp: q_def Let_def split: colour.splits\<close>)
      moreover have "if dfs g on color ((pc, i + 1) # st) then \<exists>p \<in> fst ` set ((pc, i + 1) # st). \<exists>q. (hop g on)\<^sup>*\<^sup>* p q \<and> (hop g on)\<^sup>+\<^sup>+ q q
          else \<exists>final. black_ok g on final \<and> length final = length color \<and>
            (\<forall>p < length color. p \<in> fst ` set ((pc, i + 1) # st) \<or> color ! p = Black \<longrightarrow> final ! p = Black)"
      proof (cases "q < length color \<and> q \<in> on")
        case on: True
        then have "color ! q = Black" using False by simp
        from "2.IH"(2) [OF True q_def on this ok "2.prems"(2)] show ?thesis .
      next
        case out: False
        from "2.IH"(3) [OF True q_def out ok "2.prems"(2)] show ?thesis .
      qed
      moreover have "fst ` set ((pc, i + 1) # st) = fst ` set ((pc, i) # st)" by simp
      ultimately show ?thesis by (simp only:)
    next
      case q: True
      have pq: "hop g on pc q" using hop [OF True] q by (simp add: q_def)
      show ?thesis
      proof (cases "color ! q")
        case Grey
        then have "q \<in> insert pc (fst ` set st)" using q gr by auto
        then have "(hop g on)\<^sup>+\<^sup>+ q q"
          using pq stack_path [OF st, of q] by (auto intro: tranclp.trancl_into_trancl)
        moreover have "dfs g on color ((pc, i) # st)"
          by (subst dfs.simps) (use True q Grey in \<open>simp add: Let_def flip: q_def\<close>)
        ultimately show ?thesis using pq by auto
      next
        case White
        let ?c = "color[q := Grey]"
        have ne: "q \<noteq> pc" using White pc by auto
        have qst: "q \<notin> fst ` set ((pc, i) # st)"
          using stack_grey [OF so, of q] White by auto
        have "stack_ok g on ?c (Some q) ((pc, i + 1) # st)"
        proof -
          have "stack_ok g on ?c (Some pc) st" by (rule stack_recolor [OF st]) (use qst White in auto)
          moreover have "row_of g pc ! j \<in> on \<Longrightarrow> j < Suc i \<Longrightarrow> j < length (row_of g pc) \<Longrightarrow>
              ?c ! (row_of g pc ! j) = Black \<or> q = row_of g pc ! j" for j
            using passed [of j] White by (cases "j = i") (auto simp: q_def recolor)
          ultimately show ?thesis using pc pq ne by (auto simp: recolor)
        qed
        then have "stack_ok g on ?c None ((q, 0) # (pc, i + 1) # st)" using q qst ne by (auto simp: recolor)
        moreover have "black_ok g on ?c"
        proof -
          have "?c ! x = Black \<longleftrightarrow> color ! x = Black" for x using White q by (auto simp: recolor)
          then show ?thesis using bl by (simp add: black_ok_def)
        qed
        ultimately have ok: "dfs_ok g on ?c ((q, 0) # (pc, i + 1) # st)" using n gr by (auto simp: dfs_ok_def recolor)
        have d: "dfs g on color ((pc, i) # st) = dfs g on ?c ((q, 0) # (pc, i + 1) # st)"
          by (subst dfs.simps) (use True q White in \<open>simp add: Let_def flip: q_def\<close>)
        note IH = "2.IH"(1) [OF True q_def _ White ok "2.prems"(2)]
        show ?thesis
        proof (cases "dfs g on ?c ((q, 0) # (pc, i + 1) # st)")
          case yes: True
          then obtain p r where p: "p = q \<or> p = pc \<or> p \<in> fst ` set st" "(hop g on)\<^sup>*\<^sup>* p r" "(hop g on)\<^sup>+\<^sup>+ r r"
            using IH q by auto
          have "\<exists>p \<in> fst ` set ((pc, i) # st). \<exists>r. (hop g on)\<^sup>*\<^sup>* p r \<and> (hop g on)\<^sup>+\<^sup>+ r r"
          proof (cases "p = q")
            case True
            then have "(hop g on)\<^sup>*\<^sup>* pc r" using pq p(2) by (simp add: converse_rtranclp_into_rtranclp)
            then show ?thesis using p(3) by auto
          next
            case False
            then show ?thesis using p by auto
          qed
          then show ?thesis using d yes by simp
        next
          case no: False
          then obtain final where f: "black_ok g on final" "length final = length color"
            "\<And>p. p < length color \<Longrightarrow> p \<in> fst ` set ((q, 0) # (pc, i + 1) # st) \<or> ?c ! p = Black \<Longrightarrow> final ! p = Black"
            using IH q by auto
          have "final ! p = Black" if "p < length color" "p \<in> fst ` set ((pc, i) # st) \<or> color ! p = Black" for p
            using f(3) [of p] that White by (auto simp: recolor)
          then show ?thesis unfolding d using f(1,2) no by auto
        qed
      qed (use q in simp)
    qed
  qed
qed

lemma has_cycle_exact:
  assumes "graph_ok g" "s < length (pg_succ g)"
  shows "has_cycle g on s = Ok (\<exists>q. (hop g on)\<^sup>*\<^sup>* s q \<and> (hop g on)\<^sup>+\<^sup>+ q q)"
proof -
  let ?c = "(replicate (length (pg_succ g)) White)[s := Grey]"
  have "black_ok g on ?c" using assms(2) by (auto simp: black_ok_def recolor)
  then have ok: "dfs_ok g on ?c [(s, 0)]" using assms(2) by (auto simp: dfs_ok_def recolor split: if_splits)
  note x = dfs_exact [OF ok assms(1)]
  have "dfs g on ?c [(s, 0)] \<longleftrightarrow> (\<exists>q. (hop g on)\<^sup>*\<^sup>* s q \<and> (hop g on)\<^sup>+\<^sup>+ q q)"
  proof (cases "dfs g on ?c [(s, 0)]")
    case True
    then show ?thesis using x by auto
  next
    case False
    then obtain final where f: "black_ok g on final" "length final = length (pg_succ g)" "final ! s = Black" using x assms(2) by auto
    have closed: "final ! q = Black \<and> q < length (pg_succ g)" if "final ! p = Black" "p < length (pg_succ g)" "hop g on p q" for p q
      using that f(1,2) assms(1) by (auto simp: black_ok_def graph_ok_def hop_def)
    have "final ! q = Black \<and> q < length (pg_succ g)" if "(hop g on)\<^sup>*\<^sup>* s q" for q
      using that by (induction rule: rtranclp_induct) (use f(3) assms(2) closed in blast)+
    then have "\<not> ((hop g on)\<^sup>*\<^sup>* s q \<and> (hop g on)\<^sup>+\<^sup>+ q q)" for q using f(1,2) by (auto simp: black_ok_def)
    then show ?thesis using False by simp
  qed
  then show ?thesis using assms(2) by (simp add: has_cycle_def Let_def)
qed

text \<open>C21: The path queries of the dispatcher are exact.  Over a graph that was built, from an entry inside
  it: \<open>on_path\<close> is the set of addresses on some path to the edge; \<open>has_cycle\<close> holds when a path inside a set
  can be made to repeat an address; and \<open>cut_by\<close> holds when every path to the edge takes one of the listed
  branch sides.\<close>

theorem path_queries_exact:
  assumes "graph_new c noret = Ok g" "entry c < length (flows c)" "t < length (flows c)"
  shows "on_path g c t = Ok {p. \<exists>ys zs. path g (entry c) t (ys @ p # zs)} \<and>
    has_cycle g on (entry c) = Ok (\<exists>q. (hop g on)\<^sup>*\<^sup>* (entry c) q \<and> (hop g on)\<^sup>+\<^sup>+ q q) \<and>
    cut_by g c t cuts = Ok (\<forall>xs. path g (entry c) t xs \<longrightarrow> (\<exists>ys p q zs. xs = ys @ p # q # zs \<and> (p, q) \<in> set cuts))"
proof -
  have ok: "graph_ok g" and n: "length (pg_succ g) = length (flows c)"
    using graph_new_ok [OF assms(1)] succ_rows_Ok(1) by auto
  show ?thesis
    using on_path_exact [OF ok, of c t] has_cycle_exact [OF ok, of "entry c" on] cut_by_exact [OF ok, of c t cuts] assms(2,3) n by simp
qed

theorem path_queries_exact_witness:
  "graph_new skip_cfg [] = Ok skip_graph \<and> on_path skip_graph skip_cfg 3 = Ok {0, 2, 3} \<and>
    has_cycle skip_graph {0, 2, 3} 0 = Ok False \<and> cut_by skip_graph skip_cfg 3 [(0, 2)] = Ok True \<and>
    \<not> (\<exists>q. (hop skip_graph {0, 2, 3})\<^sup>*\<^sup>* (entry skip_cfg) q \<and> (hop skip_graph {0, 2, 3})\<^sup>+\<^sup>+ q q)"
proof -
  have g: "graph_new skip_cfg [] = Ok skip_graph" by code_simp
  have r: "on_path skip_graph skip_cfg 3 = Ok {0, 2, 3}" "has_cycle skip_graph {0, 2, 3} 0 = Ok False"
    "cut_by skip_graph skip_cfg 3 [(0, 2)] = Ok True" by code_simp+
  have e: "entry skip_cfg = 0" "0 < length (flows skip_cfg)" "3 < length (flows skip_cfg)" by (simp_all add: skip_cfg_def)
  have "entry skip_cfg < length (flows skip_cfg)" using e by simp
  note q = conjunct1 [OF conjunct2 [OF path_queries_exact [OF g this e(3), where on = "{0, 2, 3}"]]]
  have "\<not> (\<exists>q. (hop skip_graph {0, 2, 3})\<^sup>*\<^sup>* (entry skip_cfg) q \<and> (hop skip_graph {0, 2, 3})\<^sup>+\<^sup>+ q q)"
    using r(2) q unfolding e(1) by (simp only: res.inject not_False_eq_True)
  then show ?thesis using g r by blast
qed

end
