(* ===== verification/Top_Run.thy ===== *)
theory Top_Run
  imports Cfg Sym_Step Atoms
begin

text \<open>
  The frame of the entry function as the Lean machine runs it (\<open>step\<close> of \<open>SVM/SBPF/Execute.lean\<close>), over the decoded
  flow: registers and memory are words, an address wraps modulo \<open>2 ^ 64\<close>, a write to \<open>r10\<close> has no effect.  An
  internal call is summarised as \<open>SVM/SBPF/StaticReach.lean\<close> does: it returns, if its target can, with
  \<open>r6\<close> to \<open>r10\<close> unchanged; a syscall keeps \<open>r10\<close>.  A faulting instruction has no step, the memory map is not
  consulted (so a load or store may also succeed where the machine faults), and an indirect call has no step.
\<close>

record top_state =
  ts_pc :: nat
  ts_regs :: "nat \<Rightarrow> u64"
  ts_mem :: "u64 \<Rightarrow> u8"

definition INPUT_START :: nat where "INPUT_START = 0x400000000"
definition STACK_TOP :: nat where "STACK_TOP = 0x200000000 + 0x1000"

subsection \<open>Values\<close>

definition lean_sext32 :: "nat \<Rightarrow> nat" where
  "lean_sext32 v = (if v < 2 ^ 31 then v else v + (2 ^ 64 - 2 ^ 32))"

definition lean_alu32 :: "alu_op \<Rightarrow> nat \<Rightarrow> nat \<Rightarrow> nat option" where
  "lean_alu32 op a b = (let m = 2 ^ 32 in case op of
      Add \<Rightarrow> Some (lean_sext32 ((a + b) mod m))
    | Sub \<Rightarrow> Some (lean_sext32 ((a + m - b mod m) mod m))
    | Mul \<Rightarrow> Some (lean_sext32 ((a * b) mod m))
    | Div \<Rightarrow> if b mod m = 0 then None else Some (a mod m div (b mod m) mod m)
    | Mod \<Rightarrow> if b mod m = 0 then None else Some (a mod m mod (b mod m))
    | Or \<Rightarrow> Some ((a OR b) mod m)
    | And \<Rightarrow> Some ((a AND b) mod m)
    | Xor \<Rightarrow> Some ((a XOR b) mod m)
    | Lsh \<Rightarrow> Some (push_bit (b mod 32) a mod m)
    | Rsh \<Rightarrow> Some (drop_bit (b mod 32) (a mod m))
    | Arsh \<Rightarrow> Some (lean_arsh 32 (a mod m) b)
    | Mov \<Rightarrow> Some (b mod m))"

definition lean_neg32 :: "nat \<Rightarrow> nat" where
  "lean_neg32 a = (2 ^ 32 - a mod 2 ^ 32) mod 2 ^ 32"

text \<open>The value an arithmetic instruction writes, from its destination and its operand.\<close>

definition alu_result :: "shape \<Rightarrow> int \<Rightarrow> nat \<Rightarrow> nat \<Rightarrow> nat option" where
  "alu_result sh i a b = (case sh of
      SAlu64 op r \<Rightarrow> lean_alu64 op a b
    | SAlu32 op r \<Rightarrow> lean_alu32 op a b
    | SNeg64 \<Rightarrow> Some (lean_neg64 a)
    | SNeg32 \<Rightarrow> Some (lean_neg32 a)
    | SEndian big \<Rightarrow> if i \<in> {16, 32, 64} then Some (lean_endian a (nat i) big) else None
    | SLddw \<Rightarrow> Some b
    | _ \<Rightarrow> None)"

definition operand_of :: "shape \<Rightarrow> insn \<Rightarrow> (nat \<Rightarrow> u64) \<Rightarrow> u64" where
  "operand_of sh i r = (if shape_operand sh then r (unat (src i)) else word_of_int (imm i))"

definition cond_holds :: "cond \<Rightarrow> u64 \<Rightarrow> u64 \<Rightarrow> bool" where
  "cond_holds c a b = (case c of
      Eq \<Rightarrow> a = b | Ne \<Rightarrow> a \<noteq> b | Gt \<Rightarrow> a > b | Ge \<Rightarrow> a \<ge> b | Lt \<Rightarrow> a < b | Le \<Rightarrow> a \<le> b
    | Sgt \<Rightarrow> sint a > sint b | Sge \<Rightarrow> sint a \<ge> sint b | Slt \<Rightarrow> sint a < sint b | Sle \<Rightarrow> sint a \<le> sint b
    | Set_c \<Rightarrow> a AND b \<noteq> 0)"

text \<open>Whether a conditional jump is taken; the 32-bit class compares the low halves.\<close>

definition jump_taken :: "insn \<Rightarrow> (nat \<Rightarrow> u64) \<Rightarrow> bool option" where
  "jump_taken i r =
     (let a = r (unat (dst i)); b = (if x_set (opc i) then r (unat (src i)) else word_of_int (imm i)) in
      if insn_class (opc i) = BPF_JMP32 then
        map_option (\<lambda>c. jump32_holds (cond_str c) a b) (map_of decode_jmp32_table (clear_x (opc i)))
      else (case map_of decode_table (opc i) of
              Some (SJcc c x) \<Rightarrow> Some (cond_holds c a b)
            | _ \<Rightarrow> None))"

definition read_width :: "width \<Rightarrow> (u64 \<Rightarrow> u8) \<Rightarrow> u64 \<Rightarrow> u64" where
  "read_width w m a = word_of_nat (from_le (map (\<lambda>k. m (a + word_of_nat k)) [0..<width_bytes w]))"

definition write_width :: "width \<Rightarrow> (u64 \<Rightarrow> u8) \<Rightarrow> u64 \<Rightarrow> u64 \<Rightarrow> u64 \<Rightarrow> u8" where
  "write_width w m a v =
     foldl (\<lambda>m k. m(a + word_of_nat k := le_bytes (width_bytes w) (unat v) ! k)) m [0..<width_bytes w]"

definition set_reg :: "nat \<Rightarrow> u64 \<Rightarrow> (nat \<Rightarrow> u64) \<Rightarrow> nat \<Rightarrow> u64" where
  "set_reg d v r = (if d = 10 then r else r(d := v))"

subsection \<open>Steps\<close>

text \<open>What an instruction that falls through does to the registers and the memory.\<close>

definition seq_effect :: "insn \<Rightarrow> (nat \<Rightarrow> u64) \<Rightarrow> (u64 \<Rightarrow> u8) \<Rightarrow> ((nat \<Rightarrow> u64) \<times> (u64 \<Rightarrow> u8)) option" where
  "seq_effect i r m =
     (let d = unat (dst i); s = unat (src i); k = word_of_int (off i) in
      case map_of decode_table (opc i) of
        None \<Rightarrow> None
      | Some (SLdx w) \<Rightarrow> Some (set_reg d (read_width w m (r s + k)) r, m)
      | Some (SSt w) \<Rightarrow> Some (r, write_width w m (r d + k) (word_of_int (imm i)))
      | Some (SStx w) \<Rightarrow> Some (r, write_width w m (r d + k) (r s))
      | Some sh \<Rightarrow> map_option (\<lambda>v. (set_reg d (word_of_nat v) r, m))
          (alu_result sh (imm i) (unat (r d)) (unat (operand_of sh i r))))"

inductive top_step :: "insn list \<Rightarrow> flow list \<Rightarrow> top_state \<Rightarrow> top_state \<Rightarrow> bool" for ins fl where
  fall: "pc < length fl \<Longrightarrow> fl ! pc = Seq \<Longrightarrow> seq_effect (ins ! pc) r m = Some (r', m') \<Longrightarrow>
    top_step ins fl \<lparr>ts_pc = pc, ts_regs = r, ts_mem = m\<rparr> \<lparr>ts_pc = pc + 1, ts_regs = r', ts_mem = m'\<rparr>"
| jump: "pc < length fl \<Longrightarrow> fl ! pc = Jump t \<Longrightarrow>
    top_step ins fl \<lparr>ts_pc = pc, ts_regs = r, ts_mem = m\<rparr> \<lparr>ts_pc = t, ts_regs = r, ts_mem = m\<rparr>"
| branch: "pc < length fl \<Longrightarrow> fl ! pc = Branch t \<Longrightarrow> jump_taken (ins ! pc) r = Some b \<Longrightarrow>
    top_step ins fl \<lparr>ts_pc = pc, ts_regs = r, ts_mem = m\<rparr> \<lparr>ts_pc = (if b then t else pc + 1), ts_regs = r, ts_mem = m\<rparr>"
| call: "pc < length fl \<Longrightarrow> fl ! pc = FCall t \<Longrightarrow> returns fl t \<Longrightarrow> \<forall>k \<in> {6..10}. r' k = r k \<Longrightarrow>
    top_step ins fl \<lparr>ts_pc = pc, ts_regs = r, ts_mem = m\<rparr> \<lparr>ts_pc = pc + 1, ts_regs = r', ts_mem = m'\<rparr>"
| syscall: "pc < length fl \<Longrightarrow> fl ! pc = FSyscall h n \<Longrightarrow> r' 10 = r 10 \<Longrightarrow>
    top_step ins fl \<lparr>ts_pc = pc, ts_regs = r, ts_mem = m\<rparr> \<lparr>ts_pc = pc + 1, ts_regs = r', ts_mem = m'\<rparr>"

inductive_cases top_stepE: "top_step ins fl s t"

text \<open>A state the loader starts a program in.\<close>

definition start_state :: "nat \<Rightarrow> top_state \<Rightarrow> bool" where
  "start_state e s \<longleftrightarrow> ts_pc s = e \<and> ts_regs s 1 = word_of_nat INPUT_START \<and> ts_regs s 10 = word_of_nat STACK_TOP"

subsection \<open>Memory\<close>

lemma write_outside:
  assumes "\<And>k. k < width_bytes w \<Longrightarrow> x \<noteq> a + word_of_nat k"
  shows "write_width w m a v x = m x"
proof -
  have "foldl (\<lambda>m k. m(a + word_of_nat k := f k)) m ks x = m x" if "\<forall>k \<in> set ks. x \<noteq> a + word_of_nat k" for f ks
    using that by (induction ks arbitrary: m) auto
  then show ?thesis using assms by (simp add: write_width_def)
qed

lemma read_width_same:
  assumes "\<And>k. k < width_bytes w \<Longrightarrow> m (a + word_of_nat k) = m' (a + word_of_nat k)"
  shows "read_width w m a = read_width w m' a"
proof -
  have "map (\<lambda>k. m (a + word_of_nat k)) [0..<width_bytes w] = map (\<lambda>k. m' (a + word_of_nat k)) [0..<width_bytes w]"
    by (rule map_cong [OF refl]) (use assms in simp)
  then show ?thesis by (simp only: read_width_def)
qed

lemma set_reg_10 [simp]: "set_reg d v r 10 = r 10"
  by (simp add: set_reg_def)

lemma seq_effect_r10: "seq_effect i r m = Some (r', m') \<Longrightarrow> r' 10 = r 10"
  by (auto simp: seq_effect_def Let_def split: option.splits shape.splits)

end
