(* ===== verification/Provenance.thy ===== *)
theory Provenance
  imports Path_Graph Top_Run
begin

text \<open>
  The abstract interpreter of the success-proof tools (\<open>success_proofs/provenance.rs\<close>): per register a constant,
  a pointer into the input, the frame pointer or a word loaded from the initial input, and the input ranges
  that may have been written.  An index past the eleven registers is a panic.  The offsets of the recorded
  ranges are at most \<open>2 ^ 64 - 9\<close>, so the sums of the overlap test do not overflow.
\<close>

subsection \<open>The domain\<close>

datatype aval = ATop | AConst u64 | InPtr u64 | Fp | InLoad string u64

definition aval_text :: "aval \<Rightarrow> string" where
  "aval_text v = (case v of
      ATop \<Rightarrow> ''.top''
    | AConst n \<Rightarrow> ''(.const '' @ digits (unat n) @ '')''
    | InPtr k \<Rightarrow> ''(.inPtr '' @ digits (unat k) @ '')''
    | Fp \<Rightarrow> ''.fp''
    | InLoad w k \<Rightarrow> ''(.inLoad .'' @ w @ '' '' @ digits (unat k) @ '')'')"

record astate =
  av_regs :: "aval list"
  av_written :: "(u64 \<times> u64) list option"

definition lean_name :: "width \<Rightarrow> string" where
  "lean_name w = (case w of Byte \<Rightarrow> ''byte'' | Half \<Rightarrow> ''half'' | Word_w \<Rightarrow> ''word'' | Dword \<Rightarrow> ''dword'')"

type_synonym assumed = "(u64 \<times> width \<times> u64) list"

definition aval_known :: "assumed \<Rightarrow> aval \<Rightarrow> nat option" where
  "aval_known asm v = (case v of
      AConst n \<Rightarrow> Some (unat n)
    | InPtr k \<Rightarrow> Some (INPUT_START + unat k)
    | InLoad w k \<Rightarrow> map_option (\<lambda>(k, w, x). unat x) (find (\<lambda>(k', w', x). k' = k \<and> lean_name w' = w) asm)
    | _ \<Rightarrow> None)"

definition of_known :: "bool \<Rightarrow> nat \<Rightarrow> aval" where
  "of_known ptr r = (if ptr \<and> r \<ge> INPUT_START then InPtr (word_of_nat (r - INPUT_START)) else AConst (word_of_nat r))"

definition is_in_ptr :: "aval \<Rightarrow> bool" where
  "is_in_ptr v = (case v of InPtr k \<Rightarrow> True | _ \<Rightarrow> False)"

definition astate_initial :: astate where
  "astate_initial = \<lparr>av_regs = (replicate 11 ATop)[1 := InPtr 0, 10 := Fp], av_written = Some []\<rparr>"

definition areg :: "astate \<Rightarrow> u8 \<Rightarrow> (string, aval) res" where
  "areg a r = (if unat r < length (av_regs a) then Ok (av_regs a ! unat r) else Panic)"

definition aset :: "u8 \<Rightarrow> aval \<Rightarrow> astate \<Rightarrow> (string, astate) res" where
  "aset d v a =
     (if d = 10 then Ok a
      else if unat d < length (av_regs a) then Ok (a\<lparr>av_regs := (av_regs a)[unat d := v]\<rparr>) else Panic)"

definition astate_join :: "astate \<Rightarrow> astate \<Rightarrow> astate" where
  "astate_join a b =
     \<lparr>av_regs = map2 (\<lambda>x y. if x = y then x else ATop) (av_regs a) (av_regs b),
      av_written = (case (av_written a, av_written b) of
         (Some xs, Some ys) \<Rightarrow> Some (xs @ filter (\<lambda>r. r \<notin> set xs) ys)
       | _ \<Rightarrow> None)\<rparr>"

definition astate_le :: "astate \<Rightarrow> astate \<Rightarrow> bool" where
  "astate_le a b \<longleftrightarrow> list_all2 (\<lambda>x y. y = ATop \<or> x = y) (av_regs a) (av_regs b) \<and>
     (case (av_written a, av_written b) of
        (_, None) \<Rightarrow> True
      | (Some xs, Some ys) \<Rightarrow> set xs \<subseteq> set ys
      | (None, Some _) \<Rightarrow> False)"

subsection \<open>The transfer function\<close>

definition fold_op :: "u8 \<Rightarrow> (nat \<Rightarrow> nat \<Rightarrow> nat) option" where
  "fold_op b =
     (if b \<in> {0x07, 0x0F} then Some (\<lambda>x y. (x + y) mod 2 ^ 64)
      else if b \<in> {0x57, 0x5F} then Some (\<lambda>x y. (x AND y) mod 2 ^ 64)
      else None)"

definition fold_step :: "assumed \<Rightarrow> (nat \<Rightarrow> nat \<Rightarrow> nat) \<Rightarrow> insn \<Rightarrow> astate \<Rightarrow> (string, astate) res" where
  "fold_step asm f i a =
     bind_res (areg a (dst i)) (\<lambda>d.
     bind_res (if opc i \<in> {0x07, 0x57} then Ok (AConst (word_of_int (imm i))) else areg a (src i)) (\<lambda>s.
     aset (dst i) (case (aval_known asm d, aval_known asm s) of
         (Some x, Some y) \<Rightarrow> of_known (is_in_ptr d \<or> is_in_ptr s) (f x y)
       | _ \<Rightarrow> ATop) a))"

definition forget_regs :: "nat \<Rightarrow> astate \<Rightarrow> astate" where
  "forget_regs keep a = \<lparr>av_regs = replicate keep ATop @ drop keep (av_regs a), av_written = None\<rparr>"

definition load_width :: "u8 \<Rightarrow> string option" where
  "load_width b =
     (if b = 0x71 then Some ''byte'' else if b = 0x69 then Some ''half''
      else if b = 0x61 then Some ''word'' else if b = 0x79 then Some ''dword'' else None)"

text \<open>The offset of an access through an input pointer, when it is in range.\<close>

definition in_offset :: "u64 \<Rightarrow> int \<Rightarrow> u64 option" where
  "in_offset base d = (let k = uint base + d in if 0 \<le> k \<and> k \<le> 2 ^ 64 - 1 - 8 then Some (word_of_int k) else None)"

definition range_free :: "(u64 \<times> u64) list \<Rightarrow> u64 \<Rightarrow> bool" where
  "range_free ws k \<longleftrightarrow> (\<forall>(s, n) \<in> set ws. unat k + 8 \<le> unat s \<or> unat s + unat n \<le> unat k)"

definition loaded :: "string \<Rightarrow> int \<Rightarrow> aval \<Rightarrow> (u64 \<times> u64) list option \<Rightarrow> aval" where
  "loaded w d v written = (case (v, written) of
      (InPtr base, Some ws) \<Rightarrow>
        (case in_offset base d of
           Some k \<Rightarrow> if range_free ws k then InLoad w k else ATop
         | None \<Rightarrow> ATop)
    | _ \<Rightarrow> ATop)"

definition after_store :: "aval \<Rightarrow> int \<Rightarrow> astate \<Rightarrow> astate" where
  "after_store v d a = (case v of
      Fp \<Rightarrow> if d \<le> 0x1000 then a else a\<lparr>av_written := None\<rparr>
    | InPtr base \<Rightarrow>
        (case in_offset base d of
           Some k \<Rightarrow> a\<lparr>av_written := map_option (\<lambda>ws. (k, 8) # ws) (av_written a)\<rparr>
         | None \<Rightarrow> a\<lparr>av_written := None\<rparr>)
    | _ \<Rightarrow> a\<lparr>av_written := None\<rparr>)"

definition plain_step :: "insn \<Rightarrow> astate \<Rightarrow> (string, astate) res" where
  "plain_step i a =
     (if opc i \<in> {LD_DW_IMM, MOV64_IMM} then aset (dst i) (AConst (word_of_int (imm i))) a
      else if opc i = 0xBF then bind_res (areg a (src i)) (\<lambda>v. aset (dst i) v a)
      else (case load_width (opc i) of
          Some w \<Rightarrow> bind_res (areg a (src i)) (\<lambda>v. aset (dst i) (loaded w (off i) v (av_written a)) a)
        | None \<Rightarrow>
            if insn_class (opc i) \<in> {2, 3} then bind_res (areg a (dst i)) (\<lambda>v. Ok (after_store v (off i) a))
            else if insn_class (opc i) \<in> {BPF_ALU32_LOAD, BPF_ALU64_STORE} then aset (dst i) ATop a
            else Ok a))"

definition astep :: "assumed option \<Rightarrow> insn \<Rightarrow> flow \<Rightarrow> astate \<Rightarrow> (string, astate) res" where
  "astep asm i f a =
     (case (asm, fold_op (opc i)) of
        (Some asm, Some g) \<Rightarrow> fold_step asm g i a
      | _ \<Rightarrow>
         (case f of
            FCall t \<Rightarrow> Ok (forget_regs 6 a)
          | FSyscall h n \<Rightarrow> Ok (forget_regs 10 a)
          | _ \<Rightarrow> plain_step i a))"

subsection \<open>The map\<close>

type_synonym amap = "astate option list"

definition flow_into :: "astate \<Rightarrow> amap \<times> nat list \<Rightarrow> nat \<Rightarrow> amap \<times> nat list" where
  "flow_into out s q = (case s of (m, nxt) \<Rightarrow>
     (let joined = (case m ! q of None \<Rightarrow> out | Some old \<Rightarrow> astate_join old out) in
      if m ! q \<noteq> Some joined then (m[q := Some joined], nxt @ [q]) else (m, nxt)))"

text \<open>The worklist has its front at the head; each changed successor is pushed to the front in turn.\<close>

fun map_loop :: "(nat \<Rightarrow> astate \<Rightarrow> (string, astate) res) \<Rightarrow> nat list list \<Rightarrow> nat \<Rightarrow> amap \<Rightarrow> nat list \<Rightarrow> (string, amap) res" where
  "map_loop st rows fuel m [] = Ok m"
| "map_loop st rows 0 m (pc # work) = Err ''abstract-map worklist exhausted its fuel''"
| "map_loop st rows (Suc fuel) m (pc # work) =
     (case m ! pc of
        None \<Rightarrow> Panic
      | Some a \<Rightarrow> bind_res (st pc a) (\<lambda>out.
          let (m, nxt) = foldl (flow_into out) (m, []) (rows ! pc) in
          map_loop st rows fuel m (rev nxt @ work)))"

definition covered :: "amap \<Rightarrow> astate \<Rightarrow> nat \<Rightarrow> bool" where
  "covered m out q = (case m ! q of None \<Rightarrow> False | Some b \<Rightarrow> astate_le out b)"

definition check_entry :: "(nat \<Rightarrow> astate \<Rightarrow> (string, astate) res) \<Rightarrow> nat list list \<Rightarrow> amap \<Rightarrow> unit \<Rightarrow> nat \<times> astate option \<Rightarrow> (string, unit) res" where
  "check_entry st rows m u x = (case x of
      (pc, None) \<Rightarrow> Ok ()
    | (pc, Some a) \<Rightarrow> bind_res (st pc a) (\<lambda>out.
        if list_all (covered m out) (rows ! pc) then Ok ()
        else Err (''abstract post-fixpoint check failed at '' @ digits pc)))"

definition map_with :: "insn list \<Rightarrow> flow list \<Rightarrow> nat list list \<Rightarrow> nat \<Rightarrow> assumed option \<Rightarrow> (string, amap) res" where
  "map_with ins fl rows e asm =
     (let n = length ins; st = (\<lambda>pc a. astep asm (ins ! pc) (fl ! pc) a) in
      if e \<ge> n then Panic
      else bind_res (map_loop st rows (n * 40) ((replicate n None)[e := Some astate_initial]) [e]) (\<lambda>m.
        case m ! e of
          None \<Rightarrow> Panic
        | Some a \<Rightarrow>
            if \<not> astate_le astate_initial a then Err ''abstract entry check failed''
            else bind_res (foldM (check_entry st rows m) () (List.enumerate 0 m)) (\<lambda>_. Ok m)))"

definition abstract_map :: "program_image \<Rightarrow> cfg \<Rightarrow> nat list list \<Rightarrow> nat \<Rightarrow> (string, amap) res" where
  "abstract_map im c rows e = map_with (im_insns im) (flows c) rows e None"

definition abstract_map_with :: "program_image \<Rightarrow> cfg \<Rightarrow> nat list list \<Rightarrow> nat \<Rightarrow> assumed \<Rightarrow> (string, amap) res" where
  "abstract_map_with im c rows e asm = map_with (im_insns im) (flows c) rows e (Some asm)"

subsection \<open>What an abstract state says\<close>

definition denotes :: "(u64 \<Rightarrow> u8) \<Rightarrow> aval \<Rightarrow> u64 \<Rightarrow> bool" where
  "denotes m0 v x = (case v of
      ATop \<Rightarrow> True
    | AConst n \<Rightarrow> x = n
    | InPtr k \<Rightarrow> x = word_of_nat INPUT_START + k
    | Fp \<Rightarrow> x = word_of_nat STACK_TOP
    | InLoad w k \<Rightarrow> \<exists>wd. lean_name wd = w \<and> x = read_width wd m0 (word_of_nat INPUT_START + k))"

text \<open>
  The input still holds its initial bytes outside the ranges.  A range is given by offsets into the input; an
  offset past the end of the address space wraps to its first bytes, which lie below the stack window.
\<close>

definition untouched :: "(u64 \<Rightarrow> u8) \<Rightarrow> (u64 \<times> u64) list \<Rightarrow> (u64 \<Rightarrow> u8) \<Rightarrow> bool" where
  "untouched m0 ws m \<longleftrightarrow> (\<forall>x. unat x < 2 ^ 16 \<or> INPUT_START \<le> unat x \<longrightarrow>
     (\<forall>(s, n) \<in> set ws. unat (x - word_of_nat INPUT_START) < unat s \<or> unat s + unat n \<le> unat (x - word_of_nat INPUT_START)) \<longrightarrow>
     m x = m0 x)"

definition describes :: "(u64 \<Rightarrow> u8) \<Rightarrow> astate \<Rightarrow> top_state \<Rightarrow> bool" where
  "describes m0 a s \<longleftrightarrow> length (av_regs a) = 11 \<and> (\<forall>r < 11. denotes m0 (av_regs a ! r) (ts_regs s r)) \<and>
     (\<forall>ws. av_written a = Some ws \<longrightarrow> untouched m0 ws (ts_mem s))"

definition assumed_holds :: "assumed \<Rightarrow> (u64 \<Rightarrow> u8) \<Rightarrow> bool" where
  "assumed_holds asm m0 \<longleftrightarrow> (\<forall>(k, w, v) \<in> set asm. read_width w m0 (word_of_nat INPUT_START + k) = v)"

text \<open>Every pointer the interpreter tracks is the address of a byte.\<close>

definition in_space :: "astate \<Rightarrow> bool" where
  "in_space a \<longleftrightarrow> (\<forall>k. InPtr k \<in> set (av_regs a) \<longrightarrow> INPUT_START + unat k < 2 ^ 64)"

lemma lean_name_inj: "lean_name w = lean_name w' \<longleftrightarrow> w = w'"
  by (cases w; cases w') (simp_all add: lean_name_def)

lemma known_sound:
  assumes "assumed_holds asm m0" "denotes m0 v x" "aval_known asm v = Some n"
  shows "x = word_of_nat n"
proof (cases v)
  case (InLoad w k)
  then obtain k' w' z where f: "find (\<lambda>(k', w', x). k' = k \<and> lean_name w' = w) asm = Some (k', w', z)" "n = unat z"
    using assms(3) by (auto simp: aval_known_def)
  then have "(k', w', z) \<in> set asm" "k' = k" "lean_name w' = w" by (auto dest: find_SomeD)
  moreover obtain wd where "lean_name wd = w" "x = read_width wd m0 (word_of_nat INPUT_START + k)"
    using assms(2) InLoad by (auto simp: denotes_def)
  ultimately have "x = z" using assms(1) lean_name_inj by (fastforce simp: assumed_holds_def)
  then show ?thesis using f(2) by simp
qed (use assms in \<open>auto simp: aval_known_def denotes_def\<close>)

lemma of_known_denotes: "r < 2 ^ 64 \<Longrightarrow> denotes m0 (of_known ptr r) (word_of_nat r)"
  by (auto simp: of_known_def denotes_def simp flip: of_nat_add)

lemma le_describes:
  assumes "describes m0 a s" "astate_le a b"
  shows "describes m0 b s"
proof -
  have l: "list_all2 (\<lambda>x y. y = ATop \<or> x = y) (av_regs a) (av_regs b)" using assms(2) by (simp add: astate_le_def)
  have "denotes m0 (av_regs b ! r) (ts_regs s r)" if "r < 11" for r
  proof -
    have "av_regs b ! r = ATop \<or> av_regs a ! r = av_regs b ! r"
      using list_all2_nthD [OF l, of r] assms(1) that by (simp add: describes_def)
    then show ?thesis using assms(1) that by (auto simp: describes_def denotes_def)
  qed
  moreover have "untouched m0 ws (ts_mem s)" if ws: "av_written b = Some ws" for ws
  proof -
    obtain xs where "av_written a = Some xs" "set xs \<subseteq> set ws"
      using assms(2) ws by (auto simp: astate_le_def split: option.splits)
    then show ?thesis using assms(1) unfolding describes_def untouched_def by blast
  qed
  moreover have "length (av_regs b) = 11"
    using assms(1) list_all2_lengthD [OF l] by (simp add: describes_def)
  ultimately show ?thesis by (simp add: describes_def)
qed

lemma initial_describes: "start_state e s \<Longrightarrow> describes (ts_mem s) astate_initial s"
  by (auto simp: describes_def astate_initial_def start_state_def denotes_def untouched_def nth_list_update)

lemma aset_describes:
  assumes "describes m0 a \<lparr>ts_pc = p, ts_regs = r, ts_mem = m\<rparr>" "aset d v a = Ok a'" "d \<noteq> 10 \<Longrightarrow> denotes m0 v x"
  shows "describes m0 a' \<lparr>ts_pc = p', ts_regs = set_reg (unat d) x r, ts_mem = m\<rparr>"
proof -
  have d10: "unat d = 10 \<longleftrightarrow> d = 10" by (simp add: word_unat_eq_iff)
  show ?thesis
  proof (cases "d = 10")
    case True
    then show ?thesis using assms(1,2) by (simp add: aset_def describes_def set_reg_def)
  next
    case False
    then have "a' = a\<lparr>av_regs := (av_regs a)[unat d := v]\<rparr>" using assms(2) by (simp add: aset_def split: if_splits)
    then show ?thesis using assms(1,3) False d10 by (auto simp: describes_def set_reg_def nth_list_update)
  qed
qed

lemma areg_describes:
  assumes "describes m0 a \<lparr>ts_pc = p, ts_regs = r, ts_mem = m\<rparr>" "areg a d = Ok v"
  shows "denotes m0 v (r (unat d)) \<and> v \<in> set (av_regs a)"
  using assms by (auto simp: areg_def describes_def split: if_splits)

text \<open>The bytes an access through an input pointer touches.\<close>

lemma in_offset_Some:
  "in_offset base d = Some k \<longleftrightarrow> 0 \<le> uint base + d \<and> uint base + d \<le> 2 ^ 64 - 9 \<and> k = word_of_int (uint base + d)"
  unfolding in_offset_def Let_def by (simp split: if_split) blast

lemma unat_of_small: "n < 2 ^ 64 \<Longrightarrow> unat (word_of_nat n :: u64) = n"
  by (simp add: unat_of_nat)

lemma uint_of_int: "0 \<le> z \<Longrightarrow> z < 2 ^ 64 \<Longrightarrow> uint (word_of_int z :: u64) = z"
  by (simp add: uint_word_of_int)

lemma in_offset_addr:
  assumes "in_offset base d = Some k" "INPUT_START + unat base < 2 ^ 64" "d < 2 ^ 15"
  shows "word_of_nat INPUT_START + base + word_of_int d = (word_of_nat INPUT_START + k :: u64)"
    "j < 8 \<Longrightarrow> unat (word_of_nat INPUT_START + k + word_of_nat j - word_of_nat INPUT_START :: u64) = unat k + j"
    "j < 8 \<Longrightarrow> unat (word_of_nat INPUT_START + k + word_of_nat j :: u64) < 2 ^ 16 \<or>
       INPUT_START \<le> unat (word_of_nat INPUT_START + k + word_of_nat j :: u64)"
proof -
  have k: "k = word_of_int (uint base + d)" "0 \<le> uint base + d" "uint base + d \<le> 2 ^ 64 - 9"
    using assms(1) in_offset_Some by blast+
  show "word_of_nat INPUT_START + base + word_of_int d = (word_of_nat INPUT_START + k :: u64)"
    unfolding k(1) by simp
  have "uint (word_of_int (uint base + d) :: u64) = uint base + d"
    by (rule uint_of_int) (use k(2,3) in simp_all)
  then have "uint k = uint base + d" by (simp only: k(1))
  then have i: "int (unat k) = int (unat base) + d" by (simp only: uint_nat)
  have d: "d < 32768" and lim: "int (unat base) + d \<le> 18446744073709551607" "INPUT_START + unat base < 18446744073709551616"
    using assms(2,3) k(3) by (simp_all only: uint_nat) simp_all
  have kb: "unat k + 7 < 18446744073709551616" "INPUT_START + unat k < 18446744073709584384" using i d lim by linarith+
  show "unat (word_of_nat INPUT_START + k + word_of_nat j - word_of_nat INPUT_START :: u64) = unat k + j" if "j < 8"
  proof -
    have "unat (word_of_nat (unat k + j) :: u64) = unat k + j" by (rule unat_of_small) (use kb that in simp)
    then show ?thesis by simp
  qed
  show "unat (word_of_nat INPUT_START + k + word_of_nat j :: u64) < 2 ^ 16 \<or>
       INPUT_START \<le> unat (word_of_nat INPUT_START + k + word_of_nat j :: u64)" if "j < 8"
  proof -
    let ?n = "INPUT_START + unat k + j"
    have "(word_of_nat INPUT_START + k + word_of_nat j :: u64) = word_of_nat ?n" by simp
    moreover have "unat (word_of_nat ?n :: u64) = ?n mod 2 ^ 64" by (simp only: unat_of_nat) simp
    moreover have "?n mod 2 ^ 64 < 2 ^ 16 \<or> INPUT_START \<le> ?n mod 2 ^ 64"
    proof (cases "?n < 2 ^ 64")
      case False
      then have "?n mod 2 ^ 64 = ?n - 2 ^ 64" using kb that by (simp add: mod_if)
      moreover have "?n - 18446744073709551616 < 65536" using kb(2) that by linarith
      ultimately show ?thesis by simp
    qed simp
    ultimately show ?thesis by simp
  qed
qed

lemma read_loaded:
  assumes "in_offset base d = Some k" "range_free ws k" "untouched m0 ws m" "INPUT_START + unat base < 2 ^ 64" "d < 2 ^ 15"
  shows "read_width w m (word_of_nat INPUT_START + base + word_of_int d) = read_width w m0 (word_of_nat INPUT_START + k)"
proof -
  have "m (word_of_nat INPUT_START + k + word_of_nat j) = m0 (word_of_nat INPUT_START + k + word_of_nat j)"
    if "j < width_bytes w" for j
  proof -
    have j: "j < 8" using that by (cases w) (simp_all add: width_bytes_def)
    note x = in_offset_addr(2,3) [OF assms(1,4,5) j]
    have "\<forall>(s, n) \<in> set ws. unat k + j < unat s \<or> unat s + unat n \<le> unat k + j"
      using assms(2) j by (fastforce simp: range_free_def)
    then show ?thesis using assms(3) x(2) unfolding untouched_def by (simp only: x(1))
  qed
  then show ?thesis unfolding in_offset_addr(1) [OF assms(1,4,5)] by (rule read_width_same)
qed

lemma store_in_range:
  assumes "in_offset base d = Some k" "untouched m0 ws m" "INPUT_START + unat base < 2 ^ 64" "d < 2 ^ 15"
  shows "untouched m0 ((k, 8) # ws) (write_width w m (word_of_nat INPUT_START + base + word_of_int d) v)"
  unfolding untouched_def
proof (intro allI impI)
  fix x :: u64 assume x: "unat x < 2 ^ 16 \<or> INPUT_START \<le> unat x"
    "\<forall>(s, n) \<in> set ((k, 8) # ws). unat (x - word_of_nat INPUT_START) < unat s \<or> unat s + unat n \<le> unat (x - word_of_nat INPUT_START)"
  have "x \<noteq> word_of_nat INPUT_START + k + word_of_nat j" if "j < width_bytes w" for j
  proof -
    have j: "j < 8" using that by (cases w) (simp_all add: width_bytes_def)
    show ?thesis using in_offset_addr(2) [OF assms(1,3,4) j] x(2) j by auto
  qed
  then have "write_width w m (word_of_nat INPUT_START + base + word_of_int d) v x = m x"
    unfolding in_offset_addr(1) [OF assms(1,3,4)] by (rule write_outside)
  then show "write_width w m (word_of_nat INPUT_START + base + word_of_int d) v x = m0 x"
    using x assms(2) unfolding untouched_def by auto
qed

lemma store_on_stack:
  assumes "untouched m0 ws m" "- (2 ^ 15) \<le> d" "d \<le> 0x1000"
  shows "untouched m0 ws (write_width w m (word_of_nat STACK_TOP + word_of_int d) v)"
  unfolding untouched_def
proof (intro allI impI)
  fix x :: u64 assume x: "unat x < 2 ^ 16 \<or> INPUT_START \<le> unat x"
    "\<forall>(s, n) \<in> set ws. unat (x - word_of_nat INPUT_START) < unat s \<or> unat s + unat n \<le> unat (x - word_of_nat INPUT_START)"
  have "x \<noteq> word_of_nat STACK_TOP + word_of_int d + word_of_nat j" if "j < width_bytes w" for j
  proof -
    have j: "j < 8" using that by (cases w) (simp_all add: width_bytes_def)
    let ?z = "int STACK_TOP + d + int j"
    have "word_of_nat STACK_TOP + word_of_int d + word_of_nat j = (word_of_int ?z :: u64)" by simp
    moreover have "uint (word_of_int ?z :: u64) = ?z"
      by (rule uint_of_int) (use assms(2,3) j in \<open>simp_all add: STACK_TOP_def\<close>)
    moreover have "?z < int INPUT_START" "2 ^ 16 \<le> ?z" using assms(2,3) j by (simp_all add: STACK_TOP_def INPUT_START_def)
    moreover have "int (unat x) < 2 ^ 16 \<or> int INPUT_START \<le> int (unat x)" using x(1) by (metis of_nat_less_numeral_power_cancel_iff of_nat_le_iff)
    ultimately show ?thesis by (metis uint_nat not_less)
  qed
  then have "write_width w m (word_of_nat STACK_TOP + word_of_int d) v x = m x" by (rule write_outside)
  then show "write_width w m (word_of_nat STACK_TOP + word_of_int d) v x = m0 x"
    using x assms(1) unfolding untouched_def by auto
qed

subsection \<open>One step is sound\<close>

text \<open>What the transfer function sees of an opcode, against the decoder's shapes.\<close>

fun shape_code :: "shape \<Rightarrow> u8 \<Rightarrow> bool" where
  "shape_code SLddw b = (b = LD_DW_IMM)"
| "shape_code (SLdx w) b = (load_width b = Some (lean_name w) \<and> b \<notin> {LD_DW_IMM, MOV64_IMM, 0xBF} \<and> fold_op b = None)"
| "shape_code (SSt w) b = (insn_class b \<in> {2, 3} \<and> load_width b = None \<and> b \<notin> {LD_DW_IMM, MOV64_IMM, 0xBF} \<and> fold_op b = None)"
| "shape_code (SStx w) b = (insn_class b \<in> {2, 3} \<and> load_width b = None \<and> b \<notin> {LD_DW_IMM, MOV64_IMM, 0xBF} \<and> fold_op b = None)"
| "shape_code (SAlu64 op r) b = (insn_class b = BPF_ALU64_STORE \<and> load_width b = None \<and> b \<noteq> LD_DW_IMM \<and>
     (b = MOV64_IMM \<longleftrightarrow> op = Mov \<and> \<not> r) \<and> (b = 0xBF \<longleftrightarrow> op = Mov \<and> r) \<and>
     (b = 0x07 \<longleftrightarrow> op = Add \<and> \<not> r) \<and> (b = 0x0F \<longleftrightarrow> op = Add \<and> r) \<and>
     (b = 0x57 \<longleftrightarrow> op = And \<and> \<not> r) \<and> (b = 0x5F \<longleftrightarrow> op = And \<and> r))"
| "shape_code (SAlu32 op r) b = (insn_class b = BPF_ALU32_LOAD \<and> load_width b = None \<and> b \<notin> {LD_DW_IMM, MOV64_IMM, 0xBF} \<and> fold_op b = None)"
| "shape_code SNeg64 b = (insn_class b = BPF_ALU64_STORE \<and> load_width b = None \<and> b \<notin> {LD_DW_IMM, MOV64_IMM, 0xBF} \<and> fold_op b = None)"
| "shape_code SNeg32 b = (insn_class b = BPF_ALU32_LOAD \<and> load_width b = None \<and> b \<notin> {LD_DW_IMM, MOV64_IMM, 0xBF} \<and> fold_op b = None)"
| "shape_code (SEndian big) b = (insn_class b = BPF_ALU32_LOAD \<and> load_width b = None \<and> b \<notin> {LD_DW_IMM, MOV64_IMM, 0xBF} \<and> fold_op b = None)"
| "shape_code _ b = (fold_op b = None)"

lemma shape_codes: "map_of decode_table b = Some sh \<Longrightarrow> shape_code sh b"
proof -
  have "list_all (\<lambda>(b, sh). shape_code sh b) decode_table" by code_simp
  then show "map_of decode_table b = Some sh \<Longrightarrow> shape_code sh b" by (auto simp: list_all_iff dest: map_of_SomeD)
qed

lemma lean_alu64_lt: "op \<in> {Add, And} \<Longrightarrow> lean_alu64 op a b = Some v \<Longrightarrow> v < 2 ^ 64"
  by (auto simp: lean_alu64_def)

lemma alu_word:
  assumes "op \<in> {Add, And}" "lean_alu64 op x y = Some v"
  shows "(word_of_nat v :: u64) = (if op = Add then word_of_nat x + word_of_nat y else word_of_nat x AND word_of_nat y)"
proof -
  have m: "(word_of_nat (n mod 2 ^ 64) :: u64) = word_of_nat n" for n
    by (simp add: word_of_nat_eq_iff take_bit_eq_mod)
  have "(word_of_nat (x AND y) :: u64) = word_of_nat x AND word_of_nat y" by (rule of_nat_and_eq)
  then show ?thesis using assms m by (auto simp: lean_alu64_def)
qed

lemma fold_op_shape:
  assumes "map_of decode_table b = Some sh" "fold_op b = Some f"
  obtains op r where "sh = SAlu64 op r" "op \<in> {Add, And}" "r \<longleftrightarrow> b \<notin> {0x07, 0x57}" "\<And>x y. lean_alu64 op x y = Some (f x y)"
proof -
  have "shape_code sh b" by (rule shape_codes [OF assms(1)])
  then obtain op r where sh: "sh = SAlu64 op r" using assms by (cases sh) (auto simp: fold_op_def)
  then show ?thesis using that [of op r] assms(2) \<open>shape_code sh b\<close>
    by (cases op; cases r) (auto simp: fold_op_def lean_alu64_def split: if_splits)
qed

lemma fold_step_sound:
  assumes d: "describes m0 a \<lparr>ts_pc = p, ts_regs = r, ts_mem = m\<rparr>" and asm: "assumed_holds asm m0"
    and sh: "map_of decode_table (opc i) = Some sh" and f: "fold_op (opc i) = Some f"
    and st: "fold_step asm f i a = Ok out" and eff: "seq_effect i r m = Some (r', m')"
  shows "describes m0 out \<lparr>ts_pc = p', ts_regs = r', ts_mem = m'\<rparr>"
proof -
  obtain op x where s: "sh = SAlu64 op x" "op \<in> {Add, And}" "x \<longleftrightarrow> opc i \<notin> {0x07, 0x57}"
    and v: "\<And>x y. lean_alu64 op x y = Some (f x y)"
    using fold_op_shape [OF sh f] by blast
  let ?b = "operand_of sh i r"
  obtain dv sv where dv: "areg a (dst i) = Ok dv"
    and sv: "(if opc i \<in> {0x07, 0x57} then Ok (AConst (word_of_int (imm i))) else areg a (src i)) = Ok sv"
    and set: "aset (dst i) (case (aval_known asm dv, aval_known asm sv) of
         (Some x, Some y) \<Rightarrow> of_known (is_in_ptr dv \<or> is_in_ptr sv) (f x y) | _ \<Rightarrow> ATop) a = Ok out"
    using st by (auto simp: fold_step_def bind_res_eq_Ok)
  have e: "r' = set_reg (unat (dst i)) (word_of_nat (f (unat (r (unat (dst i)))) (unat ?b))) r" "m' = m"
    using eff v by (auto simp: seq_effect_def sh s(1) alu_result_def Let_def)
  have den: "denotes m0 dv (r (unat (dst i)))" using areg_describes [OF d dv] by simp
  have sden: "denotes m0 sv ?b"
  proof (cases "opc i \<in> {0x07, 0x57}")
    case True
    then have "sv = AConst (word_of_int (imm i))" "?b = word_of_int (imm i)"
      using sv s by (simp_all add: operand_of_def)
    then show ?thesis by (simp add: denotes_def)
  next
    case False
    then have "areg a (src i) = Ok sv" "?b = r (unat (src i))" using sv s by (simp_all add: operand_of_def)
    then show ?thesis using areg_describes [OF d] by simp
  qed
  have "denotes m0 (case (aval_known asm dv, aval_known asm sv) of
         (Some x, Some y) \<Rightarrow> of_known (is_in_ptr dv \<or> is_in_ptr sv) (f x y) | _ \<Rightarrow> ATop)
      (word_of_nat (f (unat (r (unat (dst i)))) (unat ?b)))"
  proof (cases "aval_known asm dv = None \<or> aval_known asm sv = None")
    case True
    then show ?thesis by (auto simp: denotes_def split: option.splits)
  next
    case False
    then obtain x y where xy: "aval_known asm dv = Some x" "aval_known asm sv = Some y" by auto
    have "r (unat (dst i)) = word_of_nat x" "?b = word_of_nat y"
      using known_sound [OF asm den xy(1)] known_sound [OF asm sden xy(2)] by auto
    moreover have "(word_of_nat (f (unat (word_of_nat x :: u64)) (unat (word_of_nat y :: u64))) :: u64) = word_of_nat (f x y)"
      using alu_word [OF s(2) v] by (auto split: if_splits)
    moreover have "f x y < 2 ^ 64" using lean_alu64_lt [OF s(2) v] .
    ultimately show ?thesis using of_known_denotes xy by simp
  qed
  then show ?thesis unfolding e by (intro aset_describes [OF d set])
qed

lemma store_sound:
  assumes d: "describes m0 a \<lparr>ts_pc = p, ts_regs = r, ts_mem = m\<rparr>" and sm: "in_space a"
    and b: "- (2 ^ 15) \<le> off i" "off i < 2 ^ 15" and v: "areg a (dst i) = Ok v"
  shows "describes m0 (after_store v (off i) a)
    \<lparr>ts_pc = p', ts_regs = r, ts_mem = write_width w m (r (unat (dst i)) + word_of_int (off i)) x\<rparr>"
proof -
  let ?m = "write_width w m (r (unat (dst i)) + word_of_int (off i)) x"
  have den: "denotes m0 v (r (unat (dst i)))" "v \<in> set (av_regs a)" using areg_describes [OF d v] by auto
  have same: "av_regs (after_store v (off i) a) = av_regs a" by (auto simp: after_store_def split: aval.splits option.splits)
  have "untouched m0 ws ?m" if ws: "av_written (after_store v (off i) a) = Some ws" for ws
  proof (cases v)
    case Fp
    then have o1: "off i \<le> 0x1000" "av_written a = Some ws" using ws by (auto simp: after_store_def split: if_splits)
    have "untouched m0 ws m" using d o1(2) by (simp add: describes_def)
    then show ?thesis using store_on_stack [OF _ b(1) o1(1)] den(1) Fp by (simp add: denotes_def)
  next
    case (InPtr base)
    then obtain k ws' where k: "in_offset base (off i) = Some k" "av_written a = Some ws'" "ws = (k, 8) # ws'"
      using ws by (auto simp: after_store_def split: option.splits)
    have "untouched m0 ws' m" using d k(2) by (simp add: describes_def)
    moreover have "INPUT_START + unat base < 2 ^ 64" using sm den(2) InPtr by (simp add: in_space_def)
    ultimately show ?thesis using store_in_range [OF k(1) _ _ b(2)] den(1) InPtr k(3) by (simp add: denotes_def)
  qed (use ws in \<open>simp_all add: after_store_def\<close>)
  then show ?thesis using d same by (simp add: describes_def)
qed

lemma load_sound:
  assumes d: "describes m0 a \<lparr>ts_pc = p, ts_regs = r, ts_mem = m\<rparr>" and sm: "in_space a"
    and b: "off i < 2 ^ 15" and v: "areg a (src i) = Ok v"
  shows "denotes m0 (loaded (lean_name w) (off i) v (av_written a)) (read_width w m (r (unat (src i)) + word_of_int (off i)))"
proof -
  have den: "denotes m0 v (r (unat (src i)))" "v \<in> set (av_regs a)" using areg_describes [OF d v] by auto
  show ?thesis
  proof (cases "loaded (lean_name w) (off i) v (av_written a) = ATop")
    case False
    then obtain base ws k where k: "v = InPtr base" "av_written a = Some ws" "in_offset base (off i) = Some k" "range_free ws k"
      by (auto simp: loaded_def split: aval.splits option.splits if_splits)
    have "INPUT_START + unat base < 2 ^ 64" using sm den(2) k(1) by (simp add: in_space_def)
    moreover have "untouched m0 ws m" using d k(2) by (simp add: describes_def)
    ultimately have "read_width w m (word_of_nat INPUT_START + base + word_of_int (off i)) = read_width w m0 (word_of_nat INPUT_START + k)"
      using read_loaded [OF k(3,4) _ _ b] by blast
    then show ?thesis using den(1) k by (auto simp: loaded_def denotes_def)
  qed (simp add: denotes_def)
qed

lemma plain_step_sound:
  assumes d: "describes m0 a \<lparr>ts_pc = p, ts_regs = r, ts_mem = m\<rparr>" and sm: "in_space a"
    and b: "- (2 ^ 15) \<le> off i" "off i < 2 ^ 15"
    and st: "plain_step i a = Ok out" and eff: "seq_effect i r m = Some (r', m')"
  shows "describes m0 out \<lparr>ts_pc = p', ts_regs = r', ts_mem = m'\<rparr>"
proof -
  obtain sh where sh: "map_of decode_table (opc i) = Some sh" using eff by (auto simp: seq_effect_def Let_def split: option.splits)
  note code = shape_codes [OF sh]
  have top: ?thesis if "aset (dst i) ATop a = Ok out" "r' = set_reg (unat (dst i)) x r" "m' = m" for x
    using aset_describes [OF d that(1), of x] that(2,3) by (simp add: denotes_def)
  have alu: "\<exists>x. r' = set_reg (unat (dst i)) x r \<and> m' = m" if "\<forall>w. sh \<notin> {SLdx w, SSt w, SStx w}"
    using eff that by (cases sh) (auto simp: seq_effect_def sh Let_def)
  have other: ?thesis if "insn_class (opc i) \<in> {BPF_ALU32_LOAD, BPF_ALU64_STORE}" "load_width (opc i) = None"
    "opc i \<notin> {LD_DW_IMM, MOV64_IMM, 0xBF}" "\<forall>w. sh \<notin> {SLdx w, SSt w, SStx w}"
  proof -
    have "insn_class (opc i) \<notin> {2, 3}" using that(1) by auto
    then have "aset (dst i) ATop a = Ok out" using st that(1-3) by (simp add: plain_step_def)
    then show ?thesis using top alu [OF that(4)] by blast
  qed
  show ?thesis
  proof (cases sh)
    case SLddw
    then have "aset (dst i) (AConst (word_of_int (imm i))) a = Ok out" using st code by (simp add: plain_step_def)
    moreover have "r' = set_reg (unat (dst i)) (word_of_int (imm i)) r" "m' = m"
      using eff by (auto simp: seq_effect_def sh SLddw alu_result_def operand_of_def Let_def)
    ultimately show ?thesis using aset_describes [OF d] by (simp add: denotes_def)
  next
    case (SLdx w)
    then obtain v where v: "areg a (src i) = Ok v" "aset (dst i) (loaded (lean_name w) (off i) v (av_written a)) a = Ok out"
      using st code by (auto simp: plain_step_def bind_res_eq_Ok)
    have "r' = set_reg (unat (dst i)) (read_width w m (r (unat (src i)) + word_of_int (off i))) r" "m' = m"
      using eff by (auto simp: seq_effect_def sh SLdx Let_def)
    then show ?thesis using aset_describes [OF d v(2)] load_sound [OF d sm b(2) v(1)] by simp
  next
    case (SSt w)
    then obtain v where v: "areg a (dst i) = Ok v" "out = after_store v (off i) a"
      using st code by (auto simp: plain_step_def bind_res_eq_Ok)
    have "r' = r" "m' = write_width w m (r (unat (dst i)) + word_of_int (off i)) (word_of_int (imm i))"
      using eff by (auto simp: seq_effect_def sh SSt Let_def)
    then show ?thesis unfolding v(2) using store_sound [OF d sm b v(1)] by simp
  next
    case (SStx w)
    then obtain v where v: "areg a (dst i) = Ok v" "out = after_store v (off i) a"
      using st code by (auto simp: plain_step_def bind_res_eq_Ok)
    have "r' = r" "m' = write_width w m (r (unat (dst i)) + word_of_int (off i)) (r (unat (src i)))"
      using eff by (auto simp: seq_effect_def sh SStx Let_def)
    then show ?thesis unfolding v(2) using store_sound [OF d sm b v(1)] by simp
  next
    case (SAlu64 op x)
    show ?thesis
    proof (cases "op = Mov")
      case False
      then show ?thesis using other code by (simp add: SAlu64)
    next
      case True
      have e: "r' = set_reg (unat (dst i)) (operand_of sh i r) r" "m' = m"
        using eff by (auto simp: seq_effect_def sh SAlu64 True alu_result_def lean_alu64_def Let_def)
      show ?thesis
      proof (cases x)
        case True
        then obtain v where "areg a (src i) = Ok v" "aset (dst i) v a = Ok out"
          using st code \<open>op = Mov\<close> by (auto simp: SAlu64 plain_step_def bind_res_eq_Ok)
        then show ?thesis using aset_describes [OF d] areg_describes [OF d] e True by (simp add: SAlu64 operand_of_def)
      next
        case False
        then have "aset (dst i) (AConst (word_of_int (imm i))) a = Ok out" using st code \<open>op = Mov\<close> by (simp add: SAlu64 plain_step_def)
        then show ?thesis using aset_describes [OF d] e False by (simp add: SAlu64 operand_of_def denotes_def)
      qed
    qed
  qed (use other code eff in \<open>auto simp: seq_effect_def sh alu_result_def Let_def\<close>)
qed

lemma jump_class:
  "insn_class b \<in> {BPF_JMP64, BPF_JMP32} \<Longrightarrow> fold_op b = None \<and> load_width b = None \<and> b \<notin> {LD_DW_IMM, MOV64_IMM, 0xBF}"
  by (auto simp: insn_class_def fold_op_def load_width_def)

lemma jump_keeps: "insn_class (opc i) \<in> {BPF_JMP64, BPF_JMP32} \<Longrightarrow> plain_step i a = Ok a"
  using jump_class [of "opc i"] by (auto simp: plain_step_def)

lemma flow_class:
  assumes "pc < length (decode_flow im)" "decode_flow im ! pc = f" "f \<notin> {Seq, FExit, FCallReg, Unresolved}"
  shows "insn_class (opc (im_insns im ! pc)) \<in> {BPF_JMP64, BPF_JMP32}"
proof -
  have "f = decode_flow_at im pc (im_insns im ! pc)"
    using assms(1,2) by (simp add: decode_flow_def nth_enumerate_eq)
  then show ?thesis using assms(3)
    by (auto simp: decode_flow_at_def decode_call_flow_def is_cond_jump_def insn_class_def Let_def split: if_splits option.splits)
qed

lemma forget_describes:
  assumes "describes m0 a s" "keep \<le> 11" "\<And>k. keep \<le> k \<Longrightarrow> k < 11 \<Longrightarrow> r' k = ts_regs s k"
  shows "describes m0 (forget_regs keep a) \<lparr>ts_pc = p', ts_regs = r', ts_mem = m'\<rparr>"
proof -
  have "denotes m0 ((replicate keep ATop @ drop keep (av_regs a)) ! k) (r' k)" if "k < 11" for k
  proof (cases "k < keep")
    case True
    then show ?thesis by (simp add: nth_append denotes_def)
  next
    case False
    then have "denotes m0 (av_regs a ! k) (r' k)" using assms(1) assms(3) [of k] that by (simp add: describes_def)
    then show ?thesis using False assms(1,2) that by (simp add: nth_append describes_def)
  qed
  then show ?thesis using assms(1,2) by (simp add: describes_def forget_regs_def)
qed

text \<open>A step of the machine from a described state ends in a described state at a successor.\<close>

lemma astep_sound:
  assumes d: "describes m0 a s" and sm: "in_space a" and asm: "\<And>as. asm = Some as \<Longrightarrow> assumed_holds as m0"
    and b: "\<And>i. i \<in> set (im_insns im) \<Longrightarrow> - (2 ^ 15) \<le> off i \<and> off i < 2 ^ 15"
    and st: "astep asm (im_insns im ! ts_pc s) (decode_flow im ! ts_pc s) a = Ok out"
    and step: "top_step (im_insns im) (decode_flow im) s s'"
  shows "describes m0 out s'"
  using step
proof (cases rule: top_step.cases)
  case (fall pc r m r' m')
  have n: "length (decode_flow im) = length (im_insns im)" by (simp add: decode_flow_def)
  let ?i = "im_insns im ! pc"
  have bd: "- (2 ^ 15) \<le> off ?i" "off ?i < 2 ^ 15" using b [of ?i] fall(3) n by simp_all
  have d': "describes m0 a \<lparr>ts_pc = pc, ts_regs = r, ts_mem = m\<rparr>" using d fall(1) by simp
  show ?thesis
  proof (cases "asm = None \<or> fold_op (opc ?i) = None")
    case True
    then have "plain_step ?i a = Ok out" using st fall(1,4) by (auto simp: astep_def split: option.splits)
    then show ?thesis using plain_step_sound [OF d' sm bd _ fall(5)] fall(2) by simp
  next
    case False
    then obtain as f where af: "asm = Some as" "fold_op (opc ?i) = Some f" by auto
    then have "fold_step as f ?i a = Ok out" using st fall(1) by (simp add: astep_def)
    moreover obtain sh where "map_of decode_table (opc ?i) = Some sh"
      using fall(5) by (auto simp: seq_effect_def Let_def split: option.splits)
    ultimately show ?thesis using fold_step_sound [OF d' asm [OF af(1)] _ af(2) _ fall(5)] fall(2) by simp
  qed
next
  case (jump pc t r m)
  then have c: "insn_class (opc (im_insns im ! pc)) \<in> {BPF_JMP64, BPF_JMP32}" using flow_class by blast
  have "out = a" using st jump jump_keeps [OF c] jump_class [OF c] by (simp add: astep_def split: option.splits)
  then show ?thesis using d jump by (simp add: describes_def)
next
  case (branch pc t r bb m)
  then have c: "insn_class (opc (im_insns im ! pc)) \<in> {BPF_JMP64, BPF_JMP32}" using flow_class by blast
  have "out = a" using st branch jump_keeps [OF c] jump_class [OF c] by (simp add: astep_def split: option.splits)
  then show ?thesis using d branch by (simp add: describes_def)
next
  case (call pc t r' r m m')
  then have c: "insn_class (opc (im_insns im ! pc)) \<in> {BPF_JMP64, BPF_JMP32}" using flow_class by blast
  moreover have "out = forget_regs 6 a" using st call jump_class [OF c] by (simp add: astep_def split: option.splits)
  ultimately show ?thesis using forget_describes [OF d, of 6 r'] call by simp
next
  case (syscall pc h n r' r m m')
  then have c: "insn_class (opc (im_insns im ! pc)) \<in> {BPF_JMP64, BPF_JMP32}" using flow_class by blast
  have "out = forget_regs 10 a" using st syscall jump_class [OF c] by (simp add: astep_def split: option.splits)
  moreover have "r' k = r k" if "10 \<le> k" "k < 11" for k
  proof -
    have "k = 10" using that by simp
    then show ?thesis using syscall(5) by simp
  qed
  ultimately show ?thesis using forget_describes [OF d, of 10 r'] syscall by simp
qed

subsection \<open>The map is a post-fixpoint\<close>

lemma foldM_units: "foldM f () xs = Ok u \<longleftrightarrow> (\<forall>x \<in> set xs. f () x = Ok ())"
  by (induction xs) (auto simp: bind_res_eq_Ok)

text \<open>What an accepted map guarantees.\<close>

lemma map_with_Ok:
  assumes "map_with ins fl rows e asm = Ok m"
  shows "\<exists>a. m ! e = Some a \<and> astate_le astate_initial a"
    "pc < length m \<Longrightarrow> m ! pc = Some x \<Longrightarrow>
       \<exists>out. astep asm (ins ! pc) (fl ! pc) x = Ok out \<and> (\<forall>q \<in> set (rows ! pc). covered m out q)"
    "map_loop (\<lambda>pc a. astep asm (ins ! pc) (fl ! pc) a) rows (length ins * 40) ((replicate (length ins) None)[e := Some astate_initial]) [e] = Ok m"
    "e < length ins"
proof -
  let ?st = "\<lambda>pc a. astep asm (ins ! pc) (fl ! pc) a"
  obtain m' a where m: "map_loop ?st rows (length ins * 40) ((replicate (length ins) None)[e := Some astate_initial]) [e] = Ok m'"
    "m' ! e = Some a" "astate_le astate_initial a" "foldM (check_entry ?st rows m') () (List.enumerate 0 m') = Ok ()" "m = m'" "e < length ins"
    using assms by (auto simp: map_with_def Let_def bind_res_eq_Ok split: if_splits option.splits)
  then show "\<exists>a. m ! e = Some a \<and> astate_le astate_initial a"
    "map_loop ?st rows (length ins * 40) ((replicate (length ins) None)[e := Some astate_initial]) [e] = Ok m" "e < length ins" by auto
  show "\<exists>out. ?st pc x = Ok out \<and> (\<forall>q \<in> set (rows ! pc). covered m out q)" if "pc < length m" "m ! pc = Some x"
  proof -
    have "(pc, Some x) \<in> set (List.enumerate 0 m)" using that by (simp add: mem_enumerate)
    then have "check_entry ?st rows m () (pc, Some x) = Ok ()" using m(4,5) by (auto simp: foldM_units)
    then show ?thesis by (auto simp: check_entry_def bind_res_eq_Ok list_all_iff split: if_splits)
  qed
qed

text \<open>A property of states that the steps and the joins keep holds of every state of the map.\<close>

lemma flow_into_length: "foldl (flow_into out) (m, nxt) qs = (m', nxt') \<Longrightarrow> length m' = length m"
  by (induction qs arbitrary: m nxt) (auto simp: flow_into_def Let_def split: if_splits)

lemma flow_into_all:
  assumes "foldl (flow_into out) (m, nxt) qs = (m', nxt')" "\<forall>a. Some a \<in> set m \<longrightarrow> P a" "P out"
    and j: "\<And>a. P a \<Longrightarrow> P (astate_join a out)" and qs: "\<forall>q \<in> set qs. q < length m"
  shows "\<forall>a. Some a \<in> set m' \<longrightarrow> P a"
  using assms(1,2) qs
proof (induction qs arbitrary: m nxt)
  case (Cons q qs)
  define joined where "joined = (case m ! q of None \<Rightarrow> out | Some old \<Rightarrow> astate_join old out)"
  have jn: "P joined"
  proof (cases "m ! q")
    case None
    then show ?thesis using assms(3) by (simp add: joined_def)
  next
    case (Some old)
    then have "P old" using Cons.prems(2,3) by (metis list.set_intros(1) nth_mem)
    then show ?thesis using j Some by (simp add: joined_def)
  qed
  obtain m1 n1 where f: "flow_into out (m, nxt) q = (m1, n1)" by fastforce
  then have m1: "m1 = m[q := Some joined] \<or> m1 = m" by (auto simp: flow_into_def Let_def joined_def split: if_splits)
  then have "\<forall>a. Some a \<in> set m1 \<longrightarrow> P a"
    using Cons.prems(2) jn set_update_subset_insert [of m q "Some joined"] by auto
  moreover have "length m1 = length m" using m1 by auto
  ultimately show ?case using Cons.IH [of m1 n1] Cons.prems(1,3) f by simp
qed simp

lemma flow_into_next: "foldl (flow_into out) (m, nxt) qs = (m', nxt') \<Longrightarrow> set nxt' \<subseteq> set nxt \<union> set qs"
  by (induction qs arbitrary: m nxt) (fastforce simp: flow_into_def Let_def split: if_splits)+

lemma map_loop_all:
  assumes "map_loop st rows fuel m work = Ok m'" "\<forall>a. Some a \<in> set m \<longrightarrow> P a"
    and s: "\<forall>pc a out. P a \<longrightarrow> st pc a = Ok out \<longrightarrow> P out" and j: "\<And>a b. P a \<Longrightarrow> P b \<Longrightarrow> P (astate_join a b)"
    and r: "\<forall>pc < length m. \<forall>q \<in> set (rows ! pc). q < length m" and w: "\<forall>q \<in> set work. q < length m"
  shows "(\<forall>a. Some a \<in> set m' \<longrightarrow> P a) \<and> length m' = length m"
  using assms(1,2) s r w
proof (induction st rows fuel m work rule: map_loop.induct)
  case (3 st rows fuel m pc work)
  obtain a where a1: "m ! pc = Some a" using "3.prems"(1) by (cases "m ! pc") simp_all
  obtain out where a2: "st pc a = Ok out" using "3.prems"(1) a1 by (cases "st pc a") simp_all
  note a = a1 a2
  obtain m1 n1 where f: "foldl (flow_into out) (m, []) (rows ! pc) = (m1, n1)" by fastforce
  have run: "map_loop st rows fuel m1 (rev n1 @ work) = Ok m'" using "3.prems"(1) a f by simp
  have pc: "pc < length m" using "3.prems"(5) by simp
  then have "P a" using "3.prems"(2) a(1) by (metis nth_mem)
  then have out: "P out" using "3.prems"(3) a(2) by blast
  have all: "\<forall>a. Some a \<in> set m1 \<longrightarrow> P a"
    using flow_into_all [OF f "3.prems"(2) out] j [OF _ out] "3.prems"(4) pc by blast
  have len: "length m1 = length m" by (rule flow_into_length [OF f])
  have "\<forall>q \<in> set (rev n1 @ work). q < length m1"
    using flow_into_next [OF f] "3.prems"(4,5) pc len by fastforce
  then show ?case using "3.IH" [OF a(1) a(2) f [symmetric] refl] run all "3.prems"(3,4) len by simp
qed auto

subsection \<open>Runs are described by the map\<close>

lemma aset_regs: "aset d v a = Ok out \<Longrightarrow> set (av_regs out) \<subseteq> insert v (set (av_regs a))"
  using set_update_subset_insert [of "av_regs a" "unat d" v] by (auto simp: aset_def split: if_splits)

lemma areg_mem: "areg a d = Ok v \<Longrightarrow> v \<in> set (av_regs a)"
  by (auto simp: areg_def split: if_splits)

lemma plain_step_cases:
  assumes "plain_step i a = Ok out"
  obtains (set) d v where "aset d v a = Ok out" "(\<exists>n. v = AConst n) \<or> (\<exists>d. areg a d = Ok v) \<or> (\<exists>w d x ws. v = loaded w d x ws) \<or> v = ATop"
  | (store) v d where "out = after_store v d a"
  | (same) "out = a"
  using assms by (fastforce simp: plain_step_def bind_res_eq_Ok split: if_splits option.splits)

lemma after_store_regs: "av_regs (after_store v d a) = av_regs a"
  by (auto simp: after_store_def split: aval.splits option.splits)

text \<open>No tracked pointer ever leaves the address space.\<close>

lemma of_known_space:
  assumes "r < 2 ^ 64" "of_known ptr r = InPtr k"
  shows "INPUT_START + unat k < 2 ^ 64"
proof -
  have k: "INPUT_START \<le> r" "k = word_of_nat (r - INPUT_START)"
    using assms(2) by (simp_all add: of_known_def del: of_nat_diff split: if_splits)
  have "unat k = r - INPUT_START" unfolding k(2) by (rule unat_of_small) (use assms(1) in simp)
  then show ?thesis using assms(1) k(1) by simp
qed

lemma fold_op_lt: "fold_op b = Some f \<Longrightarrow> f x y < 2 ^ 64"
  by (auto simp: fold_op_def split: if_splits)

lemma astep_space:
  assumes "in_space a" "astep asm i f a = Ok out"
  shows "in_space out"
proof -
  have set: "in_space out" if "aset d v a = Ok out" "\<And>k. v = InPtr k \<Longrightarrow> INPUT_START + unat k < 2 ^ 64" for d v
    using aset_regs [OF that(1)] that(2) assms(1) by (auto simp: in_space_def)
  have plain: "in_space out" if "plain_step i a = Ok out"
    using that
  proof (cases rule: plain_step_cases)
    case s: (set d v)
    have "InPtr k \<noteq> loaded w d v ws" for w d v ws k by (auto simp: loaded_def split: aval.splits option.splits)
    then have "v = InPtr k \<Longrightarrow> INPUT_START + unat k < 2 ^ 64" for k
      using s(2) areg_mem [of a _ "InPtr k"] assms(1) by (auto simp: in_space_def)
    then show ?thesis by (rule set [OF s(1)])
  next
    case (store v d)
    then show ?thesis using assms(1) by (simp add: in_space_def after_store_regs)
  qed (use assms(1) in simp)
  have fold: "in_space out" if g: "fold_op (opc i) = Some g" and st: "fold_step as g i a = Ok out" for as g
  proof -
    obtain d s where "aset (dst i) (case (aval_known as d, aval_known as s) of
         (Some x, Some y) \<Rightarrow> of_known (is_in_ptr d \<or> is_in_ptr s) (g x y) | _ \<Rightarrow> ATop) a = Ok out"
      using st by (auto simp: fold_step_def bind_res_eq_Ok)
    moreover have "of_known p (g x y) = InPtr k \<Longrightarrow> INPUT_START + unat k < 2 ^ 64" for p x y k
      by (rule of_known_space [OF fold_op_lt [OF g]])
    ultimately show ?thesis by (elim set) (simp split: option.splits)
  qed
  have "in_space (forget_regs n a)" for n
    using assms(1) by (auto simp: in_space_def forget_regs_def dest: in_set_dropD)
  then show ?thesis using assms(2) plain fold by (auto simp: astep_def split: flow.splits option.splits)
qed

lemma join_space: "in_space a \<Longrightarrow> in_space b \<Longrightarrow> in_space (astate_join a b)"
  by (auto simp: in_space_def astate_join_def set_zip split: if_splits)

lemma initial_space: "in_space astate_initial"
proof -
  have "InPtr k \<in> set (av_regs astate_initial) \<Longrightarrow> k = 0" for k by (simp add: astate_initial_def numeral_nat)
  moreover have "INPUT_START + unat (0 :: u64) < 2 ^ 64" by (simp add: INPUT_START_def)
  ultimately show ?thesis unfolding in_space_def by metis
qed

lemma map_loop_length:
  assumes "map_with ins fl rows e asm = Ok m" "\<forall>pc < length ins. \<forall>q \<in> set (rows ! pc). q < length ins"
  shows "(\<forall>a. Some a \<in> set m \<longrightarrow> in_space a) \<and> length m = length ins"
proof -
  note loop = map_with_Ok(3,4) [OF assms(1)]
  let ?m0 = "(replicate (length ins) None)[e := Some astate_initial]"
  have "\<forall>a. Some a \<in> set ?m0 \<longrightarrow> in_space a"
    using set_update_subset_insert [of "replicate (length ins) None" e "Some astate_initial"] initial_space by auto
  moreover have "\<forall>pc a out. in_space a \<longrightarrow> astep asm (ins ! pc) (fl ! pc) a = Ok out \<longrightarrow> in_space out"
    using astep_space by blast
  moreover have "\<forall>pc < length ?m0. \<forall>q \<in> set (rows ! pc). q < length ?m0" "\<forall>q \<in> set [e]. q < length ?m0"
    using assms(2) loop(2) by simp_all
  ultimately have "(\<forall>a. Some a \<in> set m \<longrightarrow> in_space a) \<and> length m = length ?m0"
    by (intro map_loop_all [OF loop(1)] join_space)
  then show ?thesis by simp
qed

lemma top_step_successor:
  assumes "top_step ins fl s s'" "succ_rows fl noret = Ok rows" "\<forall>t \<in> set noret. \<not> returns fl t"
  shows "ts_pc s < length fl \<and> ts_pc s' \<in> set (rows ! ts_pc s)"
proof -
  have row: "pc < length fl \<Longrightarrow> Ok (rows ! pc) = path_succ noret pc (fl ! pc)" for pc
    using succ_rows_Ok(2) [OF assms(2)] by simp
  show ?thesis
    using assms(1)
  proof (cases rule: top_step.cases)
    case (call pc t r' r m m')
    then have "t \<notin> set noret" using assms(3) by blast
    then show ?thesis using call row [of pc] by (simp add: path_succ_def)
  qed (use row [of "ts_pc s"] in \<open>auto simp: path_succ_def split: if_splits\<close>)
qed

text \<open>Every address a run reaches has a state, and it describes the machine.\<close>

lemma map_describes:
  assumes g: "graph_new c noret = Ok g" and fl: "flows c = decode_flow im"
    and nr: "\<forall>t \<in> set noret. \<not> returns (decode_flow im) t"
    and b: "\<And>i. i \<in> set (im_insns im) \<Longrightarrow> - (2 ^ 15) \<le> off i \<and> off i < 2 ^ 15"
    and m: "map_with (im_insns im) (flows c) (pg_succ g) e asm = Ok m"
    and s0: "start_state e s0" and asm: "\<And>as. asm = Some as \<Longrightarrow> assumed_holds as (ts_mem s0)"
    and run: "(top_step (im_insns im) (decode_flow im))\<^sup>*\<^sup>* s0 s"
  shows "ts_pc s < length m \<and> (\<exists>a. m ! ts_pc s = Some a \<and> describes (ts_mem s0) a s)"
  using run
proof (induction rule: rtranclp_induct)
  have n: "length (pg_succ g) = length (im_insns im)" "length (decode_flow im) = length (im_insns im)"
    using succ_rows_Ok(1) [OF graph_new_ok(2) [OF g]] fl by (simp_all add: decode_flow_def)
  have rng: "\<forall>pc < length (im_insns im). \<forall>q \<in> set (pg_succ g ! pc). q < length (im_insns im)"
    using graph_new_ok(1) [OF g] n by (auto simp: graph_ok_def step_in_def)
  note len = conjunct2 [OF map_loop_length [OF m rng]] and space = conjunct1 [OF map_loop_length [OF m rng]]
  case base
  obtain a where "m ! e = Some a" "astate_le astate_initial a" using map_with_Ok(1) [OF m] by blast
  moreover have "describes (ts_mem s0) astate_initial s0" by (rule initial_describes [OF s0])
  ultimately show ?case using le_describes s0 map_with_Ok(4) [OF m] len by (metis start_state_def)
next
  have n: "length (pg_succ g) = length (im_insns im)" "length (decode_flow im) = length (im_insns im)"
    using succ_rows_Ok(1) [OF graph_new_ok(2) [OF g]] fl by (simp_all add: decode_flow_def)
  have rng: "\<forall>pc < length (im_insns im). \<forall>q \<in> set (pg_succ g ! pc). q < length (im_insns im)"
    using graph_new_ok(1) [OF g] n by (auto simp: graph_ok_def step_in_def)
  note len = conjunct2 [OF map_loop_length [OF m rng]] and space = conjunct1 [OF map_loop_length [OF m rng]]
  case (step s t)
  then obtain a where a: "ts_pc s < length m" "m ! ts_pc s = Some a" "describes (ts_mem s0) a s" by blast
  obtain out where out: "astep asm (im_insns im ! ts_pc s) (decode_flow im ! ts_pc s) a = Ok out"
    "\<forall>q \<in> set (pg_succ g ! ts_pc s). covered m out q"
    using map_with_Ok(2) [OF m a(1,2)] fl by auto
  have "Some a \<in> set m" using a(1,2) by (metis nth_mem)
  then have sa: "in_space a" using space by blast
  have d: "describes (ts_mem s0) out t" by (rule astep_sound [OF a(3) sa asm b out(1) step(2)])
  have q: "ts_pc t \<in> set (pg_succ g ! ts_pc s)"
    using top_step_successor [OF step(2) _ nr] graph_new_ok(2) [OF g] fl by simp
  then obtain b where "m ! ts_pc t = Some b" "astate_le out b" using out(2) by (auto simp: covered_def split: option.splits)
  moreover have "ts_pc t < length m" using q rng a(1) len by simp
  ultimately show ?case using le_describes [OF d] by blast
qed

subsection \<open>The final checks cannot fail\<close>

definition full :: "astate \<Rightarrow> bool" where
  "full a \<longleftrightarrow> length (av_regs a) = 11"

lemma le_refl: "astate_le a a"
  by (auto simp: astate_le_def list_all2_same split: option.splits)

lemma le_trans: "astate_le a b \<Longrightarrow> astate_le b c \<Longrightarrow> astate_le a c"
proof -
  assume ab: "astate_le a b" and bc: "astate_le b c"
  have "list_all2 (\<lambda>x y. y = ATop \<or> x = y) (av_regs a) (av_regs c)"
  proof (rule list_all2_all_nthI)
    have ab': "list_all2 (\<lambda>x y. y = ATop \<or> x = y) (av_regs a) (av_regs b)"
      and bc': "list_all2 (\<lambda>x y. y = ATop \<or> x = y) (av_regs b) (av_regs c)"
      using ab bc by (simp_all add: astate_le_def)
    then show l: "length (av_regs a) = length (av_regs c)" by (metis list_all2_lengthD)
    show "av_regs c ! i = ATop \<or> av_regs a ! i = av_regs c ! i" if "i < length (av_regs a)" for i
      using list_all2_nthD [OF ab' that] list_all2_nthD [OF bc', of i] that list_all2_lengthD [OF ab'] by auto
  qed
  then show ?thesis using ab bc by (auto simp: astate_le_def split: option.splits)
qed

lemma join_upper:
  assumes "full a" "full b"
  shows "astate_le a (astate_join a b)" "astate_le b (astate_join a b)" "full (astate_join a b)"
  using assms by (auto simp: astate_le_def astate_join_def full_def list_all2_conv_all_nth split: option.splits)

lemma astep_full:
  assumes "full a" "astep asm i f a = Ok out"
  shows "full out"
proof -
  have set: "full out" if "aset d v a = Ok out" for d v using that assms(1) by (auto simp: aset_def full_def split: if_splits)
  have plain: "full out" if "plain_step i a = Ok out"
    using that by (cases rule: plain_step_cases) (use set assms(1) in \<open>auto simp: full_def after_store_regs\<close>)
  have "fold_step as g i a = Ok out \<Longrightarrow> full out" for as g using set by (auto simp: fold_step_def bind_res_eq_Ok)
  moreover have "full (forget_regs 6 a)" "full (forget_regs 10 a)" using assms(1) by (simp_all add: full_def forget_regs_def)
  ultimately show ?thesis using assms(2) plain by (auto simp: astep_def split: flow.splits option.splits)
qed

lemma initial_full: "full astate_initial"
  by (simp add: full_def astate_initial_def)

definition below :: "amap \<Rightarrow> amap \<Rightarrow> bool" where
  "below m m' \<longleftrightarrow> (\<forall>q < length m. \<forall>b. m ! q = Some b \<longrightarrow> (\<exists>b'. m' ! q = Some b' \<and> astate_le b b'))"

lemma flow_into_one:
  assumes "flow_into out (m, nxt) q = (m', nxt')" "\<forall>a. Some a \<in> set m \<longrightarrow> full a" "full out" "q < length m"
  shows "below m m'" "covered m' out q" "\<forall>p < length m. m' ! p \<noteq> m ! p \<longrightarrow> p \<in> set nxt'" "set nxt \<subseteq> set nxt'"
    "\<forall>a. Some a \<in> set m' \<longrightarrow> full a" "length m' = length m"
proof -
  define joined where "joined = (case m ! q of None \<Rightarrow> out | Some old \<Rightarrow> astate_join old out)"
  have res: "(m', nxt') = (if m ! q \<noteq> Some joined then (m[q := Some joined], nxt @ [q]) else (m, nxt))"
    using assms(1) unfolding flow_into_def prod.case joined_def [symmetric] Let_def by (rule sym)
  have old: "full b" if "m ! q = Some b" for b using assms(2,4) that by (metis nth_mem)
  have j: "full joined" "astate_le out joined" "\<And>b. m ! q = Some b \<Longrightarrow> astate_le b joined"
    using join_upper [OF old assms(3)] assms(3) le_refl by (auto simp: joined_def split: option.splits)
  have "\<exists>b'. m[q := Some joined] ! p = Some b' \<and> astate_le b b'" if "m ! p = Some b" "p < length m" for p b
    using that j(3) le_refl by (cases "p = q") auto
  then show "below m m'" using res le_refl by (auto simp: below_def split: if_splits)
  show "covered m' out q" using res j(2) assms(4) by (auto simp: covered_def split: if_splits)
  have "m[q := Some joined] ! p \<noteq> m ! p \<Longrightarrow> p = q" for p by (metis nth_list_update_neq)
  then show "\<forall>p < length m. m' ! p \<noteq> m ! p \<longrightarrow> p \<in> set nxt'" "set nxt \<subseteq> set nxt'" "length m' = length m"
    using res by (auto split: if_splits)
  show "\<forall>a. Some a \<in> set m' \<longrightarrow> full a"
    using res j(1) assms(2) set_update_subset_insert [of m q "Some joined"] by (auto split: if_splits)
qed

lemma below_trans:
  assumes "below m m'" "below m' m''" "length m' = length m"
  shows "below m m''"
proof -
  have "\<exists>b''. m'' ! q = Some b'' \<and> astate_le b b''" if q: "q < length m" "m ! q = Some b" for q b
  proof -
    obtain b' where b': "m' ! q = Some b'" "astate_le b b'" using assms(1) q unfolding below_def by blast
    obtain b'' where "m'' ! q = Some b''" "astate_le b' b''" using assms(2,3) q(1) b'(1) unfolding below_def by auto
    then show ?thesis using le_trans [OF b'(2)] by blast
  qed
  then show ?thesis unfolding below_def by blast
qed

lemma covered_below: "covered m out q \<Longrightarrow> below m m' \<Longrightarrow> q < length m \<Longrightarrow> covered m' out q"
  unfolding below_def covered_def using le_trans by (fastforce split: option.splits)

lemma flow_into_many:
  assumes "foldl (flow_into out) (m, nxt) qs = (m', nxt')" "\<forall>a. Some a \<in> set m \<longrightarrow> full a" "full out" "\<forall>q \<in> set qs. q < length m"
  shows "below m m' \<and> (\<forall>q \<in> set qs. covered m' out q) \<and> (\<forall>p < length m. m' ! p \<noteq> m ! p \<longrightarrow> p \<in> set nxt') \<and> set nxt \<subseteq> set nxt' \<and>
    (\<forall>a. Some a \<in> set m' \<longrightarrow> full a) \<and> length m' = length m"
  using assms(1,2,4)
proof (induction qs arbitrary: m nxt)
  case Nil
  then show ?case using le_refl by (auto simp: below_def)
next
  case (Cons q qs)
  obtain m1 n1 where f: "flow_into out (m, nxt) q = (m1, n1)" by fastforce
  have q: "q < length m" using Cons.prems(3) by simp
  note one = flow_into_one [OF f Cons.prems(2) assms(3) q]
  have run: "foldl (flow_into out) (m1, n1) qs = (m', nxt')" using Cons.prems(1) f by simp
  have "\<forall>q \<in> set qs. q < length m1" using Cons.prems(3) one(6) by simp
  note IH = Cons.IH [OF run one(5) this]
  have "below m m'" using below_trans [OF one(1)] IH one(6) by blast
  moreover have "covered m' out q" using covered_below [OF one(2)] IH q one(6) by metis
  moreover have "p \<in> set nxt'" if "p < length m" "m' ! p \<noteq> m ! p" for p
    using IH one(3,4,6) that by (metis subsetD)
  ultimately show ?case using IH one(4,6) by auto
qed

definition settled :: "(nat \<Rightarrow> astate \<Rightarrow> (string, astate) res) \<Rightarrow> nat list list \<Rightarrow> amap \<Rightarrow> nat list \<Rightarrow> bool" where
  "settled st rows m work \<longleftrightarrow> (\<forall>pc < length m. \<forall>a. m ! pc = Some a \<longrightarrow>
     pc \<in> set work \<or> (\<exists>out. st pc a = Ok out \<and> (\<forall>q \<in> set (rows ! pc). covered m out q)))"

lemma map_loop_settles:
  assumes "map_loop st rows fuel m work = Ok m'" "settled st rows m work" "\<forall>a. Some a \<in> set m \<longrightarrow> full a"
    and "\<forall>pc a out. full a \<longrightarrow> st pc a = Ok out \<longrightarrow> full out"
    and "\<forall>pc < length m. \<forall>q \<in> set (rows ! pc). q < length m" "\<forall>q \<in> set work. q < length m"
  shows "settled st rows m' [] \<and> below m m' \<and> length m' = length m"
  using assms
proof (induction st rows fuel m work rule: map_loop.induct)
  case (1 st rows fuel m)
  then show ?case using le_refl by (auto simp: below_def)
next
  case (2 st rows m pc work)
  then show ?case by simp
next
  case (3 st rows fuel m pc work)
  obtain a where a1: "m ! pc = Some a" using "3.prems"(1) by (cases "m ! pc") simp_all
  obtain out where a2: "st pc a = Ok out" using "3.prems"(1) a1 by (cases "st pc a") simp_all
  obtain m1 n1 where f: "foldl (flow_into out) (m, []) (rows ! pc) = (m1, n1)" by fastforce
  have run: "map_loop st rows fuel m1 (rev n1 @ work) = Ok m'" using "3.prems"(1) a1 a2 f by simp
  have pc: "pc < length m" using "3.prems"(6) by simp
  then have "full a" using "3.prems"(3) a1 by (metis nth_mem)
  then have out: "full out" using "3.prems"(4) a2 by blast
  have rows: "\<forall>q \<in> set (rows ! pc). q < length m" using "3.prems"(5) pc by blast
  note many = flow_into_many [OF f "3.prems"(3) out rows]
  have len: "length m1 = length m" using many by blast
  have work: "\<forall>q \<in> set (rev n1 @ work). q < length m1"
    using flow_into_next [OF f] rows "3.prems"(6) len by fastforce
  have "settled st rows m1 (rev n1 @ work)"
    unfolding settled_def
  proof (intro allI impI)
    fix p b assume p: "p < length m1" "m1 ! p = Some b"
    show "p \<in> set (rev n1 @ work) \<or> (\<exists>out. st p b = Ok out \<and> (\<forall>q \<in> set (rows ! p). covered m1 out q))"
    proof (cases "m1 ! p = m ! p")
      case False
      then show ?thesis using many p(1) len by auto
    next
      case same: True
      show ?thesis
      proof (cases "p = pc")
        case True
        then have "b = a" using same p(2) a1 by simp
        then show ?thesis using a2 many True by blast
      next
        case False
        have "p \<in> set (pc # work) \<or> (\<exists>out. st p b = Ok out \<and> (\<forall>q \<in> set (rows ! p). covered m out q))"
          using "3.prems"(2) p same len unfolding settled_def by metis
        moreover have "covered m1 o' q" if "covered m o' q" "q \<in> set (rows ! p)" for o' q
          using covered_below [OF that(1)] many that(2) "3.prems"(5) p(1) len by metis
        ultimately show ?thesis using False by auto
      qed
    qed
  qed
  moreover have "\<forall>a. Some a \<in> set m1 \<longrightarrow> full a" using many by blast
  moreover have "\<forall>pc < length m1. \<forall>q \<in> set (rows ! pc). q < length m1" using "3.prems"(5) len by simp
  ultimately have "settled st rows m' [] \<and> below m1 m' \<and> length m' = length m1"
    using "3.IH" [OF a1 a2 f [symmetric] refl run] "3.prems"(4) work by blast
  then show ?case using below_trans [of m m1 m'] many len by metis
qed

text \<open>With registers in range the transfer function always has a result, and the search never meets an empty entry.\<close>

lemma astep_Ok:
  assumes "full a" "dst i \<le> 10" "src i \<le> 10"
  obtains out where "astep asm i f a = Ok out"
proof -
  have n: "unat (dst i) < 11" "unat (src i) < 11" using assms(2,3) by (simp_all add: word_le_nat_alt)
  then have set: "\<exists>out. aset (dst i) v a = Ok out" for v using assms(1) by (simp add: aset_def full_def)
  have get: "\<exists>v. areg a (dst i) = Ok v" "\<exists>v. areg a (src i) = Ok v" using assms(1) n by (simp_all add: areg_def full_def)
  have plain: "\<exists>out. plain_step i a = Ok out"
    using get set by (fastforce simp: plain_step_def split: option.splits)
  have "\<exists>out. fold_step as g i a = Ok out" for as g
    using get set by (fastforce simp: fold_step_def)
  then have "\<exists>out. astep asm i f a = Ok out" using plain by (auto simp: astep_def split: option.splits flow.splits)
  then show ?thesis using that by blast
qed

lemma flow_into_some:
  "foldl (flow_into out) (m, nxt) qs = (m', nxt') \<Longrightarrow> \<forall>q \<in> set qs. q < length m \<Longrightarrow> \<forall>q \<in> set nxt. m ! q \<noteq> None \<Longrightarrow>
    (\<forall>q. m ! q \<noteq> None \<longrightarrow> m' ! q \<noteq> None) \<and> (\<forall>q \<in> set nxt'. m' ! q \<noteq> None)"
proof (induction qs arbitrary: m nxt)
  case (Cons q qs)
  obtain m1 n1 where f: "flow_into out (m, nxt) q = (m1, n1)" by fastforce
  have q: "q < length m" using Cons.prems(2) by simp
  have m1: "(m1 = m \<and> n1 = nxt) \<or> (\<exists>x. m1 = m[q := Some x] \<and> n1 = nxt @ [q])"
    using f by (auto simp: flow_into_def Let_def split: if_splits)
  have keep: "m1 ! p \<noteq> None" if "m ! p \<noteq> None" for p using m1 that q by (cases "p = q") auto
  have "\<forall>p \<in> set n1. m1 ! p \<noteq> None" using m1 keep Cons.prems(3) q by auto
  moreover have "foldl (flow_into out) (m1, n1) qs = (m', nxt')" "\<forall>q \<in> set qs. q < length m1"
    using Cons.prems(1,2) f m1 by auto
  ultimately show ?case using Cons.IH [of m1 n1] keep by blast
qed simp

lemma map_loop_returns:
  assumes "\<forall>q \<in> set work. q < length m \<and> m ! q \<noteq> None" "\<forall>a. Some a \<in> set m \<longrightarrow> full a"
    and "\<And>pc a. pc < length m \<Longrightarrow> full a \<Longrightarrow> \<exists>out. st pc a = Ok out \<and> full out"
    and "\<forall>pc < length m. \<forall>q \<in> set (rows ! pc). q < length m"
  shows "(\<exists>m'. map_loop st rows fuel m work = Ok m') \<or> map_loop st rows fuel m work = Err ''abstract-map worklist exhausted its fuel''"
  using assms
proof (induction st rows fuel m work rule: map_loop.induct)
  case (3 st rows fuel m pc work)
  have pc: "pc < length m" using "3.prems"(1) by simp
  obtain a where a: "m ! pc = Some a" using "3.prems"(1) by auto
  then have "full a" using "3.prems"(2) pc by (metis nth_mem)
  then obtain out where out: "st pc a = Ok out" "full out" using "3.prems"(3) pc by blast
  obtain m1 n1 where f: "foldl (flow_into out) (m, []) (rows ! pc) = (m1, n1)" by fastforce
  have rows: "\<forall>q \<in> set (rows ! pc). q < length m" using "3.prems"(4) pc by blast
  note many = flow_into_many [OF f "3.prems"(2) out(2) rows]
  have some: "(\<forall>q. m ! q \<noteq> None \<longrightarrow> m1 ! q \<noteq> None) \<and> (\<forall>q \<in> set n1. m1 ! q \<noteq> None)"
    by (rule flow_into_some [OF f rows]) simp
  have "\<forall>q \<in> set (rev n1 @ work). q < length m1 \<and> m1 ! q \<noteq> None"
    using some flow_into_next [OF f] rows "3.prems"(1) many by fastforce
  moreover have "\<forall>a. Some a \<in> set m1 \<longrightarrow> full a" using many by blast
  moreover have "\<exists>out. st pc a = Ok out \<and> full out" if "pc < length m1" "full a" for pc a
    using "3.prems"(3) that many by simp
  moreover have "\<forall>pc < length m1. \<forall>q \<in> set (rows ! pc). q < length m1" using "3.prems"(4) many by simp
  ultimately have "(\<exists>m'. map_loop st rows fuel m1 (rev n1 @ work) = Ok m') \<or>
      map_loop st rows fuel m1 (rev n1 @ work) = Err ''abstract-map worklist exhausted its fuel''"
    by (rule "3.IH" [OF a out(1) f [symmetric] refl])
  then show ?case using a out(1) f by simp
qed simp_all

subsection \<open>Properties\<close>

text \<open>C14: The abstract map is sound.  When the map of a built program is accepted, without assumed words or
  with words the initial input holds, every state the machine reaches in the entry frame from a loader
  state has a map entry at its address, and that entry describes it: each known register has the value
  it says and the input still holds its initial bytes outside the recorded ranges.\<close>

theorem provenance_sound:
  assumes "build im = Ok (Some c)" "set noret \<subseteq> noreturn c" "graph_new c noret = Ok g"
    and "\<forall>i \<in> set (im_insns im). - (2 ^ 15) \<le> off i \<and> off i < 2 ^ 15"
    and "map_with (im_insns im) (flows c) (pg_succ g) (entry c) asm = Ok m"
    and "start_state (entry c) s0" "\<forall>as. asm = Some as \<longrightarrow> assumed_holds as (ts_mem s0)"
    and "(top_step (im_insns im) (decode_flow im))\<^sup>*\<^sup>* s0 s"
  shows "\<exists>a. m ! ts_pc s = Some a \<and> describes (ts_mem s0) a s"
proof -
  note fl = build_funs(1) [OF assms(1)]
  have "\<forall>f \<in> noreturn c. \<not> returns (decode_flow im) f"
    using noreturn_loop_sound [OF build_funs(4) [OF assms(1)]] by (simp only: fl)
  then have "\<forall>t \<in> set noret. \<not> returns (decode_flow im) t" using assms(2) by blast
  then show ?thesis using map_describes [OF assms(3) fl _ _ assms(5,6) _ assms(8)] assms(4,7) by blast
qed

text \<open>A program that loads a word of its input, writes another and branches on the loaded one.\<close>

definition load_image :: program_image where
  "load_image = (let is = [\<lparr>opc = 0x79, dst = 2, src = 1, off = 8, imm = 0\<rparr>, \<lparr>opc = 0x7B, dst = 1, src = 2, off = 0, imm = 0\<rparr>,
      \<lparr>opc = 0x15, dst = 2, src = 0, off = 1, imm = 1\<rparr>, \<lparr>opc = EXIT, dst = 0, src = 0, off = 0, imm = 0\<rparr>,
      \<lparr>opc = MOV64_IMM, dst = 0, src = 0, off = 0, imm = 0\<rparr>, \<lparr>opc = EXIT, dst = 0, src = 0, off = 0, imm = 0\<rparr>] in
    \<lparr>im_insns = is, im_version = V0, im_pc_map = from_insns is, im_registry = (\<lambda>h. None), im_entry_slot = 0,
     im_hash = (\<lambda>n. 1)\<rparr>)"

definition load_cfg :: cfg where
  "load_cfg = \<lparr>flows = [Seq, Seq, Branch 4, FExit, Seq, FExit], entry = 0, funs = [(0, {0, 1, 2, 3, 4, 5})], noreturn = {}\<rparr>"

definition load_graph :: path_graph where
  "load_graph = \<lparr>pg_succ = [[1], [2], [4, 3], [], [5], []], pg_pred = [[], [0], [1], [2], [2], [4]]\<rparr>"

definition load_state :: "(u64 \<times> u64) list \<Rightarrow> aval \<Rightarrow> aval \<Rightarrow> astate" where
  "load_state ws v0 v2 = \<lparr>av_regs = [v0, InPtr 0, v2, ATop, ATop, ATop, ATop, ATop, ATop, ATop, Fp], av_written = Some ws\<rparr>"

definition load_map :: amap where
  "load_map = (let l = InLoad ''dword'' 8; w = load_state [(0, 8)] in
    [Some (load_state [] ATop ATop), Some (load_state [] ATop l), Some (w ATop l), Some (w ATop l), Some (w ATop l), Some (w (AConst 0) l)])"

lemma load_build: "build load_image = Ok (Some load_cfg)" "graph_new load_cfg [] = Ok load_graph"
  by code_simp+

lemma load_mapped: "map_with (im_insns load_image) (flows load_cfg) (pg_succ load_graph) (entry load_cfg) None = Ok load_map"
  by code_simp

definition load_start :: top_state where
  "load_start = \<lparr>ts_pc = 0, ts_regs = (\<lambda>k. 0)(1 := word_of_nat INPUT_START, 10 := word_of_nat STACK_TOP), ts_mem = (\<lambda>x. 7)\<rparr>"

lemma load_run: "\<exists>s. (top_step (im_insns load_image) (decode_flow load_image))\<^sup>*\<^sup>* load_start s \<and> ts_pc s = 2"
proof -
  let ?step = "top_step (im_insns load_image) (decode_flow load_image)"
  have fl: "decode_flow load_image = [Seq, Seq, Branch 4, FExit, Seq, FExit]" by code_simp
  have sh: "map_of decode_table 0x79 = Some (SLdx Dword)" "map_of decode_table 0x7B = Some (SStx Dword)" by code_simp+
  have i0: "im_insns load_image ! 0 = \<lparr>opc = 0x79, dst = 2, src = 1, off = 8, imm = 0\<rparr>"
    and i1: "im_insns load_image ! 1 = \<lparr>opc = 0x7B, dst = 1, src = 2, off = 0, imm = 0\<rparr>" by (simp_all add: load_image_def Let_def)
  have s0: "\<exists>r' m'. seq_effect (im_insns load_image ! 0) r m = Some (r', m')" for r m
    by (simp add: seq_effect_def i0 sh Let_def)
  have s1: "\<exists>r' m'. seq_effect (im_insns load_image ! 1) r m = Some (r', m')" for r m
    by (simp add: seq_effect_def i1 [unfolded One_nat_def] sh Let_def)
  have one: "\<exists>r' m'. ?step \<lparr>ts_pc = 0, ts_regs = r, ts_mem = m\<rparr> \<lparr>ts_pc = 1, ts_regs = r', ts_mem = m'\<rparr>" for r m
    using s0 [of r m] top_step.fall [of 0 "decode_flow load_image"] by (fastforce simp: fl)
  have two: "\<exists>r' m'. ?step \<lparr>ts_pc = 1, ts_regs = r, ts_mem = m\<rparr> \<lparr>ts_pc = 2, ts_regs = r', ts_mem = m'\<rparr>" for r m
    using s1 [of r m] top_step.fall [of 1 "decode_flow load_image"] by (fastforce simp: fl numeral_2_eq_2)
  obtain r m where a: "?step load_start \<lparr>ts_pc = 1, ts_regs = r, ts_mem = m\<rparr>" unfolding load_start_def using one by blast
  obtain r' m' where b: "?step \<lparr>ts_pc = 1, ts_regs = r, ts_mem = m\<rparr> \<lparr>ts_pc = 2, ts_regs = r', ts_mem = m'\<rparr>" using two by blast
  have "?step\<^sup>*\<^sup>* load_start \<lparr>ts_pc = 2, ts_regs = r', ts_mem = m'\<rparr>"
    by (rule rtranclp.rtrancl_into_rtrancl [where r = ?step, OF r_into_rtranclp [where r = ?step, OF a] b])
  then show ?thesis by (intro exI conjI) (assumption, simp)
qed

theorem provenance_sound_witness:
  "\<exists>s. (top_step (im_insns load_image) (decode_flow load_image))\<^sup>*\<^sup>* load_start s \<and> ts_pc s = 2 \<and>
    describes (ts_mem load_start) (load_state [(0, 8)] ATop (InLoad ''dword'' 8)) s"
proof -
  obtain s where s: "(top_step (im_insns load_image) (decode_flow load_image))\<^sup>*\<^sup>* load_start s" "ts_pc s = 2"
    using load_run by blast
  have b: "\<forall>i \<in> set (im_insns load_image). - (2 ^ 15) \<le> off i \<and> off i < 2 ^ 15" by (simp add: load_image_def Let_def)
  have st: "start_state (entry load_cfg) load_start" by (simp add: start_state_def load_start_def load_cfg_def)
  have "\<exists>a. load_map ! ts_pc s = Some a \<and> describes (ts_mem load_start) a s"
    by (rule provenance_sound [OF load_build(1) _ load_build(2) b load_mapped st _ s(1)]) simp_all
  moreover have "load_map ! 2 = Some (load_state [(0, 8)] ATop (InLoad ''dword'' 8))" by (simp add: load_map_def Let_def)
  ultimately show ?thesis using s by auto
qed

text \<open>C22: The last two checks of the map never reject.  Over a built graph, from an entry inside the program and
  with registers in range, the search either returns a map (accepted by the entry and the post-fixpoint
  check) or reports that its fuel ran out; it neither panics nor fails one of the checks.\<close>

theorem map_checks_redundant:
  assumes "graph_new c noret = Ok g" "length (im_insns im) = length (flows c)" "e < length (im_insns im)"
    and "\<forall>i \<in> set (im_insns im). dst i \<le> 10 \<and> src i \<le> 10"
  shows "(\<exists>m. map_with (im_insns im) (flows c) (pg_succ g) e asm = Ok m \<and> (\<exists>a. m ! e = Some a \<and> astate_le astate_initial a)) \<or>
    map_with (im_insns im) (flows c) (pg_succ g) e asm = Err ''abstract-map worklist exhausted its fuel''"
proof -
  let ?ins = "im_insns im" and ?rows = "pg_succ g"
  let ?st = "\<lambda>pc a. astep asm (?ins ! pc) (flows c ! pc) a" and ?m0 = "(replicate (length ?ins) None)[e := Some astate_initial]"
  let ?loop = "map_loop ?st ?rows (length ?ins * 40) ?m0 [e]"
  have rng: "\<forall>pc < length ?m0. \<forall>q \<in> set (?rows ! pc). q < length ?m0"
    using graph_new_ok [OF assms(1)] succ_rows_Ok(1) assms(2) by (fastforce simp: graph_ok_def step_in_def)
  have st: "\<exists>out. ?st pc a = Ok out \<and> full out" if "pc < length ?m0" "full a" for pc a
    using astep_Ok [OF that(2), of "?ins ! pc"] astep_full [OF that(2)] assms(4) that(1) by (metis length_list_update length_replicate nth_mem)
  have full0: "\<forall>a. Some a \<in> set ?m0 \<longrightarrow> full a"
    using set_update_subset_insert [of "replicate (length ?ins) None" e "Some astate_initial"] initial_full by auto
  have work: "\<forall>q \<in> set [e]. q < length ?m0 \<and> ?m0 ! q \<noteq> None" "\<forall>q \<in> set [e]. q < length ?m0" using assms(3) by simp_all
  consider m where "?loop = Ok m" | "?loop = Err ''abstract-map worklist exhausted its fuel''"
    using map_loop_returns [of "[e]" ?m0 ?st ?rows "length ?ins * 40", OF work(1) full0 st rng] by blast
  then show ?thesis
  proof cases
    case 1
    have "settled ?st ?rows ?m0 [e]" by (auto simp: settled_def nth_list_update split: if_splits)
    then have m: "settled ?st ?rows m [] \<and> below ?m0 m \<and> length m = length ?m0"
      using map_loop_settles [OF 1 _ full0 _ rng work(2)] astep_full by blast
    moreover have "?m0 ! e = Some astate_initial" using assms(3) by simp
    ultimately obtain a where a: "m ! e = Some a" "astate_le astate_initial a"
      using assms(3) unfolding below_def by (metis length_list_update length_replicate)
    have "check_entry ?st ?rows m () (pc, y) = Ok ()" if "(pc, y) \<in> set (List.enumerate 0 m)" for pc y
    proof -
      have "pc < length m" "y = m ! pc" using that by (simp_all add: mem_enumerate)
      moreover have "\<exists>out. ?st pc b = Ok out \<and> (\<forall>q \<in> set (?rows ! pc). covered m out q)" if "y = Some b" for b
        using m that calculation unfolding settled_def by auto
      ultimately show ?thesis by (cases y) (fastforce simp: check_entry_def list_all_iff)+
    qed
    then have "\<forall>x \<in> set (List.enumerate 0 m). check_entry ?st ?rows m () x = Ok ()" by auto
    then have "foldM (check_entry ?st ?rows m) () (List.enumerate 0 m) = Ok ()" by (simp add: foldM_units)
    then have "map_with ?ins (flows c) ?rows e asm = Ok m" using 1 a assms(3) by (simp add: map_with_def Let_def)
    then show ?thesis using a by blast
  next
    case 2
    then show ?thesis using assms(3) by (simp add: map_with_def Let_def)
  qed
qed

theorem map_checks_redundant_witness:
  "\<exists>a. load_map ! 0 = Some a \<and> astate_le astate_initial a"
proof -
  have c: "length (im_insns load_image) = length (flows load_cfg)" "0 < length (im_insns load_image)"
    "\<forall>i \<in> set (im_insns load_image). dst i \<le> 10 \<and> src i \<le> 10" by (simp_all add: load_image_def load_cfg_def Let_def)
  have "entry load_cfg = 0" by (simp add: load_cfg_def)
  then show ?thesis using map_checks_redundant [OF load_build(2) c, of None] load_mapped by auto
qed

end
