(* ===== verification/Spec2Isabelle.thy ===== *)
theory Spec2Isabelle
  imports Svm_Host Isa Cfg Branch_Witness Walk_Safety Retry_Plans Panic_Chain Input_Layout Ledger_Witness Provenance
begin

text \<open>
  Verification of qedsvm (\<open>src/qedsvm-rs\<close>), a Solana virtual machine whose executor is written in Lean
  (\<open>src/SVM\<close>) and driven from Rust, together with the tools that lift sBPF binaries to Lean theorems.

  \<^bold>\<open>The program and its parts.\<close>

  \<^item> \<^emph>\<open>The host\<close> (\<open>src/svm.rs\<close>, \<open>src/lib.rs\<close>) runs one instruction: it serialises the accounts into the
    input buffer, hands the buffer with a registry of callable programs to the Lean executor over FFI,
    decodes the result, reads the accounts back out of the buffer, and validates the changes.
  \<^item> \<^emph>\<open>The wire formats\<close>: \<open>src/cursor.rs\<close>, \<open>src/wire.rs\<close>, \<open>src/serialize.rs\<close>, \<open>src/deserialize.rs\<close>, and on
    the Lean side \<open>SVM/Ffi.lean\<close> and \<open>SVM/Lib/Runtime/Checks.lean\<close>.
  \<^item> \<^emph>\<open>The program image\<close> (\<open>qed-analysis\<close>): decoding into logical instructions, the map between byte slots and
    logical PCs, the control-flow graph, functions that never return and the success edges.
  \<^item> \<^emph>\<open>The discovery of proof inputs\<close> (\<open>qed-analysis/src/discover\<close>, \<open>success_proofs\<close>): panic chains, the layout of the
    aligned input, the path queries over the successor graph and the abstract interpreter of register provenance.
  \<^item> \<^emph>\<open>The lifter\<close> (\<open>qedlift\<close>): renders instructions as Lean terms, walks one path of a program and executes it
    symbolically, guards the separation-logic precondition against overlapping atoms, emits the spec-call line of each
    instruction and syscall, searches for a witness of the path condition, prints the assertions and checks that the
    precondition has a model.

  \<^bold>\<open>Which theory models what.\<close>

  \<^item> \<open>Prelude\<close>: the result type \<open>res\<close> (a value, an error, or a panic), its bind, little-endian byte lists.
  \<^item> \<open>Byte_Cursor\<close> (\<open>cursor.rs\<close>), \<open>Wire\<close> (\<open>wire.rs\<close>, \<open>encodeRun\<close>, the CPI registry), \<open>Accounts\<close>, \<open>Serialize\<close>
    (\<open>serialize.rs\<close>), \<open>Deserialize\<close> (\<open>deserialize.rs\<close>), \<open>Account_Checks\<close> (\<open>Checks.lean\<close> and the change wire),
    \<open>Svm_Host\<close> (\<open>svm.rs\<close>): the host side.
  \<^item> \<open>Ebpf\<close>, \<open>Pc_Map\<close> (\<open>qed-analysis/src/lib.rs\<close>, \<open>image.rs\<close>), \<open>Isa\<close> (\<open>qedlift/src/isa.rs\<close> against
    \<open>SVM/SBPF/Decode.lean\<close>), \<open>Worklist\<close> and \<open>Cfg\<close> (\<open>qed-analysis/src/cfg.rs\<close>): the program image.
  \<^item> \<open>Ordered_Map\<close> (\<open>BTreeMap\<close>), \<open>Sym_Expr\<close> and \<open>Canon_Addr\<close> (\<open>qedlift/src/core.rs\<close>), \<open>Decimal\<close> (printed numerals),
    \<open>Branch\<close> (\<open>branch.rs\<close>), \<open>Branch_Witness\<close> (\<open>witness.rs\<close>), \<open>Sym_State\<close> (\<open>state.rs\<close>), \<open>Sym_Step\<close>
    (\<open>exec/step.rs\<close>) and \<open>Spec_Call\<close> (\<open>spec_call.rs\<close>): one symbolic instruction.
  \<^item> \<open>Prepared_Step\<close> (\<open>prepare_step\<close> and \<open>apply_step\<close> of \<open>exec/walk.rs\<close>), \<open>Syscalls\<close> (\<open>syscalls.rs\<close>,
    \<open>exec/syscall_registry.rs\<close>), \<open>Walk\<close> (\<open>exec/control.rs\<close>, \<open>exec/walk.rs\<close>), \<open>Walk_Safety\<close> and \<open>Retry_Plans\<close> (what a walk
    and its retry plans guarantee): the walker.  \<open>walk_turn\<close> is one turn of the walker's loop, \<open>walk_loop\<close> the loop,
    \<open>walk_retry\<close> the retry loop around it.

  \<^item> \<open>Panic_Chain\<close> (\<open>discover/noreturn.rs\<close>), \<open>Input_Layout\<close> (\<open>input_layout.rs\<close>), \<open>Path_Graph\<close> (\<open>Graph\<close> of
    \<open>success_proofs.rs\<close>, the path queries of \<open>discover/dispatch.rs\<close>), \<open>Top_Run\<close> (the entry frame of the Lean machine,
    \<open>SVM/SBPF/Execute.lean\<close> with the call summary of \<open>StaticReach.lean\<close>) and \<open>Provenance\<close>
    (\<open>success_proofs/provenance.rs\<close>): the discovery.
  \<^item> \<open>Atoms\<close> and \<open>Sat_Witness\<close> (\<open>qedlift/src/emit.rs\<close>), \<open>Ledger_Witness\<close>: the assertions printed for a finished walk and the
    witness that the precondition is satisfiable.

  A Rust struct is a record, an enum a datatype, a method that mutates its receiver a function that returns
  the new value.  Machine words keep their width; an \<open>i64\<close> that the code adds with \<open>wrapping_add\<close> is an integer
  reduced by \<open>wrap_i64\<close>.  A string is the list of its UTF-8 bytes.  A \<open>LiftError\<close> is its category.

  \<^bold>\<open>What is an argument.\<close>  Code outside the repository is a parameter: the sBPF codec and loader of \<open>solana_sbpf\<close>
  (a decoding function, a function registry, the read-only region, a symbol hash), the SDK identifiers, and the executor behind the FFI,
  of which the host theorems assume nothing: they hold whatever bytes it returns.

  \<^bold>\<open>What the lemmas show.\<close>

  \<^item> Host: the result decoder inverts the Lean encoder and never panics; the serializer's buffer is read back as
    the accounts it was made from; a program's writes are read exactly; an instruction reported as a success
    conserves lamports, respects permissions and rent; the host panics only where the account reader does, and one
    theorem exhibits the program output that makes it panic.
  \<^item> Image: slot and logical PCs are inverse; every accepted instruction is rendered as the instruction the Lean
    decoder reads; a function classified as not returning has no path to an exit; the outcome analysis lists exactly
    the exit edges with the writes of \<open>r0\<close> that reach them.
  \<^item> Lifter: evaluation of a symbolic value is the number its rendered term denotes; the solver and the witness
    search are sound and end; the classes of the repair pass are the equivalence classes of the path's equalities;
    fresh names are used once; a store is read back; and the value of every symbolically executed register operation
    is the one the Lean machine computes.
  \<^item> Walker: rendering an instruction before its step does not change the step, and its line names the cells the step
    creates; the spec-call table covers every accepted instruction but two kinds; merging demotion requests is set
    union; a traced walk never hits its cap and follows its trace; a finished walk has a well-formed register file and,
    without syscalls, memory cells that are pairwise apart.  One theorem shows that the footprint ledger does not see a
    syscall repeated on the same address.

  \<^item> Discovery: a panic chain passes the proof checker and lists exactly the functions that end in a panic; the offsets
    computed for the aligned input are those of the serializer; a guard is a branch no path avoids; and every state the
    machine reaches in its entry frame is described by the abstract map, which a worklist always leaves a post-fixpoint.
  \<^item> Assertions: the postcondition ranges over the resources of the precondition; a satisfiability witness that is emitted
    gives every atom its own resources; and the footprint ledger of a walk without syscalls implies that one is emitted.

  Interfaces are locales, each interpreted on the model's own definitions: \<open>prefix_codec\<close> and \<open>align_pad\<close> (wire
  formats), \<open>first_occurrence\<close> and \<open>reference_loop\<close> (duplicate accounts), \<open>pc_layout\<close> (slots and logical PCs),
  \<open>graph_search\<close> (worklists), \<open>ordered_map\<close> (\<open>BTreeMap\<close>) and \<open>turn_invariant\<close> (what every turn of the walk keeps).

  \<^bold>\<open>Loops and bounds.\<close>  Loops over data are structural.  The noreturn fixpoint, the graph searches and the root walk
  of the union-find are \<open>while_option\<close> loops whose result is shown never to be \<open>None\<close>; hill climbing runs the eight
  rounds of the code.  The step cap of a walk (1024, or the length of the trace and eight more) and its eight attempts are the
  code's own, so the walker recurses on what is left of them.  The panic-chain walk has one unit of fuel more than the
  program has instructions, which no chain without repetition exceeds; the abstract map has the code's own fuel of forty
  visits per instruction, and running out of it is an error of the code.  Offsets of instructions are \<open>i16\<close> where a lemma needs it, and the plain \<open>i64\<close> additions of
  \<open>state.rs\<close> and \<open>syscalls.rs\<close> are taken not to overflow; the sum in the bound check of a sysvar id panics when it does.

  \<^bold>\<open>Not modelled.\<close>  The generators that print Lean files (\<open>lift.rs\<close>, \<open>driver.rs\<close>, \<open>transition.rs\<close>, \<open>refinement\<close>, the
  printing half of \<open>success_proofs.rs\<close>), the reports of \<open>qed-analysis\<close> (concept map, symbolication, field and authority
  heuristics), sidecar metadata (\<open>qed-artifacts\<close>, \<open>qedrecover\<close>), FFI plumbing, command lines and build scripts: text
  templates and I/O around the parts above.  Messages of errors are not modelled except where they are data, only their
  category; in \<open>Sat_Witness\<close> the trimming of a token knows the ASCII blanks only.
\<close>

end
